(* ===== verification/Ccb_Prelude.thy ===== *)
theory Ccb_Prelude
  imports Main "HOL-Library.Word" "HOL-Library.Sublist"
begin

unbundle bit_operations_syntax

text \<open>
  Shared vocabulary of the development: the machine integers of the Go sources, the
  collections the component proofs rewrite with, and the generic facts on lists, prefixes
  and runs of step relations that several components use.

  Go's sized unsigned integers are words (their arithmetic wraps exactly as Go's does).
  \<open>int\<close>, \<open>int64\<close> and \<open>time.Duration\<close> quantities whose value never leaves the 64-bit range
  are \<open>int\<close> or \<open>nat\<close>; where a conversion can wrap, it is written as a conversion to a word.
  A Go byte slice is a list of bytes, a Go string is an Isabelle \<open>string\<close> whose
  characters are the string's bytes.
\<close>

section \<open>Machine types\<close>

type_synonym byte = "8 word"
type_synonym uint16 = "16 word"
type_synonym uint32 = "32 word"
type_synonym uint64 = "64 word"

text \<open>Durations count nanoseconds, as \<open>time.Duration\<close> does.\<close>

abbreviation millisecond :: int where "millisecond \<equiv> 1000000"
abbreviation second :: int where "second \<equiv> 1000 * millisecond"
abbreviation minute :: int where "minute \<equiv> 60 * second"

section \<open>Collections of the development\<close>

named_theorems wire_simps \<open>lengths and decompositions of encoded frames\<close>

section \<open>Lists and prefixes\<close>

lemma take_drop_slice: "take k (drop i xs) @ drop (i + k) xs = drop i xs"
  by (metis add.commute append_take_drop_id drop_drop)

lemma prefix_append_cases:
  "prefix p (x @ y) \<Longrightarrow> length x \<le> length p \<Longrightarrow> \<exists>q. p = x @ q \<and> prefix q y"
  by (auto simp: prefix_append dest: prefix_length_le)
    (metis append_Nil2 append_eq_append_conv le_antisym prefixE prefix_length_le prefix_bot.bot_least)

lemma prefix_append_short:
  "prefix p (x @ y) \<Longrightarrow> length p < length x \<Longrightarrow> strict_prefix p x"
  by (auto simp: prefix_append strict_prefix_def dest: prefix_length_le)

lemma prefix_take_drop:
  "prefix (take a xs) ys \<Longrightarrow> prefix xs' xs \<Longrightarrow> length xs' \<le> a \<Longrightarrow> prefix xs' ys"
  by (metis append_eq_conv_conj prefix_def prefix_order.trans take_is_prefix take_all
      take_append prefixE)

lemma foldl_inj:
  assumes "\<And>a b x. f a x = f b x \<Longrightarrow> a = b"
  shows "foldl f a xs = foldl f b xs \<Longrightarrow> a = b"
  by (induction xs arbitrary: a b) (auto dest: assms)

section \<open>Words\<close>

lemma unat_word_of_nat: "n < 2 ^ LENGTH('a) \<Longrightarrow> unat (word_of_nat n :: 'a::len word) = n"
  by (simp add: unat_of_nat)

lemma unat_plus_one: "Suc (unat v) < 2 ^ LENGTH('a) \<Longrightarrow> unat (v + 1) = Suc (unat v)"
  for v :: "'a::len word"
  by (simp add: unat_word_ariths)

section \<open>Runs of a step relation\<close>

text \<open>
  The reachable states of a machine given by its initial states and a step relation, and
  the rule that an inductive invariant holds in every one of them. The rule is stated once,
  as a locale, and interpreted for every machine of the development.
\<close>

inductive reach :: "('s \<Rightarrow> bool) \<Rightarrow> ('s \<Rightarrow> 's \<Rightarrow> bool) \<Rightarrow> 's \<Rightarrow> bool"
  for start :: "'s \<Rightarrow> bool" and step :: "'s \<Rightarrow> 's \<Rightarrow> bool" where
  reach_start: "start s \<Longrightarrow> reach start step s"
| reach_step: "reach start step s \<Longrightarrow> step s t \<Longrightarrow> reach start step t"

locale invariant_machine =
  fixes start :: "'s \<Rightarrow> bool"
    and step :: "'s \<Rightarrow> 's \<Rightarrow> bool"
    and inv :: "'s \<Rightarrow> bool"
  assumes inv_start: "start s \<Longrightarrow> inv s"
    and inv_step: "inv s \<Longrightarrow> step s t \<Longrightarrow> inv t"
begin

lemma reach_inv: "reach start step s \<Longrightarrow> inv s"
  by (induction rule: reach.induct) (auto intro: inv_start inv_step)

lemma rtranclp_inv: "step\<^sup>*\<^sup>* s t \<Longrightarrow> inv s \<Longrightarrow> inv t"
  by (induction rule: rtranclp_induct) (auto intro: inv_step)

end

end
