(* ===== verification/Go_Binary.thy ===== *)
theory Go_Binary
  imports Ccb_Prelude
begin

text \<open>
  The parts of Go's \<open>encoding/binary\<close> and \<open>hash/crc32\<close> the wire format uses.

  \<open>put_be n v\<close> is what \<open>binary.BigEndian.PutUint16/32/64\<close> stores in an \<open>n\<close>-byte slice, and
  \<open>get_be\<close> what \<open>binary.BigEndian.Uint16/32/64\<close> reads from one. The CRC is CRC-32C as
  \<open>crc32.Update\<close> computes it with the table of \<open>crc32.MakeTable (crc32.Castagnoli)\<close>;
  \<open>crc_reference\<close> is the shift register that defines the checksum, one bit at a time.
\<close>

section \<open>Big-endian integers\<close>

definition put_be :: "nat \<Rightarrow> 'a::len word \<Rightarrow> byte list" where
  "put_be n v = map (\<lambda>i. ucast (drop_bit (8 * i) v)) (rev [0..<n])"

definition get_be :: "byte list \<Rightarrow> 'a::len word" where
  "get_be b = foldl (\<lambda>acc x. push_bit 8 acc OR ucast x) 0 b"

lemma length_put_be [simp]: "length (put_be n v) = n"
  by (simp add: put_be_def)

lemma nth_rev_put_be: "i < n \<Longrightarrow> rev (put_be n v) ! i = ucast (drop_bit (8 * i) v)"
  by (simp add: put_be_def flip: rev_map)

lemma bit_get_be:
  "bit (get_be b :: 'a::len word) n \<longleftrightarrow>
     n < LENGTH('a) \<and> n < 8 * length b \<and> bit (rev b ! (n div 8)) (n mod 8)"
proof (induction b arbitrary: n rule: rev_induct)
  case Nil
  then show ?case by (simp add: get_be_def)
next
  case (snoc x xs)
  have eq: "(get_be (xs @ [x]) :: 'a word) = push_bit 8 (get_be xs) OR ucast x"
    by (simp add: get_be_def)
  show ?case
  proof (cases "n < 8")
    case True
    then show ?thesis by (auto simp: eq bit_simps)
  next
    case False
    then have d: "n div 8 = Suc ((n - 8) div 8)" "n mod 8 = (n - 8) mod 8"
      by (simp_all add: div_if [of n] mod_if [of n])
    have "\<not> bit x n" using False by (auto dest: bit_imp_le_length)
    then show ?thesis using False by (auto simp: eq bit_simps snoc d)
  qed
qed

lemma get_put_be:
  assumes "LENGTH('a) \<le> 8 * n"
  shows "get_be (put_be n v) = (v :: 'a::len word)"
proof (rule bit_word_eqI)
  fix i assume i: "i < LENGTH('a)"
  with assms have "i div 8 < n" by (simp add: div_less_iff_less_mult)
  then show "bit (get_be (put_be n v) :: 'a word) i = bit v i" using assms i
    by (simp add: bit_get_be nth_rev_put_be bit_simps)
qed

lemma put_get_be:
  assumes l: "length b = n" "8 * n \<le> LENGTH('a)"
  shows "put_be n (get_be b :: 'a::len word) = b"
proof -
  have "rev (put_be n (get_be b :: 'a word)) = rev b"
  proof (rule nth_equalityI)
    show "length (rev (put_be n (get_be b :: 'a word))) = length (rev b)" using l by simp
  next
    fix i assume "i < length (rev (put_be n (get_be b :: 'a word)))"
    then have i: "i < n" by simp
    show "rev (put_be n (get_be b :: 'a word)) ! i = rev b ! i"
    proof (rule bit_word_eqI)
      fix j assume j: "j < LENGTH(8)"
      then have "8 * i + j < 8 * n" using i by simp
      then show "bit (rev (put_be n (get_be b :: 'a word)) ! i) j = bit (rev b ! i) j"
        using i j l by (simp add: nth_rev_put_be bit_simps bit_get_be)
    qed
  qed
  then show ?thesis by simp
qed

lemma get_put_be16 [simp]: "get_be (put_be 2 v) = (v :: uint16)"
  by (rule get_put_be) simp

lemma get_put_be32 [simp]: "get_be (put_be 4 v) = (v :: uint32)"
  by (rule get_put_be) simp

lemma get_put_be64 [simp]: "get_be (put_be 8 v) = (v :: uint64)"
  by (rule get_put_be) simp

lemma put_get_be16 [simp]: "length b = 2 \<Longrightarrow> put_be 2 (get_be b :: uint16) = b"
  by (rule put_get_be) simp_all

lemma put_get_be32 [simp]: "length b = 4 \<Longrightarrow> put_be 4 (get_be b :: uint32) = b"
  by (rule put_get_be) simp_all

lemma put_get_be64 [simp]: "length b = 8 \<Longrightarrow> put_be 8 (get_be b :: uint64) = b"
  by (rule put_get_be) simp_all

section \<open>CRC-32C\<close>

text \<open>The reversed Castagnoli polynomial and one step of the shift register.\<close>

definition castagnoli :: uint32 where
  "castagnoli = 0x82F63B78"

definition crc_bit :: "uint32 \<Rightarrow> uint32" where
  "crc_bit c = (if bit c 0 then drop_bit 1 c XOR castagnoli else drop_bit 1 c)"

text \<open>\<open>simpleMakeTable\<close> and \<open>simpleUpdate\<close> of \<open>hash/crc32\<close>.\<close>

definition crc_table :: "byte \<Rightarrow> uint32" where
  "crc_table i = (crc_bit ^^ 8) (ucast i)"

definition crc_step :: "uint32 \<Rightarrow> byte \<Rightarrow> uint32" where
  "crc_step c b = crc_table (ucast c XOR b) XOR drop_bit 8 c"

definition crc_update :: "uint32 \<Rightarrow> byte list \<Rightarrow> uint32" where
  "crc_update c bs = NOT (foldl crc_step (NOT c) bs)"

text \<open>The defining shift register: feed the byte, then shift eight times.\<close>

definition crc_reference :: "byte list \<Rightarrow> uint32" where
  "crc_reference bs = NOT (foldl (\<lambda>c b. (crc_bit ^^ 8) (c XOR ucast b)) (NOT 0) bs)"

lemma crc_bit_xor: "crc_bit (a XOR b) = crc_bit a XOR crc_bit b"
  by (rule bit_word_eqI) (auto simp: crc_bit_def bit_simps)

lemma crc_bits_xor: "(crc_bit ^^ n) (a XOR b) = (crc_bit ^^ n) a XOR (crc_bit ^^ n) b"
  by (induction n) (simp_all add: crc_bit_xor)

lemma crc_bit_zero: "crc_bit a = 0 \<Longrightarrow> a = 0"
proof -
  assume z: "crc_bit a = 0"
  have nb: "\<not> bit a 0"
  proof
    assume b: "bit a 0"
    then have "bit (crc_bit a) 31 = (bit a 32 \<noteq> bit castagnoli 31)"
      by (simp add: crc_bit_def bit_simps)
    moreover have "bit castagnoli 31" by (simp add: castagnoli_def)
    moreover have "\<not> bit a 32" by (auto dest: bit_imp_le_length)
    ultimately show False using z by simp
  qed
  show "a = 0"
  proof (rule bit_word_eqI)
    fix n assume "n < LENGTH(32)"
    show "bit a n = bit 0 n"
    proof (cases n)
      case 0 then show ?thesis using nb by simp
    next
      case (Suc m)
      have "bit (drop_bit 1 a) m = False" using z nb by (simp add: crc_bit_def)
      then show ?thesis using Suc by (simp add: bit_simps)
    qed
  qed
qed

lemma xor_eq_0_word: "a XOR b = 0 \<longleftrightarrow> a = (b :: 'a::len word)"
proof
  assume z: "a XOR b = 0"
  show "a = b"
  proof (rule bit_word_eqI)
    fix n assume "n < LENGTH('a)"
    have "\<not> bit (a XOR b) n" by (simp add: z)
    then show "bit a n = bit b n" by (simp add: bit_simps)
  qed
qed simp

lemma crc_bit_inj: "crc_bit a = crc_bit b \<longleftrightarrow> a = b"
proof
  assume "crc_bit a = crc_bit b"
  then have "crc_bit (a XOR b) = 0" by (simp add: crc_bit_xor)
  then show "a = b" using crc_bit_zero xor_eq_0_word by blast
qed simp

lemma crc_bits_inj: "(crc_bit ^^ n) a = (crc_bit ^^ n) b \<longleftrightarrow> a = b"
  by (induction n) (simp_all add: crc_bit_inj)

lemma crc_bits_shift:
  "take_bit n a = 0 \<Longrightarrow> (crc_bit ^^ n) a = drop_bit n a"
proof (induction n arbitrary: a)
  case (Suc n)
  from Suc.prems have "\<not> bit a 0"
    by (metis bit_0_eq bit_take_bit_iff bot_apply bot_bool_def zero_less_Suc)
  then have s: "crc_bit a = drop_bit 1 a" by (simp add: crc_bit_def)
  have "take_bit n (drop_bit 1 a) = 0"
    using Suc.prems by (simp add: take_bit_drop_bit)
  with Suc.IH have "(crc_bit ^^ n) (drop_bit 1 a) = drop_bit n (drop_bit 1 a)" .
  then show ?case by (simp add: funpow_Suc_right s del: funpow.simps)
qed simp

lemma drop_push_drop: "drop_bit n (push_bit n (drop_bit n c)) = drop_bit n (c :: 'a::len word)"
proof (rule bit_word_eqI)
  fix i
  show "bit (drop_bit n (push_bit n (drop_bit n c))) i = bit (drop_bit n c) i"
    using bit_imp_le_length [of c "n + i"] by (auto simp: bit_simps)
qed

text \<open>The table-driven step is eight steps of the register.\<close>

lemma crc_step_eq: "crc_step c b = (crc_bit ^^ 8) (c XOR ucast b)"
proof -
  define lo :: uint32 where "lo = ucast (ucast c XOR b :: byte)"
  define hi :: uint32 where "hi = push_bit 8 (drop_bit 8 c)"
  have split: "c XOR ucast b = lo XOR hi"
    by (rule bit_word_eqI) (auto simp: lo_def hi_def bit_simps dest: bit_imp_le_length)
  have "(crc_bit ^^ 8) hi = drop_bit 8 hi"
    by (rule crc_bits_shift) (simp add: hi_def take_bit_push_bit)
  also have "\<dots> = drop_bit 8 c"
    unfolding hi_def by (rule drop_push_drop)
  finally show ?thesis
    by (simp add: crc_step_def crc_table_def split crc_bits_xor flip: lo_def)
qed

lemma word_xor_cancel:
  fixes a b c :: "'a::len word"
  shows "a XOR c = b XOR c \<longleftrightarrow> a = b" "c XOR a = c XOR b \<longleftrightarrow> a = b"
proof -
  show r: "a XOR c = b XOR c \<longleftrightarrow> a = b"
  proof
    assume e: "a XOR c = b XOR c"
    show "a = b"
    proof (rule bit_word_eqI)
      fix n assume "n < LENGTH('a)"
      have "bit (a XOR c) n = bit (b XOR c) n" by (simp add: e)
      then show "bit a n = bit b n" by (auto simp: bit_simps)
    qed
  qed simp
  then show "c XOR a = c XOR b \<longleftrightarrow> a = b" by (simp add: ac_simps)
qed

lemma crc_step_inj_state: "crc_step a x = crc_step b x \<Longrightarrow> a = b"
  by (simp add: crc_step_eq crc_bits_inj word_xor_cancel)

lemma crc_step_inj_byte: "crc_step c x = crc_step c y \<Longrightarrow> x = y"
proof -
  assume "crc_step c x = crc_step c y"
  then have "(ucast x :: uint32) = ucast y"
    by (simp add: crc_step_eq crc_bits_inj word_xor_cancel)
  then have "\<And>n. n < 32 \<Longrightarrow> bit (ucast x :: uint32) n = bit (ucast y :: uint32) n" by simp
  then show "x = y" by (intro bit_word_eqI) (auto simp: bit_simps)
qed

lemma crc_update_append: "crc_update (crc_update c xs) ys = crc_update c (xs @ ys)"
  by (simp add: crc_update_def)

text \<open>Two inputs of equal length that differ in one byte have different checksums.\<close>

lemma crc_update_one_byte:
  "x \<noteq> y \<Longrightarrow> crc_update c (u @ x # v) \<noteq> crc_update c (u @ y # v)"
  by (auto simp: crc_update_def dest!: foldl_inj [of crc_step, rotated] crc_step_inj_byte
      intro: crc_step_inj_state)

lemma crc_update_reference: "crc_update 0 bs = crc_reference bs"
  by (simp add: crc_update_def crc_reference_def crc_step_eq [abs_def])

text \<open>Evaluation of the checksum on literals.\<close>

lemma crc_bit_literal:
  "crc_bit (numeral n) =
     (if bit (numeral n :: uint32) 0 then drop_bit 1 (numeral n) XOR castagnoli
      else drop_bit 1 (numeral n))"
  "crc_bit 0 = 0" "crc_bit 1 = castagnoli"
  by (simp_all add: crc_bit_def)

lemma crc_table_unfold:
  "crc_table i = crc_bit (crc_bit (crc_bit (crc_bit (crc_bit (crc_bit (crc_bit (crc_bit (ucast i))))))))"
  by (simp add: crc_table_def numeral_eq_Suc)

lemma crc_update_start: "crc_update 0 bs = NOT (foldl crc_step 0xFFFFFFFF bs)"
proof -
  have "NOT 0 = (0xFFFFFFFF :: uint32)" by simp
  then show ?thesis by (simp only: crc_update_def)
qed

lemmas crc_eval = crc_update_start crc_step_def crc_table_unfold crc_bit_literal castagnoli_def

end
