(* ===== verification/Fstun_Frame.thy ===== *)
theory Fstun_Frame
  imports Go_Binary
begin

text \<open>
  The wire format of the filesystem carrier (\<open>transport/fstun/frame.go\<close> and
  \<open>transport/fstun/params.go\<close>): frame types, the encoder \<open>appendTo\<close>, the decoder
  \<open>decodeFrame\<close> with its two errors, and the payloads of SYN, ACK and ROLL frames.

  The lemmas show that the format is self-delimiting (an encoded frame decodes to itself in
  front of any bytes), that every proper prefix of a frame is reported as incomplete and never
  as a frame or as corruption (the torn tail of a partially visible append), that a decoded
  frame is the encoding of what was returned, and that a frame with one damaged byte outside
  its length field is reported as corrupt.
\<close>

section \<open>Frames\<close>

type_synonym frameType = byte

definition frameSYN :: frameType where "frameSYN = 1"
definition frameDATA :: frameType where "frameDATA = 2"
definition frameACK :: frameType where "frameACK = 3"
definition frameHeartbeat :: frameType where "frameHeartbeat = 4"
definition frameFIN :: frameType where "frameFIN = 5"
definition frameError :: frameType where "frameError = 6"
definition frameROLL :: frameType where "frameROLL = 7"

lemmas frame_types =
  frameSYN_def frameDATA_def frameACK_def frameHeartbeat_def frameFIN_def frameError_def
  frameROLL_def

definition headerLen :: nat where "headerLen = 22"
definition crcLen :: nat where "crcLen = 4"
definition maxPayload :: nat where "maxPayload = 2 ^ 20"

datatype frame_error = ErrIncompleteFrame | ErrCorruptFrame

record frame =
  frame_typ :: frameType
  frame_flags :: byte
  frame_seq :: uint64
  frame_dataOff :: uint64
  frame_payload :: "byte list"

definition frame_header :: "frame \<Rightarrow> byte list" where
  "frame_header f =
     [frame_typ f, frame_flags f] @ put_be 8 (frame_seq f) @ put_be 8 (frame_dataOff f)
       @ put_be 4 (word_of_nat (length (frame_payload f)) :: uint32)"

definition appendTo :: "frame \<Rightarrow> byte list \<Rightarrow> byte list" where
  "appendTo f dst =
     (let hdr = frame_header f;
          crc = crc_update (crc_update 0 hdr) (frame_payload f)
      in dst @ hdr @ frame_payload f @ put_be 4 crc)"

text \<open>\<open>sub buf i j\<close> is the slice expression \<open>buf[i:j]\<close>; every use below is in range.\<close>

definition sub :: "'a list \<Rightarrow> nat \<Rightarrow> nat \<Rightarrow> 'a list" where
  "sub buf i j = take (j - i) (drop i buf)"

definition decodeFrame :: "byte list \<Rightarrow> frame_error + frame \<times> nat" where
  "decodeFrame buf =
     (if length buf < headerLen then Inl ErrIncompleteFrame
      else let len = unat (get_be (sub buf 18 22) :: uint32)
      in if len > maxPayload then Inl ErrCorruptFrame
      else let total = headerLen + len + crcLen
      in if length buf < total then Inl ErrIncompleteFrame
      else let payload = sub buf headerLen (headerLen + len);
               want = (get_be (sub buf (headerLen + len) total) :: uint32);
               crc = crc_update (crc_update 0 (sub buf 0 headerLen)) payload
      in if crc \<noteq> want then Inl ErrCorruptFrame
      else Inr (\<lparr> frame_typ = buf ! 0, frame_flags = buf ! 1,
                  frame_seq = get_be (sub buf 2 10), frame_dataOff = get_be (sub buf 10 18),
                  frame_payload = payload \<rparr>, total))"

section \<open>Layout of an encoded frame\<close>

abbreviation encode :: "frame \<Rightarrow> byte list" where
  "encode f \<equiv> appendTo f []"

abbreviation encode_all :: "frame list \<Rightarrow> byte list" where
  "encode_all fs \<equiv> concat (map encode fs)"

text \<open>The frames a writer may emit: their payload does not exceed the protocol's maximum.\<close>

definition frame_ok :: "frame \<Rightarrow> bool" where
  "frame_ok f \<longleftrightarrow> length (frame_payload f) \<le> maxPayload"

lemma length_frame_header [simp]: "length (frame_header f) = 22"
  by (simp add: frame_header_def)

lemma appendTo_append: "appendTo f dst = dst @ encode f"
  by (simp add: appendTo_def Let_def)

lemma encode_split:
  "encode f = frame_header f @ frame_payload f
     @ put_be 4 (crc_update 0 (frame_header f @ frame_payload f))"
  by (simp add: appendTo_def Let_def crc_update_append)

lemma length_encode [wire_simps]: "length (encode f) = 26 + length (frame_payload f)"
  by (simp add: encode_split)

lemma encode_not_Nil [simp]: "encode f \<noteq> []"
  using length_encode [of f] by auto

lemma header_length_field:
  "drop 18 (frame_header f) = put_be 4 (word_of_nat (length (frame_payload f)) :: uint32)"
  by (simp add: frame_header_def)

lemma sub_append_left: "j \<le> length xs \<Longrightarrow> sub (xs @ ys) i j = sub xs i j"
  by (simp add: sub_def)

lemma frame_ok_length:
  "frame_ok f \<Longrightarrow> unat (word_of_nat (length (frame_payload f)) :: uint32) = length (frame_payload f)"
  by (simp add: frame_ok_def maxPayload_def unat_of_nat)

lemma header_length_decodes:
  "frame_ok f \<Longrightarrow> unat (get_be (sub (frame_header f @ r) 18 22) :: uint32) = length (frame_payload f)"
  by (simp add: sub_def header_length_field frame_ok_length)

lemma header_fields:
  "(frame_header f @ r) ! 0 = frame_typ f" "(frame_header f @ r) ! Suc 0 = frame_flags f"
  "get_be (sub (frame_header f @ r) 2 10) = frame_seq f"
  "get_be (sub (frame_header f @ r) 10 18) = frame_dataOff f"
  by (simp_all add: frame_header_def sub_def)

section \<open>Round trips\<close>

lemma decode_encode:
  assumes "frame_ok f"
  shows "decodeFrame (encode f @ rest) = Inr (f, length (encode f))"
proof -
  let ?p = "frame_payload f" and ?h = "frame_header f"
  let ?c = "put_be 4 (crc_update 0 (?h @ ?p))"
  have e: "encode f @ rest = ?h @ (?p @ ?c @ rest)" by (simp add: encode_split)
  have len: "unat (get_be (sub (encode f @ rest) 18 22) :: uint32) = length ?p"
    using assms by (simp add: e header_length_decodes)
  have pay: "sub (encode f @ rest) 22 (22 + length ?p) = ?p" by (simp add: e sub_def)
  have crc: "sub (encode f @ rest) (22 + length ?p) (26 + length ?p) = ?c"
    by (simp add: e sub_def)
  have hdr: "sub (encode f @ rest) 0 22 = ?h" by (simp add: e sub_def)
  have max: "length ?p \<le> maxPayload" using assms by (simp add: frame_ok_def)
  show ?thesis
    using max unfolding decodeFrame_def headerLen_def crcLen_def Let_def len
    by (simp add: pay crc hdr crc_update_append length_encode)
      (simp add: e header_fields)
qed

lemma decode_torn:
  assumes "frame_ok f" "strict_prefix buf (encode f)"
  shows "decodeFrame buf = Inl ErrIncompleteFrame"
proof (cases "length buf < 22")
  case True
  then show ?thesis by (simp add: decodeFrame_def headerLen_def)
next
  case False
  from assms(2) obtain r where r: "encode f = buf @ r" "r \<noteq> []"
    by (auto elim: strict_prefixE')
  have short: "length buf < 26 + length (frame_payload f)"
    using arg_cong [OF r(1), of length] r(2) by (simp add: length_encode)
  have "sub buf 18 22 = sub (encode f) 18 22"
    using False by (simp add: r(1) sub_append_left)
  also have "unat (get_be \<dots> :: uint32) = length (frame_payload f)"
    using assms(1) by (simp add: encode_split header_length_decodes)
  finally show ?thesis
    using False short assms(1)
    by (simp add: decodeFrame_def headerLen_def crcLen_def frame_ok_def Let_def)
qed

text \<open>What the decoder sees at the front of any visible prefix of a sequence of frames.\<close>

lemma decode_prefix_cases:
  assumes "prefix buf (encode_all fs)" "list_all frame_ok fs"
  obtains (none) "decodeFrame buf = Inl ErrIncompleteFrame"
  | (some) f fs' buf' where "fs = f # fs'" "buf = encode f @ buf'"
      "decodeFrame buf = Inr (f, length (encode f))" "prefix buf' (encode_all fs')"
proof (cases fs)
  case Nil
  then have "decodeFrame buf = Inl ErrIncompleteFrame"
    using assms(1) by (simp add: decodeFrame_def headerLen_def)
  then show thesis by (rule none)
next
  case (Cons f fs')
  then have ok: "frame_ok f" and pre: "prefix buf (encode f @ encode_all fs')"
    using assms by auto
  show thesis
  proof (cases "length (encode f) \<le> length buf")
    case True
    then obtain b where "buf = encode f @ b" "prefix b (encode_all fs')"
      using prefix_append_cases [OF pre] by blast
    then show thesis using Cons ok by (intro some) (auto simp: decode_encode)
  next
    case False
    then have "strict_prefix buf (encode f)"
      using prefix_append_short [OF pre] by simp
    then show thesis using ok by (intro none decode_torn)
  qed
qed

lemma decode_sound:
  assumes "decodeFrame buf = Inr (f, n)"
  shows "frame_ok f" "n = length (encode f)" "buf = encode f @ drop n buf"
proof -
  define len where "len = unat (get_be (sub buf 18 22) :: uint32)"
  have lb: "\<not> length buf < 22" "len \<le> maxPayload" "\<not> length buf < 26 + len" "n = 26 + len"
    and pay: "frame_payload f = sub buf 22 (22 + len)"
    and crc: "crc_update (crc_update 0 (sub buf 0 22)) (sub buf 22 (22 + len))
       = get_be (sub buf (22 + len) (26 + len))"
    and fld: "frame_typ f = buf ! 0" "frame_flags f = buf ! 1"
      "frame_seq f = get_be (sub buf 2 10)" "frame_dataOff f = get_be (sub buf 10 18)"
    using assms
    by (auto simp: decodeFrame_def headerLen_def crcLen_def Let_def len_def ac_simps
        split: if_splits)
  have lp: "length (frame_payload f) = len" using lb by (simp add: pay sub_def)
  show ok: "frame_ok f" using lp lb by (simp add: frame_ok_def)
  show n: "n = length (encode f)" using lp lb by (simp add: length_encode)
  have wl: "put_be 4 (word_of_nat len :: uint32) = sub buf 18 22"
    using lb by (simp add: len_def sub_def)
  have hd2: "take 2 buf = [buf ! 0, buf ! 1]"
    using lb by (cases buf; cases "tl buf") (auto simp: numeral_2_eq_2)
  have t22: "take 22 buf = take 2 buf @ take 8 (drop 2 buf) @ take 8 (drop 10 buf) @ take 4 (drop 18 buf)"
    using take_add [of 2 20 buf] take_add [of 8 12 "drop 2 buf"] take_add [of 8 4 "drop 10 buf"]
    by simp
  have hdr: "frame_header f = take 22 buf"
    unfolding t22 hd2 using lb fld by (simp add: frame_header_def lp wl) (simp add: sub_def)
  have "encode f = take 22 buf @ sub buf 22 (22 + len) @ sub buf (22 + len) (26 + len)"
    using lb crc hdr pay
    by (simp add: encode_split crc_update_append [symmetric])
      (simp add: sub_def)
  also have "\<dots> = take n buf"
    using lb take_add [of 22 "len + 4" buf] take_add [of len 4 "drop 22 buf"]
    by (simp add: sub_def ac_simps)
  finally show "buf = encode f @ drop n buf" by simp
qed

section \<open>Damaged frames\<close>

lemma list_update_split:
  "i < length xs \<Longrightarrow> xs[i := y] = take i xs @ y # drop (Suc i) xs"
  by (rule upd_conv_take_nth_drop)

lemma sub_append: "j \<le> length xs \<Longrightarrow> sub (xs @ ys) i j = sub xs i j"
  by (simp add: sub_def)

lemma decode_corrupt_more: "decodeFrame b = Inl ErrCorruptFrame \<Longrightarrow> decodeFrame (b @ rest) = Inl ErrCorruptFrame"
  by (auto simp: decodeFrame_def Let_def sub_append headerLen_def crcLen_def split: if_splits)

lemma decode_damaged:
  assumes ok: "frame_ok f" and i: "i < length (encode f)" "\<not> (18 \<le> i \<and> i < 22)"
    and y: "y \<noteq> encode f ! i"
  shows "decodeFrame ((encode f)[i := y]) = Inl ErrCorruptFrame"
proof -
  let ?p = "frame_payload f" and ?h = "frame_header f" and ?n = "length (frame_payload f)"
  let ?b = "(encode f)[i := y]" and ?c = "crc_update 0 (frame_header f @ frame_payload f)"
  have L: "length ?b = 26 + ?n" by (simp add: length_encode)
  have sl: "sub ?b 18 22 = sub (encode f) 18 22"
    using i by (auto simp: sub_def drop_update_swap take_update_cancel list_update_beyond
        not_less list_update_append)
  have len: "unat (get_be (sub ?b 18 22) :: uint32) = ?n"
    unfolding sl using ok by (simp add: encode_split header_length_decodes)
  have crcs: "crc_update (crc_update 0 (sub ?b 0 22)) (sub ?b 22 (22 + ?n))
      \<noteq> get_be (sub ?b (22 + ?n) (26 + ?n))"
  proof (cases "i < 22 + ?n")
    case True
    have hp: "take (22 + ?n) (encode f) = ?h @ ?p" by (simp add: encode_split)
    have "take (22 + ?n) ?b = (?h @ ?p)[i := y]" by (simp add: take_update_swap hp)
    moreover have "crc_update 0 ((?h @ ?p)[i := y]) \<noteq> ?c"
    proof -
      have ih: "i < length (?h @ ?p)" using True by simp
      have yi: "y \<noteq> (?h @ ?p) ! i"
        using y True by (simp add: hp [symmetric])
      have "?h @ ?p = take i (?h @ ?p) @ (?h @ ?p) ! i # drop (Suc i) (?h @ ?p)"
        by (rule id_take_nth_drop [OF ih])
      then show ?thesis using yi ih
        by (metis crc_update_one_byte list_update_split)
    qed
    moreover have "sub ?b (22 + ?n) (26 + ?n) = put_be 4 ?c"
      using True by (simp add: sub_def drop_update_cancel) (simp add: encode_split)
    ultimately show ?thesis
      by (simp add: crc_update_append sub_def flip: take_add)
  next
    case False
    have "take (22 + ?n) ?b = ?h @ ?p" using False by (simp add: encode_split)
    then have "crc_update (crc_update 0 (sub ?b 0 22)) (sub ?b 22 (22 + ?n)) = ?c"
      by (simp add: crc_update_append sub_def flip: take_add)
    moreover have "get_be (sub ?b (22 + ?n) (26 + ?n)) \<noteq> ?c"
    proof
      let ?t = "sub ?b (22 + ?n) (26 + ?n)"
      have t: "?t = (put_be 4 ?c)[i - (22 + ?n) := y]"
        using False i by (simp add: sub_def drop_update_swap) (simp add: encode_split)
      assume "get_be ?t = ?c"
      then have "put_be 4 (get_be ?t :: uint32) = put_be 4 ?c" by simp
      then have "?t = put_be 4 ?c" by (simp add: t)
      moreover have "i - (22 + ?n) < length (put_be 4 ?c)"
        using False i by (simp add: length_encode)
      ultimately have "y = put_be 4 ?c ! (i - (22 + ?n))"
        unfolding t by (metis nth_list_update_eq)
      moreover have "encode f ! i = put_be 4 ?c ! (i - (22 + ?n))"
        using False nth_append_length_plus [of "?h @ ?p" "put_be 4 ?c" "i - (22 + ?n)"]
        by (simp add: encode_split)
      ultimately show False using y by simp
    qed
    ultimately show ?thesis by simp
  qed
  show ?thesis
    using L len ok crcs
    by (simp add: decodeFrame_def headerLen_def crcLen_def frame_ok_def Let_def ac_simps)
qed

section \<open>Properties\<close>

text \<open>
  C38. A frame whose payload is within the protocol's limit is decoded from the front of a buffer
  exactly as it was encoded, whatever follows it, and the decoder reports its exact length.
\<close>

theorem frame_roundtrip:
  "frame_ok f \<Longrightarrow> decodeFrame (appendTo f [] @ rest) = Inr (f, length (appendTo f []))"
  by (rule decode_encode)

theorem frame_roundtrip_witness:
  "decodeFrame (appendTo \<lparr> frame_typ = frameDATA, frame_flags = 0, frame_seq = 7, frame_dataOff = 512,
       frame_payload = [1, 2, 3] \<rparr> [] @ [9]) =
     Inr (\<lparr> frame_typ = frameDATA, frame_flags = 0, frame_seq = 7, frame_dataOff = 512,
       frame_payload = [1, 2, 3] \<rparr>, 29)"
  by (subst frame_roundtrip) (simp_all add: frame_ok_def maxPayload_def length_encode)

text \<open>
  A torn tail (a proper prefix of an encoded frame) is reported as incomplete, never as corrupt
  and never as a frame, so the reader waits for the rest.
\<close>

theorem frame_torn_tail:
  "frame_ok f \<Longrightarrow> n < length (appendTo f []) \<Longrightarrow>
   decodeFrame (take n (appendTo f [])) = Inl ErrIncompleteFrame"
  by (rule decode_torn) (auto simp: strict_prefix_def take_is_prefix take_all_iff)

theorem frame_torn_tail_witness:
  "decodeFrame (take 28 (appendTo \<lparr> frame_typ = frameDATA, frame_flags = 0, frame_seq = 7,
     frame_dataOff = 512, frame_payload = [1, 2, 3] \<rparr> [])) = Inl ErrIncompleteFrame"
  by (rule frame_torn_tail) (simp_all add: frame_ok_def maxPayload_def length_encode)

text \<open>
  Whatever the decoder accepts is a frame within the payload limit, and the bytes it consumed
  are exactly that frame's encoding: no two byte strings decode to the same frame.
\<close>

theorem frame_decode_sound:
  "decodeFrame buf = Inr (f, n) \<Longrightarrow>
   frame_ok f \<and> n = length (appendTo f []) \<and> buf = appendTo f [] @ drop n buf"
  using decode_sound by blast

theorem frame_decode_sound_witness:
  "\<exists>buf f n. decodeFrame buf = Inr (f, n) \<and> frame_payload f = [5] \<and> frame_ok f \<and>
     n = length (appendTo f []) \<and> buf = appendTo f [] @ drop n buf"
proof -
  let ?f = "\<lparr> frame_typ = frameACK, frame_flags = 0, frame_seq = 1, frame_dataOff = 0, frame_payload = [5] \<rparr>"
  have "decodeFrame (encode ?f @ [0]) = Inr (?f, length (encode ?f))"
    by (rule decode_encode) (simp add: frame_ok_def maxPayload_def)
  from this frame_decode_sound [OF this] show ?thesis
    by (intro exI [of _ "encode ?f @ [0]"] exI [of _ ?f] exI [of _ "length (encode ?f)"] conjI) simp_all
qed

text \<open>
  C31. A fully present frame in which any one byte outside the length field has been changed is
  never taken for a frame, whatever follows it: the checksum covers the header, the payload and
  itself, and the frame is rejected as corrupt, as the comment on \<open>errCorruptFrame\<close> and the test of
  \<open>decodeFrame\<close> say. This holds where a later frame follows, which is what the design document calls
  corruption, and also where nothing follows, in which case that document would have the reader wait.
\<close>

theorem frame_damage_detected:
  "frame_ok f \<Longrightarrow> i < length (appendTo f []) \<Longrightarrow> \<not> (18 \<le> i \<and> i < 22) \<Longrightarrow> y \<noteq> appendTo f [] ! i \<Longrightarrow>
   decodeFrame ((appendTo f [])[i := y] @ rest) = Inl ErrCorruptFrame"
  by (rule decode_corrupt_more) (rule decode_damaged)

theorem frame_damage_detected_witness:
  "decodeFrame ((appendTo \<lparr> frame_typ = frameDATA, frame_flags = 0, frame_seq = 7,
     frame_dataOff = 512, frame_payload = [1, 2, 3] \<rparr> [])[23 := 6] @
     appendTo \<lparr> frame_typ = frameFIN, frame_flags = 0, frame_seq = 8, frame_dataOff = 515, frame_payload = [] \<rparr> []) =
   Inl ErrCorruptFrame"
  by (rule frame_damage_detected)
    (simp_all add: frame_ok_def maxPayload_def length_encode, simp add: encode_split nth_append)

end
