(* ===== verification/Fstun_Config.thy ===== *)
theory Fstun_Config
  imports Fstun_Frame
begin

text \<open>
  Frame payloads and endpoint parameters of the filesystem carrier
  (\<open>transport/fstun/params.go\<close> and \<open>transport/fstun/config.go\<close>): the integer payloads of ACK,
  HEARTBEAT and ROLL frames, the SYN payload, and \<open>Config.resolve\<close>, which applies the
  defaults. Durations are integers counting nanoseconds. The lemmas show that the payloads
  round-trip and that resolved parameters satisfy the bounds the connection relies on.
\<close>

section \<open>Integer payloads\<close>

definition encodeUint32 :: "uint32 \<Rightarrow> byte list" where
  "encodeUint32 v = put_be 4 v"

definition decodeUint32 :: "byte list \<Rightarrow> uint32 option" where
  "decodeUint32 b = (if length b \<noteq> 4 then None else Some (get_be b))"

definition encodeUint64 :: "uint64 \<Rightarrow> byte list" where
  "encodeUint64 v = put_be 8 v"

definition decodeUint64 :: "byte list \<Rightarrow> uint64 option" where
  "decodeUint64 b = (if length b \<noteq> 8 then None else Some (get_be b))"

lemma decode_encodeUint32 [simp]: "decodeUint32 (encodeUint32 v) = Some v"
  by (simp add: decodeUint32_def encodeUint32_def)

lemma decode_encodeUint64 [simp]: "decodeUint64 (encodeUint64 v) = Some v"
  by (simp add: decodeUint64_def encodeUint64_def)

lemma encode_decodeUint64: "decodeUint64 b = Some v \<Longrightarrow> encodeUint64 v = b"
  by (auto simp: decodeUint64_def encodeUint64_def split: if_splits)

lemma encode_decodeUint32: "decodeUint32 b = Some v \<Longrightarrow> encodeUint32 v = b"
  by (auto simp: decodeUint32_def encodeUint32_def split: if_splits)

lemma length_encodeUint [simp]: "length (encodeUint32 v) = 4" "length (encodeUint64 w) = 8"
  by (simp_all add: encodeUint32_def encodeUint64_def)

section \<open>The SYN payload\<close>

definition protocolVersion :: uint16 where "protocolVersion = 1"

record synParams =
  syn_version :: uint16
  syn_segmentSize :: uint64
  syn_window :: uint64
  syn_maxFrame :: uint32

definition syn_encode :: "synParams \<Rightarrow> byte list" where
  "syn_encode p = put_be 2 (syn_version p) @ put_be 8 (syn_segmentSize p)
     @ put_be 8 (syn_window p) @ put_be 4 (syn_maxFrame p)"

definition decodeSynParams :: "byte list \<Rightarrow> synParams option" where
  "decodeSynParams b =
     (if length b \<noteq> 22 then None
      else Some \<lparr> syn_version = get_be (sub b 0 2), syn_segmentSize = get_be (sub b 2 10),
                  syn_window = get_be (sub b 10 18), syn_maxFrame = get_be (sub b 18 22) \<rparr>)"

lemma length_syn_encode [simp]: "length (syn_encode p) = 22"
  by (simp add: syn_encode_def)

lemma decode_syn_encode [simp]: "decodeSynParams (syn_encode p) = Some p"
  by (simp add: decodeSynParams_def) (simp add: syn_encode_def sub_def)

lemma syn_encode_decode: "decodeSynParams b = Some p \<Longrightarrow> syn_encode p = b"
proof -
  assume d: "decodeSynParams b = Some p"
  then have l: "length b = 22" by (simp add: decodeSynParams_def split: if_splits)
  have "b = take 2 b @ take 8 (drop 2 b) @ take 8 (drop 10 b) @ take 4 (drop 18 b)"
    using l take_add [of 2 20 b] take_add [of 8 12 "drop 2 b"] take_add [of 8 4 "drop 10 b"]
    by simp
  then show ?thesis using d l
    by (auto simp: decodeSynParams_def syn_encode_def sub_def)
qed

section \<open>Configuration\<close>


record fs_config =
  cfg_Root :: string
  cfg_SegmentSize :: int
  cfg_Window :: int
  cfg_MaxFrame :: int
  cfg_PollInterval :: int
  cfg_PollMax :: int
  cfg_FlushInterval :: int
  cfg_NetworkFS :: "bool option"
  cfg_Heartbeat :: int
  cfg_IdleTimeout :: int
  cfg_HandshakeTimeout :: int
  cfg_Sync :: bool
  cfg_AgeSweepInterval :: int
  cfg_AgeSweepThreshold :: int

record resolvedConfig =
  rc_pollInterval :: int
  rc_pollMax :: int
  rc_flushInterval :: int
  rc_netFS :: bool
  rc_heartbeat :: int
  rc_idleTimeout :: int
  rc_handshakeTimeout :: int
  rc_segmentSize :: int
  rc_sync :: bool
  rc_ageSweepInterval :: int
  rc_ageSweepThreshold :: int

definition dflt :: "int \<Rightarrow> int \<Rightarrow> int" where
  "dflt d v = (if d \<le> 0 then v else d)"

text \<open>
  \<open>Config.resolve\<close>; \<open>None\<close> is the error for a missing root. \<open>detect\<close> is
  \<open>detectNetworkFS\<close>, which asks the operating system for the filesystem's type.
\<close>

definition resolve :: "(string \<Rightarrow> bool) \<Rightarrow> fs_config \<Rightarrow> (resolvedConfig \<times> synParams) option" where
  "resolve detect cfg =
     (if cfg_Root cfg = [] then None
      else
        let seg = (if cfg_SegmentSize cfg \<le> 0 then 128 * 2 ^ 20 else cfg_SegmentSize cfg);
            win = (if cfg_Window cfg \<le> 0 then 8 * 2 ^ 20 else cfg_Window cfg);
            mf0 = (if cfg_MaxFrame cfg \<le> 0 then 256 * 2 ^ 10 else cfg_MaxFrame cfg);
            mf = (if mf0 > int maxPayload then int maxPayload else mf0);
            ageInt = (if cfg_AgeSweepInterval cfg = 0 then 10 * minute
                      else if cfg_AgeSweepInterval cfg < 0 then 0
                      else cfg_AgeSweepInterval cfg);
            netFS = (case cfg_NetworkFS cfg of None \<Rightarrow> detect (cfg_Root cfg) | Some b \<Rightarrow> b);
            pollInterval = dflt (cfg_PollInterval cfg) (10 * millisecond);
            pollMax = dflt (cfg_PollMax cfg) (320 * millisecond);
            rc = \<lparr> rc_pollInterval = pollInterval,
                   rc_pollMax = (if pollMax < pollInterval then pollInterval else pollMax),
                   rc_flushInterval = dflt (cfg_FlushInterval cfg) (5 * millisecond),
                   rc_netFS = netFS,
                   rc_heartbeat = dflt (cfg_Heartbeat cfg) (5 * second),
                   rc_idleTimeout = dflt (cfg_IdleTimeout cfg) (60 * second),
                   rc_handshakeTimeout = dflt (cfg_HandshakeTimeout cfg) (30 * second),
                   rc_segmentSize = seg,
                   rc_sync = cfg_Sync cfg,
                   rc_ageSweepInterval = ageInt,
                   rc_ageSweepThreshold = dflt (cfg_AgeSweepThreshold cfg) (15 * minute) \<rparr>;
            params = \<lparr> syn_version = protocolVersion, syn_segmentSize = word_of_int seg,
                       syn_window = word_of_int win, syn_maxFrame = word_of_int mf \<rparr>
        in Some (rc, params))"

lemma unat_word_of_int_small:
  "0 \<le> k \<Longrightarrow> k < 2 ^ LENGTH('a) \<Longrightarrow> unat (word_of_int k :: 'a::len word) = nat k"
  by (simp add: unsigned_of_int take_bit_int_eq_self)

lemma resolve_fields:
  assumes "resolve detect cfg = Some (rc, p)"
  shows "rc_pollInterval rc = dflt (cfg_PollInterval cfg) (10 * millisecond)"
    "rc_pollMax rc = max (rc_pollInterval rc) (dflt (cfg_PollMax cfg) (320 * millisecond))"
    "rc_segmentSize rc = dflt (cfg_SegmentSize cfg) (128 * 2 ^ 20)"
    "syn_window p = word_of_int (dflt (cfg_Window cfg) (8 * 2 ^ 20))"
    "syn_maxFrame p = word_of_int (min (int maxPayload) (dflt (cfg_MaxFrame cfg) (256 * 2 ^ 10)))"
    "syn_version p = protocolVersion"
proof -
  have m: "max a b = (if b < a then a else b)" "min a b = (if b > a then a else b)" for a b :: int
    by simp_all
  have "cfg_Root cfg \<noteq> []" using assms by (auto simp: resolve_def)
  note eq = assms [unfolded resolve_def Let_def if_not_P [OF this] option.inject prod.inject]
  show "rc_pollInterval rc = dflt (cfg_PollInterval cfg) (10 * millisecond)"
    "rc_pollMax rc = max (rc_pollInterval rc) (dflt (cfg_PollMax cfg) (320 * millisecond))"
    "rc_segmentSize rc = dflt (cfg_SegmentSize cfg) (128 * 2 ^ 20)"
    using eq [THEN conjunct1, symmetric] by (simp_all add: m dflt_def del: if_split)
  show "syn_window p = word_of_int (dflt (cfg_Window cfg) (8 * 2 ^ 20))"
    "syn_maxFrame p = word_of_int (min (int maxPayload) (dflt (cfg_MaxFrame cfg) (256 * 2 ^ 10)))"
    "syn_version p = protocolVersion"
    using eq [THEN conjunct2, symmetric] by (simp_all add: m dflt_def del: if_split)
qed

text \<open>
  What the runtime relies on: positive intervals, a poll ceiling above its base, a positive
  window and a frame size the peer's decoder accepts.
\<close>

lemma resolve_bounds:
  assumes "resolve detect cfg = Some (rc, p)"
  shows "0 < rc_pollInterval rc" "rc_pollInterval rc \<le> rc_pollMax rc"
    "0 < rc_segmentSize rc" "0 < syn_maxFrame p" "unat (syn_maxFrame p) \<le> maxPayload"
    "syn_version p = protocolVersion"
proof -
  note f = resolve_fields [OF assms]
  let ?mf = "min (int maxPayload) (dflt (cfg_MaxFrame cfg) (256 * 2 ^ 10))"
  have mf: "0 < ?mf" "?mf \<le> int maxPayload" by (simp_all add: maxPayload_def dflt_def)
  have u: "unat (syn_maxFrame p) = nat ?mf"
    unfolding f using mf by (intro unat_word_of_int_small) (simp_all add: maxPayload_def)
  show "unat (syn_maxFrame p) \<le> maxPayload" using u mf by simp
  show "0 < syn_maxFrame p" using u mf by (simp add: word_less_nat_alt)
  show "0 < rc_pollInterval rc" "rc_pollInterval rc \<le> rc_pollMax rc" "0 < rc_segmentSize rc"
    "syn_version p = protocolVersion"
    unfolding f by (simp_all add: dflt_def)
qed

lemma resolve_window:
  assumes "resolve detect cfg = Some (rc, p)" "cfg_Window cfg < 2 ^ 63"
  shows "0 < sint (syn_window p)"
  unfolding resolve_fields [OF assms(1)] using assms(2)
  by (simp add: dflt_def signed_of_int signed_take_bit_int_eq_self)

lemma resolve_total: "cfg_Root cfg \<noteq> [] \<Longrightarrow> \<exists>rc p. resolve detect cfg = Some (rc, p)"
  by (simp add: resolve_def Let_def del: if_split)

section \<open>Properties\<close>

text \<open>
  The SYN payload determines the handshake parameters and is determined by them: decoding an
  encoded payload gives the parameters back, and every payload that decodes is an encoding.
\<close>

theorem syn_payload_exact: "decodeSynParams b = Some p \<longleftrightarrow> b = syn_encode p"
  using syn_encode_decode by auto

text \<open>
  Whatever the configuration, a resolved endpoint polls with a positive interval that never
  exceeds its ceiling, rolls segments at a positive size, and announces a frame size that is
  positive and that every decoder accepts.
\<close>

theorem resolve_safe:
  "resolve detect cfg = Some (rc, p) \<Longrightarrow>
   0 < rc_pollInterval rc \<and> rc_pollInterval rc \<le> rc_pollMax rc \<and> 0 < rc_segmentSize rc \<and>
   0 < syn_maxFrame p \<and> unat (syn_maxFrame p) \<le> maxPayload"
  using resolve_bounds by blast

definition example_config :: fs_config where
  "example_config = \<lparr> cfg_Root = ''/shared'', cfg_SegmentSize = 0, cfg_Window = 0,
     cfg_MaxFrame = 2 ^ 21, cfg_PollInterval = second, cfg_PollMax = millisecond,
     cfg_FlushInterval = 0, cfg_NetworkFS = None, cfg_Heartbeat = 0, cfg_IdleTimeout = 0,
     cfg_HandshakeTimeout = 0, cfg_Sync = False, cfg_AgeSweepInterval = 0, cfg_AgeSweepThreshold = 0 \<rparr>"

theorem resolve_safe_witness:
  "\<exists>rc p. resolve (\<lambda>_. True) example_config = Some (rc, p) \<and> rc_pollMax rc = second \<and>
     rc_pollInterval rc \<le> rc_pollMax rc \<and> unat (syn_maxFrame p) \<le> maxPayload"
proof -
  have "cfg_Root example_config \<noteq> []" by (simp add: example_config_def)
  then obtain rc p where r: "resolve (\<lambda>_. True) example_config = Some (rc, p)"
    using resolve_total by blast
  from resolve_safe [OF this] r show ?thesis
    using resolve_fields(1,2) [OF r] by (auto simp: example_config_def dflt_def)
qed

end
