(* ===== verification/Go_Strings.thy ===== *)
theory Go_Strings
  imports Ccb_Prelude "HOL-Library.Char_ord"
begin

text \<open>
  The parts of Go's \<open>strings\<close>, \<open>strconv\<close> and \<open>fmt\<close> packages the sources use, on ASCII
  strings: Go's versions of \<open>TrimSpace\<close>, \<open>Fields\<close>, \<open>EqualFold\<close> and \<open>ToLower\<close> also know the
  white space and case pairs of other Unicode blocks, which addresses, contact strings,
  routes and configuration keys do not contain.
\<close>

section \<open>Decimal numbers\<close>

definition digit :: "nat \<Rightarrow> char" where
  "digit d = char_of (48 + d)"

definition digit_val :: "char \<Rightarrow> nat option" where
  "digit_val c = (let n = (of_char c :: nat) in if 48 \<le> n \<and> n \<le> 57 then Some (n - 48) else None)"

text \<open>\<open>strconv.FormatUint (n, 10)\<close> and \<open>fmt.Sprintf ("%d", n)\<close>.\<close>

fun formatUint :: "nat \<Rightarrow> string" where
  "formatUint n = (if n < 10 then [digit n] else formatUint (n div 10) @ [digit (n mod 10)])"

declare formatUint.simps [simp del]

text \<open>\<open>strconv.ParseUint (s, 10, 64)\<close>: \<open>None\<close> is its syntax or range error.\<close>

fun parseUint_loop :: "string \<Rightarrow> nat \<Rightarrow> nat option" where
  "parseUint_loop [] n = Some n"
| "parseUint_loop (c # cs) n =
     (case digit_val c of
        None \<Rightarrow> None
      | Some d \<Rightarrow> (let m = n * 10 + d in if 2 ^ 64 \<le> m then None else parseUint_loop cs m))"

definition parseUint :: "string \<Rightarrow> uint64 option" where
  "parseUint s = (if s = [] then None else map_option word_of_nat (parseUint_loop s 0))"

lemma parseUint_loop_code [code]:
  "parseUint_loop [] n = Some n"
  "parseUint_loop (c # cs) n =
     (case digit_val c of
        None \<Rightarrow> None
      | Some d \<Rightarrow> (let m = n * 10 + d in if 2 ^ 64 \<le> int m then None else parseUint_loop cs m))"
proof -
  have le: "(2 ^ 64 \<le> int m) = (2 ^ 64 \<le> m)" for m
    by (metis of_nat_le_iff of_nat_numeral of_nat_power)
  show "parseUint_loop [] n = Some n"
    "parseUint_loop (c # cs) n =
       (case digit_val c of
          None \<Rightarrow> None
        | Some d \<Rightarrow> (let m = n * 10 + d in if 2 ^ 64 \<le> int m then None else parseUint_loop cs m))"
    by (simp_all only: parseUint_loop.simps le)
qed

lemma digit_val_digit [simp]: "d < 10 \<Longrightarrow> digit_val (digit d) = Some d"
  by (simp add: digit_def digit_val_def Let_def)

lemma digit_val_less: "digit_val c = Some d \<Longrightarrow> d < 10"
  by (auto simp: digit_val_def Let_def split: if_splits)

lemma formatUint_not_Nil [simp]: "formatUint n \<noteq> []"
  by (subst formatUint.simps) simp

lemma formatUint_digits: "c \<in> set (formatUint n) \<Longrightarrow> digit_val c \<noteq> None"
proof (induction n rule: formatUint.induct)
  case (1 n)
  then show ?case
    by (cases "n < 10") (auto simp: formatUint.simps [of n])
qed

lemma parseUint_loop_append:
  "parseUint_loop (xs @ ys) n = Option.bind (parseUint_loop xs n) (parseUint_loop ys)"
  by (induction xs n rule: parseUint_loop.induct) (auto split: option.splits simp: Let_def)

lemma parseUint_loop_format: "n < 2 ^ 64 \<Longrightarrow> parseUint_loop (formatUint n) 0 = Some n"
proof (induction n rule: formatUint.induct)
  case (1 n)
  show ?case
  proof (cases "n < 10")
    case True
    then show ?thesis by (simp add: formatUint.simps [of n])
  next
    case False
    then have "n div 10 < 2 ^ 64" using "1.prems" by simp
    with "1.IH" [OF False] have "parseUint_loop (formatUint (n div 10)) 0 = Some (n div 10)" .
    moreover have "\<not> 2 ^ 64 \<le> n div 10 * 10 + n mod 10"
      using "1.prems" by (simp only: div_mult_mod_eq not_le)
    ultimately show ?thesis using False
      by (simp add: formatUint.simps [of n] parseUint_loop_append Let_def)
  qed
qed

text \<open>Printing and parsing an unsigned 64-bit number are inverse.\<close>

lemma parseUint_format [simp]: "parseUint (formatUint (unat v)) = Some v"
  using parseUint_loop_format [of "unat v"] unsigned_less [of v, where ?'a = nat]
  by (simp add: parseUint_def)

lemma parseUint_loop_bound: "parseUint_loop s n = Some m \<Longrightarrow> n < 2 ^ 64 \<Longrightarrow> m < 2 ^ 64"
  by (induction s n rule: parseUint_loop.induct)
    (auto split: option.splits if_splits simp: Let_def)

lemma parseUint_digits:
  "parseUint s = Some v \<Longrightarrow> s \<noteq> [] \<and> (\<forall>c \<in> set s. digit_val c \<noteq> None)"
proof -
  have "parseUint_loop s n = Some m \<Longrightarrow> \<forall>c \<in> set s. digit_val c \<noteq> None" for n m
    by (induction s n rule: parseUint_loop.induct)
      (auto split: option.splits if_splits simp: Let_def)
  then show "parseUint s = Some v \<Longrightarrow> ?thesis"
    by (auto simp: parseUint_def split: if_splits)
qed

text \<open>The value of a digit string, used to show that printing is injective under padding.\<close>

definition dec_value :: "string \<Rightarrow> nat" where
  "dec_value s = foldl (\<lambda>a c. a * 10 + (case digit_val c of Some d \<Rightarrow> d | None \<Rightarrow> 0)) 0 s"

lemma dec_value_format [simp]: "dec_value (formatUint n) = n"
proof (induction n rule: formatUint.induct)
  case (1 n)
  then show ?case
    by (cases "n < 10") (simp_all add: formatUint.simps [of n] dec_value_def)
qed

lemma dec_value_pad: "dec_value (replicate k (CHR ''0'') @ s) = dec_value s"
proof -
  have z: "digit_val (CHR ''0'') = Some 0" by (simp add: digit_val_def Let_def)
  have "foldl (\<lambda>a c. a * 10 + (case digit_val c of Some d \<Rightarrow> d | None \<Rightarrow> 0)) 0 (replicate k (CHR ''0'')) = 0"
    by (induction k) (simp_all add: z)
  then show ?thesis by (simp add: dec_value_def)
qed

text \<open>\<open>fmt.Sprintf ("%06d", n)\<close>.\<close>

definition pad6 :: "nat \<Rightarrow> string" where
  "pad6 n = (let d = formatUint n in replicate (6 - length d) (CHR ''0'') @ d)"

lemma pad6_inj [simp]: "pad6 m = pad6 n \<longleftrightarrow> m = n"
  by (metis dec_value_format dec_value_pad pad6_def)

section \<open>The strings package\<close>

definition isSpace :: "char \<Rightarrow> bool" where
  "isSpace c = (c \<in> {CHR 0x09, CHR 0x0A, CHR 0x0B, CHR 0x0C, CHR 0x0D, CHR '' ''})"

definition trimWith :: "(char \<Rightarrow> bool) \<Rightarrow> string \<Rightarrow> string" where
  "trimWith P s = rev (dropWhile P (rev (dropWhile P s)))"

definition trimSpace :: "string \<Rightarrow> string" where
  "trimSpace = trimWith isSpace"

definition trim :: "string \<Rightarrow> string \<Rightarrow> string" where
  "trim s cutset = trimWith (\<lambda>c. c \<in> set cutset) s"

definition hasPrefix :: "string \<Rightarrow> string \<Rightarrow> bool" where
  "hasPrefix s p = (take (length p) s = p)"

definition cutPrefix :: "string \<Rightarrow> string \<Rightarrow> string option" where
  "cutPrefix s p = (if hasPrefix s p then Some (drop (length p) s) else None)"

definition containsAny :: "string \<Rightarrow> string \<Rightarrow> bool" where
  "containsAny s chars = list_ex (\<lambda>c. c \<in> set chars) s"

definition lower :: "char \<Rightarrow> char" where
  "lower c = (let n = (of_char c :: nat) in if 65 \<le> n \<and> n \<le> 90 then char_of (n + 32) else c)"

definition toLower :: "string \<Rightarrow> string" where
  "toLower = map lower"

definition equalFold :: "string \<Rightarrow> string \<Rightarrow> bool" where
  "equalFold s t = (toLower s = toLower t)"

definition hex_digit :: "nat \<Rightarrow> char" where
  "hex_digit d = (if d < 10 then char_of (48 + d) else char_of (87 + d))"

text \<open>\<open>strconv.Quote\<close>, the verb \<open>%q\<close> of \<open>fmt.Sprintf\<close>.\<close>

definition quoteChar :: "char \<Rightarrow> string" where
  "quoteChar c =
     (let n = (of_char c :: nat)
      in if c = CHR 0x22 \<or> c = CHR 0x5C then [CHR 0x5C, c]
         else if 32 \<le> n \<and> n < 127 then [c]
         else case map_of (zip [7, 8, 9, 10, 11, 12, 13] ''abtnvfr'') n of
                Some e \<Rightarrow> [CHR 0x5C, e]
              | None \<Rightarrow> [CHR 0x5C, CHR ''x'', hex_digit (n div 16), hex_digit (n mod 16)])"

definition quote :: "string \<Rightarrow> string" where
  "quote s = [CHR 0x22] @ concat (map quoteChar s) @ [CHR 0x22]"

text \<open>\<open>strings.Fields\<close> splits around runs of white space, \<open>strings.Join\<close> glues with a separator.\<close>

function fields :: "string \<Rightarrow> string list" where
  "fields s =
     (let s' = dropWhile isSpace s
      in if s' = [] then []
         else takeWhile (\<lambda>c. \<not> isSpace c) s' # fields (dropWhile (\<lambda>c. \<not> isSpace c) s'))"
  by pat_completeness auto
termination
proof (relation "measure length", goal_cases)
  case (2 s s')
  then have ne: "dropWhile isSpace s \<noteq> []" by simp
  then obtain c cs where c: "s' = c # cs" using 2 by (metis neq_Nil_conv)
  then have "\<not> isSpace c"
    using 2 hd_dropWhile [OF ne] by simp
  then have "length (dropWhile (\<lambda>c. \<not> isSpace c) s') \<le> length cs"
    using c by (simp add: length_dropWhile_le)
  moreover have "length s' \<le> length s" using 2 by (simp add: length_dropWhile_le)
  ultimately show ?case using c by simp
qed simp

declare fields.simps [simp del]

fun join :: "string list \<Rightarrow> string \<Rightarrow> string" where
  "join [] sep = []"
| "join [s] sep = s"
| "join (s # t # ts) sep = s @ sep @ join (t # ts) sep"

definition word_string :: "string \<Rightarrow> bool" where
  "word_string s \<longleftrightarrow> s \<noteq> [] \<and> list_all (\<lambda>c. \<not> isSpace c) s"

lemma fields_words: "list_all word_string (fields s)"
proof (induction s rule: fields.induct)
  case (1 s)
  define s' where "s' = dropWhile isSpace s"
  show ?case
  proof (cases "s' = []")
    case True
    then show ?thesis by (simp add: fields.simps [of s] s'_def)
  next
    case False
    then have "\<not> isSpace (hd s')" unfolding s'_def by (rule hd_dropWhile)
    with False have "word_string (takeWhile (\<lambda>c. \<not> isSpace c) s')"
      by (cases s') (auto simp: word_string_def list_all_iff dest: set_takeWhileD)
    then show ?thesis using "1.IH" [OF s'_def False] False
      by (simp add: fields.simps [of s] s'_def [symmetric])
  qed
qed

lemma takeWhile_word: "list_all P s \<Longrightarrow> \<not> P c \<Longrightarrow>
    takeWhile P (s @ c # r) = s \<and> dropWhile P (s @ c # r) = c # r"
  by (induction s) auto

lemma fields_word_space:
  assumes "word_string s" "isSpace c"
  shows "fields (s @ c # r) = s # fields r"
proof -
  obtain a as where a: "s = a # as" "\<not> isSpace a"
    using assms(1) by (cases s) (auto simp: word_string_def)
  have d: "dropWhile isSpace (s @ c # r) = s @ c # r" using a by simp
  have tw: "takeWhile (\<lambda>c. \<not> isSpace c) (s @ c # r) = s"
    "dropWhile (\<lambda>c. \<not> isSpace c) (s @ c # r) = c # r"
    using takeWhile_word [of "\<lambda>c. \<not> isSpace c" s c r] assms by (auto simp: word_string_def)
  have "fields (c # r) = fields r"
    using assms(2) by (simp add: fields.simps [of "c # r"] fields.simps [of r])
  then show ?thesis
    unfolding fields.simps [of "s @ c # r"] d Let_def tw by simp
qed

lemma fields_word: "word_string s \<Longrightarrow> fields s = [s]"
proof -
  assume w: "word_string s"
  then obtain a as where a: "s = a # as" "\<not> isSpace a"
    by (cases s) (auto simp: word_string_def)
  have tw: "takeWhile (\<lambda>c. \<not> isSpace c) s = s" "dropWhile (\<lambda>c. \<not> isSpace c) s = []"
    using w by (auto simp: word_string_def list_all_iff takeWhile_eq_all_conv dropWhile_eq_Nil_conv)
  have d: "dropWhile isSpace s = s" using a by simp
  have "fields [] = []" by (simp add: fields.simps)
  moreover have "s \<noteq> []" using a by simp
  ultimately show ?thesis unfolding fields.simps [of s] d Let_def tw by simp
qed

text \<open>Splitting a route that was joined with blanks gives the hops back.\<close>

lemma fields_join: "list_all word_string ws \<Longrightarrow> fields (join ws '' '') = ws"
proof (induction ws "'' ''" rule: join.induct)
  case 1
  then show ?case by (simp add: fields.simps)
next
  case (2 s)
  then show ?case by (simp add: fields_word)
next
  case (3 s t ts)
  have "isSpace (CHR '' '')" by (simp add: isSpace_def)
  with 3 show ?case using fields_word_space [of s "CHR '' ''" "join (t # ts) '' ''"] by simp
qed

lemma equalFold_refl [simp]: "equalFold s s"
  by (simp add: equalFold_def)

lemma equalFold_sym: "equalFold s t \<Longrightarrow> equalFold t s"
  by (simp add: equalFold_def)

lemma formatUint_word: "word_string (formatUint n)"
proof -
  have "digit_val c \<noteq> None \<Longrightarrow> \<not> isSpace c" for c
    by (auto simp: digit_val_def isSpace_def Let_def split: if_splits)
  then show ?thesis
    using formatUint_digits [of _ n] by (auto simp: word_string_def list_all_iff)
qed

lemma trimWith_id: "\<not> P (hd s) \<Longrightarrow> \<not> P (last s) \<Longrightarrow> s \<noteq> [] \<Longrightarrow> trimWith P s = s"
proof -
  assume a: "\<not> P (hd s)" "\<not> P (last s)" "s \<noteq> []"
  then have "dropWhile P s = s" by (cases s) auto
  moreover have "dropWhile P (rev s) = rev s"
    using a by (cases s rule: rev_cases) auto
  ultimately show ?thesis by (simp add: trimWith_def)
qed

lemma trimSpace_word: "word_string s \<Longrightarrow> trimSpace s = s"
  unfolding trimSpace_def
  by (rule trimWith_id) (auto simp: word_string_def list_all_iff)

lemma trimWith_ends:
  assumes "trimWith P s \<noteq> []"
  shows "\<not> P (hd (trimWith P s)) \<and> \<not> P (last (trimWith P s))"
proof -
  define t where "t = dropWhile P s"
  have ne: "dropWhile P (rev t) \<noteq> []" using assms by (simp add: trimWith_def t_def)
  have l: "\<not> P (last (trimWith P s))"
    using hd_dropWhile [OF ne] ne by (simp add: trimWith_def t_def last_rev)
  have "t \<noteq> []" using ne by auto
  then have ht: "\<not> P (hd t)" unfolding t_def by (rule hd_dropWhile)
  obtain u where u: "rev t = u @ dropWhile P (rev t)"
    by (metis takeWhile_dropWhile_id)
  then have "t = rev (dropWhile P (rev t)) @ rev u" by (metis rev_append rev_rev_ident)
  then have "hd t = hd (rev (dropWhile P (rev t)))" using ne by (metis hd_append2 rev_is_Nil_conv)
  then show ?thesis using l ht by (simp add: trimWith_def t_def)
qed

end
