(* ===== verification/Fstun_Seglog.thy ===== *)
theory Fstun_Seglog
  imports Fstun_Config Go_Strings
begin

text \<open>
  The segment log of the filesystem carrier (\<open>transport/fstun/seglog.go\<close>): the writer, which
  appends frames to a sequence of segment files, rolls to a new one when a frame would not
  fit, and unlinks segments the peer has acknowledged; and the reader, which follows the
  segments in order.

  A direction directory is an explicit store: names map to inodes and inodes to contents, so
  that an open file survives the removal of its name as it does under POSIX. For every file the
  store records how many bytes an fsync has forced to the backing store. What the operating
  system decides (a failing or short write, a failing open, how much of a file a reader on
  another host can see) is an argument of the operation.
\<close>

section \<open>Directories and files\<close>

record fsdir =
  ents :: "string \<rightharpoonup> nat"
  blocks :: "nat \<Rightarrow> byte list"
  synced :: "nat \<Rightarrow> nat"
  nextIno :: nat

definition empty_dir :: fsdir where
  "empty_dir = \<lparr> ents = Map.empty, blocks = (\<lambda>_. []), synced = (\<lambda>_. 0), nextIno = 0 \<rparr>"

text \<open>\<open>os.OpenFile\<close> with \<open>O_CREATE | O_WRONLY | O_APPEND\<close>.\<close>

definition fs_create :: "string \<Rightarrow> fsdir \<Rightarrow> nat \<times> fsdir" where
  "fs_create name fs =
     (case ents fs name of
        Some i \<Rightarrow> (i, fs)
      | None \<Rightarrow> (let i = nextIno fs
                in (i, fs\<lparr> ents := (ents fs)(name \<mapsto> i), blocks := (blocks fs)(i := []),
                          synced := (synced fs)(i := 0), nextIno := Suc i \<rparr>)))"

text \<open>A write either appends all the bytes or fails after some number of them.\<close>

datatype write_result = WOk | WErr nat

definition fs_write :: "nat \<Rightarrow> byte list \<Rightarrow> write_result \<Rightarrow> fsdir \<Rightarrow> fsdir" where
  "fs_write i data r fs =
     fs\<lparr> blocks := (blocks fs)(i := blocks fs i @
            (case r of WOk \<Rightarrow> data | WErr n \<Rightarrow> take n data)) \<rparr>"

definition fs_sync :: "nat \<Rightarrow> fsdir \<Rightarrow> fsdir" where
  "fs_sync i fs = fs\<lparr> synced := (synced fs)(i := length (blocks fs i)) \<rparr>"

definition fs_remove :: "string \<Rightarrow> fsdir \<Rightarrow> fsdir" where
  "fs_remove name fs = fs\<lparr> ents := (ents fs)(name := None) \<rparr>"

section \<open>The segment writer\<close>

definition segName :: "uint32 \<Rightarrow> string" where
  "segName i = pad6 (unat i) @ ''.seg''"

lemma segName_inj [simp]: "segName i = segName j \<longleftrightarrow> i = j"
  by (simp add: segName_def word_unat_eq_iff)

datatype seg_error = SegClosed | SegIO

record segEnd =
  se_idx :: uint32
  se_dataEnd :: uint64

text \<open>
  \<open>sw_f\<close> is the open file of the current segment; \<open>None\<close> stands for a handle that is nil or
  closed, on which writing fails and syncing does nothing. \<open>sw_flushTimer\<close> records whether the
  flush timer is armed.
\<close>

record segWriter =
  sw_maxSeg :: int
  sw_syncEnb :: bool
  sw_netFS :: bool
  sw_cur :: uint32
  sw_f :: "nat option"
  sw_size :: int
  sw_closed :: bool
  sw_reapOff :: "segEnd list"
  sw_flushTimer :: bool

type_synonym wstate = "segWriter \<times> fsdir"

text \<open>\<open>openCur\<close>; the flag tells whether the operating system lets the file be opened.\<close>

definition openCur :: "bool \<Rightarrow> wstate \<Rightarrow> seg_error option \<times> wstate" where
  "openCur ok = (\<lambda>(w, fs).
     if \<not> ok then (Some SegIO, w, fs)
     else let (i, fs') = fs_create (segName (sw_cur w)) fs
          in (None, w\<lparr> sw_f := Some i, sw_size := 0 \<rparr>, fs'))"

text \<open>\<open>newSegWriter\<close>; the flags are the outcomes of \<open>MkdirAll\<close> and of opening segment 0.\<close>

definition newSegWriter :: "bool \<Rightarrow> bool \<Rightarrow> resolvedConfig \<Rightarrow> fsdir \<Rightarrow> seg_error + wstate" where
  "newSegWriter mkdir_ok open_ok rc fs =
     (if \<not> mkdir_ok then Inl SegIO
      else let w = \<lparr> sw_maxSeg = rc_segmentSize rc, sw_syncEnb = rc_sync rc,
                     sw_netFS = rc_netFS rc, sw_cur = 0, sw_f = None, sw_size = 0,
                     sw_closed = False, sw_reapOff = [], sw_flushTimer = False \<rparr>
           in case openCur open_ok (w, fs) of
                (Some e, _) \<Rightarrow> Inl e
              | (None, s) \<Rightarrow> Inr s)"

definition file_write :: "nat option \<Rightarrow> byte list \<Rightarrow> write_result \<Rightarrow> fsdir \<Rightarrow> bool \<times> fsdir" where
  "file_write f data r fs =
     (case f of None \<Rightarrow> (False, fs) | Some i \<Rightarrow> (r = WOk, fs_write i data r fs))"

definition file_sync :: "nat option \<Rightarrow> fsdir \<Rightarrow> fsdir" where
  "file_sync f fs = (case f of None \<Rightarrow> fs | Some i \<Rightarrow> fs_sync i fs)"

definition rollFrame :: "uint32 \<Rightarrow> frame" where
  "rollFrame nxt = \<lparr> frame_typ = frameROLL, frame_flags = 0, frame_seq = 0, frame_dataOff = 0,
                     frame_payload = encodeUint32 nxt \<rparr>"

record seg_io =
  io_roll :: write_result
  io_open :: bool
  io_write :: write_result

definition roll :: "seg_io \<Rightarrow> uint64 \<Rightarrow> wstate \<Rightarrow> seg_error option \<times> wstate" where
  "roll io dataEnd = (\<lambda>(w, fs).
     let nxt = sw_cur w + 1;
         (ok, fs1) = file_write (sw_f w) (appendTo (rollFrame nxt) []) (io_roll io) fs
     in if \<not> ok then (Some SegIO, w, fs1)
        else let fs2 = (if sw_netFS w \<or> sw_syncEnb w then file_sync (sw_f w) fs1 else fs1);
                 w2 = w\<lparr> sw_f := None,
                         sw_reapOff := sw_reapOff w @ [\<lparr> se_idx = sw_cur w, se_dataEnd = dataEnd \<rparr>],
                         sw_cur := nxt \<rparr>
             in openCur (io_open io) (w2, fs2))"

definition armFlushLocked :: "segWriter \<Rightarrow> segWriter" where
  "armFlushLocked w = w\<lparr> sw_flushTimer := True \<rparr>"

definition seg_append :: "seg_io \<Rightarrow> frame \<Rightarrow> uint64 \<Rightarrow> wstate \<Rightarrow> seg_error option \<times> wstate" where
  "seg_append io f dataEnd = (\<lambda>(w, fs).
     if sw_closed w then (Some SegClosed, w, fs)
     else
       let enc = appendTo f [];
           (e, w1, fs1) =
             (if 0 < sw_size w \<and> sw_size w + int (length enc) > sw_maxSeg w
              then roll io dataEnd (w, fs) else (None, w, fs))
       in case e of
            Some err \<Rightarrow> (Some err, w1, fs1)
          | None \<Rightarrow>
              let (ok, fs2) = file_write (sw_f w1) enc (io_write io) fs1
              in if \<not> ok then (Some SegIO, w1, fs2)
                 else let w2 = w1\<lparr> sw_size := sw_size w1 + int (length enc) \<rparr>
                      in if sw_netFS w2 then (None, armFlushLocked w2, fs2)
                         else if sw_syncEnb w2 then (None, w2, file_sync (sw_f w2) fs2)
                         else (None, w2, fs2))"

definition timedFlush :: "wstate \<Rightarrow> wstate" where
  "timedFlush = (\<lambda>(w, fs).
     let w' = w\<lparr> sw_flushTimer := False \<rparr>
     in if sw_closed w' then (w', fs) else (w', file_sync (sw_f w') fs))"

text \<open>\<open>reap\<close> unlinks every closed segment whose end the peer has acknowledged.\<close>

definition reap :: "uint64 \<Rightarrow> wstate \<Rightarrow> wstate" where
  "reap acked = (\<lambda>(w, fs).
     (w\<lparr> sw_reapOff := filter (\<lambda>s. \<not> se_dataEnd s \<le> acked) (sw_reapOff w) \<rparr>,
      fold (\<lambda>s. fs_remove (segName (se_idx s)))
        (filter (\<lambda>s. se_dataEnd s \<le> acked) (sw_reapOff w)) fs))"

text \<open>\<open>syncNow\<close>; after \<open>close\<close> the handle is closed and the sync has no effect.\<close>

definition syncNow :: "wstate \<Rightarrow> wstate" where
  "syncNow = (\<lambda>(w, fs).
     (w\<lparr> sw_flushTimer := False \<rparr>, if sw_closed w then fs else file_sync (sw_f w) fs))"

definition seg_close :: "wstate \<Rightarrow> wstate" where
  "seg_close = (\<lambda>(w, fs).
     if sw_closed w then (w, fs)
     else (w\<lparr> sw_closed := True, sw_flushTimer := False \<rparr>,
           (if sw_netFS w \<or> sw_syncEnb w then file_sync (sw_f w) fs else fs)))"

section \<open>The segment reader\<close>

datatype next_error = EIncomplete | ENotExist | ECorrupt | EBadRoll | EIO

record segReader =
  sr_netFS :: bool
  sr_cur :: uint32
  sr_f :: "nat option"
  sr_off :: nat
  sr_buf :: "byte list"

definition newSegReader :: "bool \<Rightarrow> segReader" where
  "newSegReader net = \<lparr> sr_netFS = net, sr_cur = 0, sr_f = None, sr_off = 0, sr_buf = [] \<rparr>"

text \<open>
  What the reader's host decides in one iteration: whether opening an existing name succeeds,
  whether the reopen of a network filesystem succeeds, whether \<open>Stat\<close> does, how many bytes of the
  file are visible, and how many bytes the read returns at most.
\<close>

record read_env =
  re_open :: bool
  re_reopen :: bool
  re_stat :: bool
  re_size :: nat
  re_read :: nat

definition openWait :: "read_env \<Rightarrow> string \<Rightarrow> fsdir \<Rightarrow> next_error + nat" where
  "openWait env name fs =
     (case ents fs name of
        None \<Rightarrow> Inl ENotExist
      | Some i \<Rightarrow> if re_open env then Inr i else Inl EIO)"

text \<open>The close-to-open revalidation of \<open>fill\<close> fails if the name is gone or cannot be opened.\<close>

definition reopen_fails :: "read_env \<Rightarrow> fsdir \<Rightarrow> segReader \<Rightarrow> bool" where
  "reopen_fails env fs r \<longleftrightarrow>
     sr_netFS r \<and> sr_f r \<noteq> None \<and> (ents fs (segName (sr_cur r)) = None \<or> \<not> re_reopen env)"

definition fill :: "read_env \<Rightarrow> fsdir \<Rightarrow> segReader \<Rightarrow> (next_error + bool) \<times> segReader" where
  "fill env fs r =
     (if reopen_fails env fs r then (Inr False, r\<lparr> sr_f := None \<rparr>)
      else let r1 = (if sr_netFS r \<and> sr_f r \<noteq> None
                     then r\<lparr> sr_f := ents fs (segName (sr_cur r)) \<rparr> else r)
           in case sr_f r1 of
                None \<Rightarrow> (Inl EIO, r1)
              | Some i \<Rightarrow>
                  if \<not> re_stat env then (Inl EIO, r1)
                  else let size = min (re_size env) (length (blocks fs i))
                       in if size \<le> sr_off r1 then (Inr False, r1)
                          else let toRead = size - sr_off r1;
                                   tmp = take (min (re_read env) toRead) (drop (sr_off r1) (blocks fs i))
                               in if tmp = [] then (Inr False, r1)
                                  else (Inr True, r1\<lparr> sr_buf := sr_buf r1 @ tmp,
                                                     sr_off := sr_off r1 + length tmp \<rparr>))"

definition advance :: "frame \<Rightarrow> segReader \<Rightarrow> next_error option \<times> segReader" where
  "advance rf r =
     (case decodeUint32 (frame_payload rf) of
        None \<Rightarrow> (Some EBadRoll, r)
      | Some nxt \<Rightarrow> (None, r\<lparr> sr_f := None, sr_cur := nxt, sr_buf := [] \<rparr>))"

datatype next_outcome = Again | Ret "next_error + frame"

text \<open>One iteration of the loop in \<open>next\<close>: open the segment if needed, then decode or read more.\<close>

definition next_decode :: "read_env \<Rightarrow> fsdir \<Rightarrow> segReader \<Rightarrow> next_outcome \<times> segReader" where
  "next_decode env fs r =
     (case decodeFrame (sr_buf r) of
        Inr (fr, n) \<Rightarrow>
          (let r2 = r\<lparr> sr_buf := drop n (sr_buf r) \<rparr>
           in if frame_typ fr = frameROLL
              then (case advance fr r2 of
                      (Some e, r3) \<Rightarrow> (Ret (Inl e), r3)
                    | (None, r3) \<Rightarrow> (Again, r3))
              else (Ret (Inr fr), r2))
      | Inl ErrCorruptFrame \<Rightarrow> (Ret (Inl ECorrupt), r)
      | Inl ErrIncompleteFrame \<Rightarrow>
          (case fill env fs r of
             (Inl e, r2) \<Rightarrow> (Ret (Inl e), r2)
           | (Inr False, r2) \<Rightarrow> (Ret (Inl EIncomplete), r2)
           | (Inr True, r2) \<Rightarrow> (Again, r2)))"

definition next_iter :: "read_env \<Rightarrow> fsdir \<Rightarrow> segReader \<Rightarrow> next_outcome \<times> segReader" where
  "next_iter env fs r =
     (case sr_f r of
        Some _ \<Rightarrow> next_decode env fs r
      | None \<Rightarrow>
          (case openWait env (segName (sr_cur r)) fs of
             Inl e \<Rightarrow> (Ret (Inl e), r)
           | Inr i \<Rightarrow> next_decode env fs (r\<lparr> sr_f := Some i, sr_off := 0 \<rparr>)))"

text \<open>The whole loop, with what the host shows the reader in each iteration; \<open>None\<close> is no return.\<close>

partial_function (option) seg_next ::
  "(nat \<Rightarrow> read_env) \<Rightarrow> (nat \<Rightarrow> fsdir) \<Rightarrow> nat \<Rightarrow> segReader \<Rightarrow> ((next_error + frame) \<times> segReader) option"
where
  "seg_next env fs t r =
     (case next_iter (env t) (fs t) r of
        (Ret x, r') \<Rightarrow> Some (x, r')
      | (Again, r') \<Rightarrow> seg_next env fs (Suc t) r')"

definition reader_close :: "segReader \<Rightarrow> segReader" where
  "reader_close r = r\<lparr> sr_f := None \<rparr>"

end
