(* ===== verification/Fstun_Pipe.thy ===== *)
theory Fstun_Pipe
  imports Fstun_Seglog
begin

text \<open>
  One direction of a filesystem pipe: a segment writer and a segment reader that share a
  directory, with the writer's appends, flushes and reaps interleaved with the iterations of
  the reader's loop. The ghost components \<open>p_sent\<close> and \<open>p_got\<close> are the frames appended without
  error and the frames \<open>next\<close> has returned.

  The invariant ties the bytes on disk to the appended frames and the reader's position to the
  frames returned, and gives the central safety property: the reader returns a prefix of what
  was written, in order, under every partial view of the files.
\<close>

section \<open>Invariants of the writer and of the reader\<close>

definition noroll :: "frame list \<Rightarrow> frame list" where
  "noroll fs = filter (\<lambda>f. frame_typ f \<noteq> frameROLL) fs"

lemma noroll_simps [simp]:
  "noroll [] = []" "noroll (xs @ ys) = noroll xs @ noroll ys"
  "frame_typ f \<noteq> frameROLL \<Longrightarrow> noroll [f] = [f]" "noroll [rollFrame n] = []"
  by (simp_all add: noroll_def rollFrame_def)

lemma noroll_noroll [simp]: "noroll (noroll xs) = noroll xs"
  by (simp add: noroll_def)

lemma noroll_id_iff: "noroll xs = xs \<longleftrightarrow> (\<forall>f \<in> set xs. frame_typ f \<noteq> frameROLL)"
  by (simp add: noroll_def filter_id_conv)

lemma frame_ok_rollFrame [simp]: "frame_ok (rollFrame n)"
  by (simp add: frame_ok_def rollFrame_def maxPayload_def)

text \<open>Segment \<open>i\<close> holds the frames \<open>segs ! i\<close> in the inode \<open>inos ! i\<close>; all but the current end in a ROLL.\<close>

definition seg_shape :: "nat \<Rightarrow> nat \<Rightarrow> frame list \<Rightarrow> bool" where
  "seg_shape cur i fs \<longleftrightarrow>
     list_all frame_ok fs \<and>
     (if i < cur then \<exists>b. fs = b @ [rollFrame (word_of_nat (Suc i))] \<and> noroll b = b
      else noroll fs = fs)"

definition writer_inv :: "frame list list \<Rightarrow> nat list \<Rightarrow> segWriter \<Rightarrow> fsdir \<Rightarrow> frame list \<Rightarrow> bool" where
  "writer_inv segs inos w fs sent \<longleftrightarrow>
     length inos = length segs \<and> unat (sw_cur w) \<le> length segs \<and>
     (case sw_f w of
        None \<Rightarrow> length segs = unat (sw_cur w)
      | Some i \<Rightarrow> length segs = Suc (unat (sw_cur w)) \<and> inos ! unat (sw_cur w) = i) \<and>
     (\<forall>i < length segs. blocks fs (inos ! i) = encode_all (segs ! i)) \<and>
     (\<forall>i < length segs. seg_shape (unat (sw_cur w)) i (segs ! i)) \<and>
     distinct inos \<and> (\<forall>i \<in> set inos. i < nextIno fs) \<and>
     (\<forall>j i. ents fs (segName j) = Some i \<longrightarrow> unat j < length segs \<and> inos ! unat j = i) \<and>
     sent = concat (map noroll segs)"

definition reader_inv :: "frame list list \<Rightarrow> nat list \<Rightarrow> nat \<Rightarrow> segReader \<Rightarrow> frame list \<Rightarrow> bool" where
  "reader_inv segs inos cur r got \<longleftrightarrow>
     (let c = unat (sr_cur r)
      in c \<le> cur \<and> cur \<le> length segs \<and>
         (case sr_f r of
            None \<Rightarrow> sr_buf r = [] \<and> got = concat (map noroll (take c segs))
          | Some i \<Rightarrow> c < length segs \<and> inos ! c = i \<and>
              sr_off r \<le> length (encode_all (segs ! c)) \<and>
              (\<exists>k. take (sr_off r) (encode_all (segs ! c)) = encode_all (take k (segs ! c)) @ sr_buf r \<and>
                   noroll (take k (segs ! c)) = take k (segs ! c) \<and>
                   got = concat (map noroll (take c segs)) @ take k (segs ! c))))"

lemma reader_inv_grow:
  assumes "reader_inv segs inos c r got" "c \<le> c'" "length segs \<le> length segs'" "c' \<le> length segs'"
    and "\<And>i. i < length segs \<Longrightarrow> prefix (segs ! i) (segs' ! i) \<and> inos' ! i = inos ! i"
    and "\<And>i. i < c \<Longrightarrow> segs' ! i = segs ! i"
  shows "reader_inv segs' inos' c' r got"
proof -
  let ?c = "unat (sr_cur r)"
  have c: "?c \<le> c" "c \<le> length segs" using assms(1) by (auto simp: reader_inv_def Let_def)
  have tk: "take ?c segs' = take ?c segs"
    using c assms(3,6) by (intro nth_equalityI) auto
  show ?thesis
  proof (cases "sr_f r")
    case None
    then show ?thesis using assms(1-4) c tk by (auto simp: reader_inv_def Let_def)
  next
    case (Some i)
    then obtain k where k: "?c < length segs" "inos ! ?c = i"
        "sr_off r \<le> length (encode_all (segs ! ?c))"
        "take (sr_off r) (encode_all (segs ! ?c)) = encode_all (take k (segs ! ?c)) @ sr_buf r"
        "noroll (take k (segs ! ?c)) = take k (segs ! ?c)"
        "got = concat (map noroll (take ?c segs)) @ take k (segs ! ?c)"
      using assms(1) by (auto simp: reader_inv_def Let_def)
    from assms(5) [OF k(1)] obtain t where t: "segs' ! ?c = segs ! ?c @ t" "inos' ! ?c = i"
      using k(2) by (auto simp: prefix_def)
    define k' where "k' = min k (length (segs ! ?c))"
    have k': "take k' (segs' ! ?c) = take k (segs ! ?c)" by (simp add: k'_def t min_def)
    have b: "take (sr_off r) (encode_all (segs' ! ?c)) = encode_all (take k' (segs' ! ?c)) @ sr_buf r"
      using k(3,4) by (simp add: k') (simp add: t)
    have l: "sr_off r \<le> length (encode_all (segs' ! ?c))" using k(3) by (simp add: t)
    have n: "noroll (take k' (segs' ! ?c)) = take k' (segs' ! ?c)"
      "got = concat (map noroll (take ?c segs')) @ take k' (segs' ! ?c)"
      unfolding k' tk by (rule k(5), rule k(6))
    show ?thesis unfolding reader_inv_def Let_def Some option.case
      using b l n k(1) t(2) c assms(2-4) by auto
  qed
qed

section \<open>The reader returns the next frame\<close>

text \<open>The view is stable when a revalidating reopen finds the segment again.\<close>

definition stable_view :: "read_env \<Rightarrow> fsdir \<Rightarrow> segReader \<Rightarrow> bool" where
  "stable_view env fs r \<longleftrightarrow>
     (sr_netFS r \<longrightarrow> re_reopen env \<and> (sr_f r \<noteq> None \<longrightarrow> ents fs (segName (sr_cur r)) \<noteq> None))"

definition deliver :: "frame list \<Rightarrow> next_outcome \<Rightarrow> frame list" where
  "deliver got out = (case out of Ret (Inr f) \<Rightarrow> got @ [f] | _ \<Rightarrow> got)"

definition benign :: "next_outcome \<Rightarrow> bool" where
  "benign out \<longleftrightarrow> out \<noteq> Ret (Inl ECorrupt) \<and> out \<noteq> Ret (Inl EBadRoll)"

lemma fill_inv:
  assumes W: "writer_inv segs inos w fs sent" and R: "reader_inv segs inos c r got"
    and f: "sr_f r = Some i" and ok: "\<not> reopen_fails env fs r"
    and eq: "fill env fs r = (x, r')"
  shows "reader_inv segs inos c r' got \<and> x \<noteq> Inl ECorrupt \<and> x \<noteq> Inl EBadRoll \<and> sr_f r' = sr_f r"
proof -
  let ?c = "unat (sr_cur r)" and ?B = "encode_all (segs ! unat (sr_cur r))"
  from R f obtain k where k: "?c \<le> c" "c \<le> length segs" "?c < length segs" "inos ! ?c = i"
      "sr_off r \<le> length ?B" "take (sr_off r) ?B = encode_all (take k (segs ! ?c)) @ sr_buf r"
      "noroll (take k (segs ! ?c)) = take k (segs ! ?c)"
      "got = concat (map noroll (take ?c segs)) @ take k (segs ! ?c)"
    by (auto simp: reader_inv_def Let_def)
  have B: "blocks fs i = ?B" using W k by (auto simp: writer_inv_def)
  have same: "(if sr_netFS r \<and> sr_f r \<noteq> None then r\<lparr> sr_f := ents fs (segName (sr_cur r)) \<rparr> else r) = r"
    using ok W k(4) f by (auto simp: reopen_fails_def writer_inv_def)
  define m where "m = min (re_read env) (min (re_size env) (length (blocks fs i)) - sr_off r)"
  define tmp where "tmp = take m (drop (sr_off r) ?B)"
  have "take (sr_off r + length tmp) ?B = take (sr_off r) ?B @ tmp"
    using k(5) by (simp add: tmp_def take_add min_def)
  then have grown: "reader_inv segs inos c (r\<lparr> sr_buf := sr_buf r @ tmp, sr_off := sr_off r + length tmp \<rparr>) got"
    using f k by (auto simp: reader_inv_def Let_def tmp_def intro!: exI [of _ k])
  have tmp_eq: "tmp = take m (drop (sr_off r) (blocks fs i))" by (simp add: tmp_def B)
  have "fill env fs r =
      (if \<not> re_stat env then (Inl EIO, r)
       else if min (re_size env) (length (blocks fs i)) \<le> sr_off r then (Inr False, r)
       else if tmp = [] then (Inr False, r)
       else (Inr True, r\<lparr> sr_buf := sr_buf r @ tmp, sr_off := sr_off r + length tmp \<rparr>))"
    unfolding fill_def same Let_def using ok by (simp add: f flip: tmp_eq [unfolded m_def])
  then show ?thesis using eq R grown by (auto split: if_splits)
qed

lemma next_decode_inv:
  assumes W: "writer_inv segs inos w fs sent" and c: "c = unat (sw_cur w)"
    and R: "reader_inv segs inos c r got" and f: "sr_f r = Some i"
    and ok: "\<not> reopen_fails env fs r" and eq: "next_decode env fs r = (out, r')"
  shows "reader_inv segs inos c r' (deliver got out) \<and> benign out \<and>
    (sr_f r' = None \<longrightarrow> unat (sr_cur r') = Suc (unat (sr_cur r)))"
proof -
  let ?c = "unat (sr_cur r)"
  let ?S = "segs ! ?c"
  from R f obtain k where k: "?c \<le> c" "c \<le> length segs" "?c < length segs" "inos ! ?c = i"
      "sr_off r \<le> length (encode_all ?S)"
      "take (sr_off r) (encode_all ?S) = encode_all (take k ?S) @ sr_buf r"
      "noroll (take k ?S) = take k ?S"
      "got = concat (map noroll (take ?c segs)) @ take k ?S"
    by (auto simp: reader_inv_def Let_def)
  have shape: "seg_shape c ?c ?S" using W c k(3) by (simp add: writer_inv_def)
  have ok_all: "list_all frame_ok (drop k ?S)"
    using shape by (auto simp: seg_shape_def list_all_iff dest: in_set_dropD)
  have "encode_all ?S = encode_all (take k ?S) @ encode_all (drop k ?S)"
    by (metis append_take_drop_id concat_append map_append)
  then have pre: "prefix (sr_buf r) (encode_all (drop k ?S))"
    using k(6) take_is_prefix [of "sr_off r" "encode_all ?S"] by simp
  show ?thesis
  proof (rule decode_prefix_cases [OF pre ok_all])
    assume "decodeFrame (sr_buf r) = Inl ErrIncompleteFrame"
    then show ?thesis
      using eq fill_inv [OF W R f ok] f
      by (auto simp: next_decode_def deliver_def benign_def split: prod.splits sum.splits bool.splits)
  next
    fix g gs buf'
    assume g: "drop k ?S = g # gs" "sr_buf r = encode g @ buf'"
      and d: "decodeFrame (sr_buf r) = Inr (g, length (encode g))"
    have kl: "k < length ?S" using g(1) by (metis drop_all list.discI not_le)
    then have tk: "take (Suc k) ?S = take k ?S @ [g]" "?S = take k ?S @ g # gs"
      using nth_via_drop [OF g(1)] append_take_drop_id [of k ?S]
      by (simp_all add: take_Suc_conv_app_nth g(1))
    show ?thesis
    proof (cases "frame_typ g = frameROLL")
      case False
      then have "out = Ret (Inr g)" "r' = r\<lparr> sr_buf := buf' \<rparr>"
        using eq d g(2) by (auto simp: next_decode_def Let_def)
      then show ?thesis
        using R f k False tk(1) g(2)
        by (auto simp: reader_inv_def Let_def deliver_def benign_def intro!: exI [of _ "Suc k"])
    next
      case True
      have "g \<in> set ?S" using tk(2) by (metis in_set_conv_decomp)
      then have "?c < c"
        using shape True by (auto simp: seg_shape_def noroll_id_iff split: if_splits)
      then obtain b where b: "?S = b @ [rollFrame (word_of_nat (Suc ?c))]" "noroll b = b"
        using shape by (auto simp: seg_shape_def)
      have "gs = [] \<and> take k ?S = b \<and> g = rollFrame (word_of_nat (Suc ?c))"
      proof -
        have "gs = []"
        proof (rule ccontr)
          assume "gs \<noteq> []"
          then have "g \<in> set b" using b(1) tk(2)
            by (metis append_butlast_last_id butlast_append butlast.simps(2) butlast_snoc
                in_set_conv_decomp list.discI)
          then show False using True b(2) by (auto simp: noroll_id_iff)
        qed
        then show ?thesis using b(1) tk(2) by auto
      qed
      then have g': "g = rollFrame (word_of_nat (Suc ?c))" "take k ?S = b" by auto
      have nx: "unat (word_of_nat (Suc ?c) :: uint32) = Suc ?c"
        using \<open>?c < c\<close> c unsigned_less [of "sw_cur w", where ?'a = nat]
        by (intro unat_word_of_nat) simp
      have "out = Again" "r' = r\<lparr> sr_f := None, sr_cur := word_of_nat (Suc ?c), sr_buf := [] \<rparr>"
        using eq d True by (auto simp: next_decode_def Let_def advance_def g'(1) rollFrame_def)
      moreover have "take (Suc ?c) segs = take ?c segs @ [?S]"
        using k(3) by (rule take_Suc_conv_app_nth)
      ultimately show ?thesis
        using \<open>?c < c\<close> k b g' nx
        by (simp add: reader_inv_def Let_def deliver_def benign_def)
    qed
  qed
qed

lemma next_iter_inv:
  assumes W: "writer_inv segs inos w fs sent" and c: "c = unat (sw_cur w)"
    and R: "reader_inv segs inos c r got" and st: "stable_view env fs r"
    and eq: "next_iter env fs r = (out, r')"
  shows "reader_inv segs inos c r' (deliver got out) \<and> benign out"
proof (cases "sr_f r")
  case (Some i)
  then have "\<not> reopen_fails env fs r" using st by (auto simp: stable_view_def reopen_fails_def)
  then show ?thesis using next_decode_inv [OF W c R Some] eq Some by (simp add: next_iter_def)
next
  case None
  show ?thesis
  proof (cases "openWait env (segName (sr_cur r)) fs")
    case (Inl e)
    then show ?thesis using eq R None
      by (auto simp: next_iter_def deliver_def benign_def openWait_def split: option.splits if_splits)
  next
    case (Inr i)
    let ?r = "r\<lparr> sr_f := Some i, sr_off := 0 \<rparr>"
    have ent: "ents fs (segName (sr_cur r)) = Some i"
      using Inr by (auto simp: openWait_def split: option.splits if_splits)
    then have "unat (sr_cur r) < length segs" "inos ! unat (sr_cur r) = i"
      using W by (auto simp: writer_inv_def)
    then have "reader_inv segs inos c ?r got"
      using R None by (auto simp: reader_inv_def Let_def intro!: exI [of _ 0])
    moreover have "\<not> reopen_fails env fs ?r"
      using st ent by (auto simp: stable_view_def reopen_fails_def)
    ultimately show ?thesis
      using next_decode_inv [OF W c, of ?r got i env out r'] eq None Inr
      by (simp add: next_iter_def)
  qed
qed

section \<open>The writer extends the log\<close>

text \<open>How a step of the writer changes the log: closed segments stay, others grow at the end.\<close>

definition log_grows ::
  "nat \<Rightarrow> frame list list \<Rightarrow> nat list \<Rightarrow> nat \<Rightarrow> frame list list \<Rightarrow> nat list \<Rightarrow> bool" where
  "log_grows c segs inos c' segs' inos' \<longleftrightarrow>
     c \<le> c' \<and> length segs \<le> length segs' \<and> c' \<le> length segs' \<and>
     (\<forall>i < length segs. prefix (segs ! i) (segs' ! i) \<and> inos' ! i = inos ! i) \<and>
     (\<forall>i < c. segs' ! i = segs ! i)"

lemma log_grows_refl: "c \<le> length segs \<Longrightarrow> log_grows c segs inos c segs inos"
  by (simp add: log_grows_def)

lemma log_grows_trans:
  assumes "log_grows c segs inos c1 segs1 inos1" "log_grows c1 segs1 inos1 c2 segs2 inos2"
  shows "log_grows c segs inos c2 segs2 inos2"
  using assms unfolding log_grows_def
  by (metis (no_types, lifting) order.trans order_less_le_trans prefix_order.trans)

lemma reader_inv_log_grows:
  "reader_inv segs inos c r got \<Longrightarrow> log_grows c segs inos c' segs' inos' \<Longrightarrow>
   reader_inv segs' inos' c' r got"
  unfolding log_grows_def by (elim conjE, rule reader_inv_grow [where c = c]) auto

lemma writer_inv_cong:
  "sw_cur w' = sw_cur w \<Longrightarrow> sw_f w' = sw_f w \<Longrightarrow> blocks fs' = blocks fs \<Longrightarrow>
   nextIno fs' = nextIno fs \<Longrightarrow> (\<And>n. ents fs' n = ents fs n \<or> ents fs' n = None) \<Longrightarrow>
   writer_inv segs inos w fs sent \<Longrightarrow> writer_inv segs inos w' fs' sent"
  unfolding writer_inv_def by (metis option.distinct(1))

lemma file_sync_simps [simp]:
  "blocks (file_sync f fs) = blocks fs" "nextIno (file_sync f fs) = nextIno fs"
  "ents (file_sync f fs) = ents fs"
  by (auto simp: file_sync_def fs_sync_def split: option.splits)

lemma writer_inv_current:
  assumes "writer_inv segs inos w fs sent" "sw_f w = Some i"
  shows "length segs = Suc (unat (sw_cur w))" "inos ! unat (sw_cur w) = i" "length inos = length segs"
    "blocks fs i = encode_all (segs ! unat (sw_cur w))"
  using assms by (auto simp: writer_inv_def)

lemma write_blocks:
  assumes W: "writer_inv segs inos w fs sent" and f: "sw_f w = Some i" and j: "j < length segs"
  shows "blocks (fs_write i (encode g) WOk fs) (inos ! j) =
    encode_all (segs [unat (sw_cur w) := segs ! unat (sw_cur w) @ [g]] ! j)"
proof (cases "j = unat (sw_cur w)")
  case True
  then show ?thesis using writer_inv_current [OF W f] by (simp add: fs_write_def)
next
  case False
  then have "inos ! j \<noteq> i"
    using W j writer_inv_current [OF W f] by (auto simp: writer_inv_def nth_eq_iff_index_eq)
  then show ?thesis using False W j by (simp add: fs_write_def writer_inv_def)
qed

lemma concat_map_snoc:
  "length xs = Suc n \<Longrightarrow> concat (map h (xs [n := xs ! n @ ys])) = concat (map h (take n xs)) @ h (xs ! n @ ys)"
  "length xs = Suc n \<Longrightarrow> concat (map h xs) = concat (map h (take n xs)) @ h (xs ! n)"
proof -
  assume l: "length xs = Suc n"
  then have x: "xs = take n xs @ [xs ! n]"
    by (metis le_refl lessI take_Suc_conv_app_nth take_all)
  then have "xs [n := xs ! n @ ys] = take n xs @ [xs ! n @ ys]"
    using l by (metis length_take lessI list_update_length min.absorb4 nat_less_le)
  then show "concat (map h (xs [n := xs ! n @ ys])) = concat (map h (take n xs)) @ h (xs ! n @ ys)"
    by simp
  show "concat (map h xs) = concat (map h (take n xs)) @ h (xs ! n)"
    by (subst x) simp
qed

lemma writer_write:
  assumes W: "writer_inv segs inos w fs sent" and f: "sw_f w = Some i"
    and g: "frame_ok g" "frame_typ g \<noteq> frameROLL"
  defines "segs' \<equiv> segs [unat (sw_cur w) := segs ! unat (sw_cur w) @ [g]]"
  shows "writer_inv segs' inos w (fs_write i (encode g) WOk fs) (sent @ [g])"
    and "log_grows (unat (sw_cur w)) segs inos (unat (sw_cur w)) segs' inos"
proof -
  let ?c = "unat (sw_cur w)"
  note cur = writer_inv_current [OF W f]
  have shape: "seg_shape ?c j (segs' ! j)" if "j < length segs" for j
    using that W cur g by (cases "j = ?c") (auto simp: writer_inv_def segs'_def seg_shape_def)
  have "sent @ [g] = concat (map noroll segs')"
    using W g cur(1) by (simp add: segs'_def writer_inv_def concat_map_snoc)
  then show "writer_inv segs' inos w (fs_write i (encode g) WOk fs) (sent @ [g])"
    using W f cur shape write_blocks [OF W f, of _ g]
    by (simp add: writer_inv_def segs'_def) (simp add: fs_write_def)
  show "log_grows ?c segs inos ?c segs' inos"
    using cur by (auto simp: log_grows_def segs'_def nth_list_update)
qed

lemma writer_roll:
  assumes W: "writer_inv segs inos w fs sent" and f: "sw_f w = Some i"
    and room: "Suc (unat (sw_cur w)) < 2 ^ 32"
    and w': "sw_f w' = None" "sw_cur w' = sw_cur w + 1"
  defines "segs' \<equiv> segs [unat (sw_cur w) := segs ! unat (sw_cur w) @ [rollFrame (sw_cur w + 1)]]"
  shows "writer_inv segs' inos w' (fs_write i (encode (rollFrame (sw_cur w + 1))) WOk fs) sent"
    and "log_grows (unat (sw_cur w)) segs inos (unat (sw_cur w')) segs' inos"
proof -
  let ?c = "unat (sw_cur w)"
  note cur = writer_inv_current [OF W f]
  have c': "unat (sw_cur w') = Suc ?c" using room by (simp add: w' unat_plus_one)
  have nx: "sw_cur w + 1 = word_of_nat (Suc ?c)" by simp
  have shape: "seg_shape (Suc ?c) j (segs' ! j)" if "j < length segs" for j
    using that W cur(1)
    by (cases "j = ?c") (auto simp: writer_inv_def segs'_def seg_shape_def less_Suc_eq nx)
  have "sent = concat (map noroll segs')"
    using W cur(1) by (simp add: segs'_def writer_inv_def concat_map_snoc)
  then show "writer_inv segs' inos w' (fs_write i (encode (rollFrame (sw_cur w + 1))) WOk fs) sent"
    using W f cur shape w'(1) c' write_blocks [OF W f, of _ "rollFrame (sw_cur w + 1)"]
    by (simp add: writer_inv_def segs'_def) (simp add: fs_write_def)
  show "log_grows ?c segs inos (unat (sw_cur w')) segs' inos"
    using cur c' by (auto simp: log_grows_def segs'_def nth_list_update)
qed

lemma writer_open:
  assumes W: "writer_inv segs inos w fs sent" and f: "sw_f w = None"
    and eq: "openCur ok (w, fs) = (e, w', fs')"
  shows "\<exists>segs' inos'. writer_inv segs' inos' w' fs' sent \<and>
    log_grows (unat (sw_cur w)) segs inos (unat (sw_cur w')) segs' inos' \<and> (e = None \<longrightarrow> sw_f w' \<noteq> None)"
proof (cases ok)
  case False
  then show ?thesis using eq W
    by (auto simp: openCur_def writer_inv_def log_grows_def intro!: exI [of _ segs] exI [of _ inos])
next
  case True
  let ?c = "unat (sw_cur w)"
  have l: "length segs = ?c" "length inos = ?c" using W f by (auto simp: writer_inv_def)
  have "ents fs (segName (sw_cur w)) = None"
    using W l by (cases "ents fs (segName (sw_cur w))") (auto simp: writer_inv_def)
  then have w': "w' = w\<lparr> sw_f := Some (nextIno fs), sw_size := 0 \<rparr>" "e = None"
    "fs' = fs\<lparr> ents := (ents fs)(segName (sw_cur w) \<mapsto> nextIno fs),
              blocks := (blocks fs)(nextIno fs := []), synced := (synced fs)(nextIno fs := 0),
              nextIno := Suc (nextIno fs) \<rparr>"
    using eq True by (auto simp: openCur_def fs_create_def Let_def)
  have nin: "nextIno fs \<notin> set inos" using W by (auto simp: writer_inv_def)
  have old: "(inos @ [nextIno fs]) ! j \<noteq> nextIno fs" if "j < ?c" for j
    using nin that l by (metis nth_append nth_mem)
  have names: "unat j < Suc ?c \<and> (inos @ [nextIno fs]) ! unat j = i"
    if "ents fs' (segName j) = Some i" for j i
    using that W l by (auto simp: w' writer_inv_def nth_append split: if_splits)
  have "writer_inv (segs @ [[]]) (inos @ [nextIno fs]) w' fs' sent"
    unfolding writer_inv_def using W l nin old names
    by (auto simp: w' writer_inv_def nth_append seg_shape_def less_Suc_eq)
  moreover have "log_grows ?c segs inos (unat (sw_cur w')) (segs @ [[]]) (inos @ [nextIno fs])"
    using l by (auto simp: log_grows_def w' nth_append)
  ultimately show ?thesis using w' by auto
qed

text \<open>A write is clean when it appends everything or nothing.\<close>

definition clean :: "write_result \<Rightarrow> bool" where
  "clean r \<longleftrightarrow> r = WOk \<or> r = WErr 0"

lemma fs_write_none [simp]: "fs_write i data (WErr 0) fs = fs"
  by (simp add: fs_write_def)

lemma roll_written:
  assumes "sw_f w = Some i" "io_roll io = WOk"
  shows "roll io d (w, fs) = openCur (io_open io)
    (w\<lparr> sw_f := None, sw_reapOff := sw_reapOff w @ [\<lparr> se_idx = sw_cur w, se_dataEnd = d \<rparr>],
        sw_cur := sw_cur w + 1 \<rparr>,
     let fs1 = fs_write i (encode (rollFrame (sw_cur w + 1))) WOk fs
     in if sw_netFS w \<or> sw_syncEnb w then file_sync (Some i) fs1 else fs1)"
  using assms by (cases "sw_netFS w \<or> sw_syncEnb w") (auto simp: roll_def file_write_def Let_def)

lemma roll_inv:
  assumes W: "writer_inv segs inos w fs sent" and io: "clean (io_roll io)"
    and room: "Suc (unat (sw_cur w)) < 2 ^ 32"
    and eq: "roll io d (w, fs) = (e, w', fs')"
  shows "\<exists>segs' inos'. writer_inv segs' inos' w' fs' sent \<and>
    log_grows (unat (sw_cur w)) segs inos (unat (sw_cur w')) segs' inos'"
proof (cases "sw_f w = None \<or> io_roll io \<noteq> WOk")
  case True
  then have "w' = w" "fs' = fs" using eq io
    by (auto simp: roll_def file_write_def clean_def Let_def split: option.splits)
  then show ?thesis using W log_grows_refl
    by (auto simp: writer_inv_def intro!: exI [of _ segs] exI [of _ inos])
next
  case False
  then obtain i where i: "sw_f w = Some i" "io_roll io = WOk" by auto
  define fs2 where "fs2 = (let fs1 = fs_write i (encode (rollFrame (sw_cur w + 1))) WOk fs
    in if sw_netFS w \<or> sw_syncEnb w then file_sync (Some i) fs1 else fs1)"
  define w2 where "w2 = w\<lparr> sw_f := None,
    sw_reapOff := sw_reapOff w @ [\<lparr> se_idx = sw_cur w, se_dataEnd = d \<rparr>], sw_cur := sw_cur w + 1 \<rparr>"
  have op: "openCur (io_open io) (w2, fs2) = (e, w', fs')"
    using eq roll_written [OF i] by (simp only: w2_def fs2_def)
  let ?segs = "segs [unat (sw_cur w) := segs ! unat (sw_cur w) @ [rollFrame (sw_cur w + 1)]]"
  have W2: "writer_inv ?segs inos w2 fs2 sent"
    by (rule writer_inv_cong [OF _ _ _ _ _ writer_roll(1) [OF W i(1) room, of w2]])
      (simp_all add: w2_def fs2_def Let_def)
  have g: "log_grows (unat (sw_cur w)) segs inos (unat (sw_cur w2)) ?segs inos"
    by (rule writer_roll(2) [OF W i(1) room]) (simp_all add: w2_def)
  have "sw_f w2 = None" by (simp add: w2_def)
  then show ?thesis using writer_open [OF W2 _ op] log_grows_trans [OF g] by blast
qed

lemma seg_append_inv:
  assumes W: "writer_inv segs inos w fs sent"
    and io: "clean (io_roll io)" "clean (io_write io)"
    and g: "frame_ok g" "frame_typ g \<noteq> frameROLL"
    and room: "Suc (unat (sw_cur w)) < 2 ^ 32"
    and eq: "seg_append io g d (w, fs) = (e, w', fs')"
  shows "\<exists>segs' inos'. writer_inv segs' inos' w' fs' (if e = None then sent @ [g] else sent) \<and>
    log_grows (unat (sw_cur w)) segs inos (unat (sw_cur w')) segs' inos'"
proof (cases "sw_closed w")
  case True
  then show ?thesis using eq W log_grows_refl
    by (auto simp: seg_append_def writer_inv_def intro!: exI [of _ segs] exI [of _ inos])
next
  case False
  obtain e1 w1 fs1 where s1:
    "(if 0 < sw_size w \<and> sw_size w + int (length (encode g)) > sw_maxSeg w
      then roll io d (w, fs) else (None, w, fs)) = (e1, w1, fs1)"
    by (metis prod_cases3)
  have "\<exists>segs1 inos1. writer_inv segs1 inos1 w1 fs1 sent \<and>
      log_grows (unat (sw_cur w)) segs inos (unat (sw_cur w1)) segs1 inos1"
  proof (cases "0 < sw_size w \<and> sw_size w + int (length (encode g)) > sw_maxSeg w")
    case True
    then show ?thesis using roll_inv [OF W io(1) room] s1 by auto
  next
    case False
    then have "w1 = w" "fs1 = fs" using s1 by (auto split: if_splits)
    then show ?thesis using W log_grows_refl
      by (auto simp: writer_inv_def intro!: exI [of _ segs] exI [of _ inos])
  qed
  then obtain segs1 inos1 where W1: "writer_inv segs1 inos1 w1 fs1 sent"
    and G1: "log_grows (unat (sw_cur w)) segs inos (unat (sw_cur w1)) segs1 inos1" by auto
  show ?thesis
  proof (cases "e1 = None \<and> sw_f w1 \<noteq> None \<and> io_write io = WOk")
    case True
    then obtain i where i: "e1 = None" "sw_f w1 = Some i" "io_write io = WOk" by auto
    have r: "e = None" "sw_cur w' = sw_cur w1" "sw_f w' = sw_f w1"
      "blocks fs' = blocks (fs_write i (encode g) WOk fs1)"
      "nextIno fs' = nextIno (fs_write i (encode g) WOk fs1)"
      "ents fs' = ents (fs_write i (encode g) WOk fs1)"
      using eq False s1 i
      by (auto simp: seg_append_def file_write_def armFlushLocked_def Let_def split: if_splits)
    note w = writer_write [OF W1 i(2) g]
    have "writer_inv (segs1 [unat (sw_cur w1) := segs1 ! unat (sw_cur w1) @ [g]]) inos1 w' fs' (sent @ [g])"
      by (rule writer_inv_cong [OF _ _ _ _ _ w(1)]) (simp_all add: r)
    moreover have "log_grows (unat (sw_cur w)) segs inos (unat (sw_cur w'))
      (segs1 [unat (sw_cur w1) := segs1 ! unat (sw_cur w1) @ [g]]) inos1"
      unfolding r by (rule log_grows_trans [OF G1 w(2)])
    ultimately show ?thesis using r(1) by auto
  next
    case nope: False
    then have "e \<noteq> None" "w' = w1" "fs' = fs1"
      using eq False s1 io(2)
      by (auto simp: seg_append_def file_write_def clean_def Let_def split: option.splits if_splits)
    then show ?thesis using W1 G1 by auto
  qed
qed

lemma ents_fold_remove:
  "ents (fold (\<lambda>s. fs_remove (segName (se_idx s))) ss fs) n =
     (if n \<in> (segName \<circ> se_idx) ` set ss then None else ents fs n)"
  by (induction ss arbitrary: fs) (auto simp: fs_remove_def)

lemma fold_remove_simps [simp]:
  "blocks (fold (\<lambda>s. fs_remove (segName (se_idx s))) ss fs) = blocks fs"
  "nextIno (fold (\<lambda>s. fs_remove (segName (se_idx s))) ss fs) = nextIno fs"
  "synced (fold (\<lambda>s. fs_remove (segName (se_idx s))) ss fs) = synced fs"
  by (induction ss arbitrary: fs) (auto simp: fs_remove_def)

section \<open>The pipe as a transition system\<close>

record pipe =
  p_fs :: fsdir
  p_w :: segWriter
  p_r :: segReader
  p_sent :: "frame list"
  p_got :: "frame list"

definition pipe_start :: "resolvedConfig \<Rightarrow> pipe \<Rightarrow> bool" where
  "pipe_start rc p \<longleftrightarrow>
     (\<exists>w fs. newSegWriter True True rc empty_dir = Inr (w, fs) \<and>
        p = \<lparr> p_fs = fs, p_w = w, p_r = newSegReader (rc_netFS rc), p_sent = [], p_got = [] \<rparr>)"

text \<open>
  The steps: an append with any clean outcome of its writes, a timed flush, a forced flush, a
  reap at any acknowledged offset, closing the writer, and one iteration of the reader under
  any stable view.
\<close>

inductive pipe_step :: "pipe \<Rightarrow> pipe \<Rightarrow> bool" where
  p_append: "clean (io_roll io) \<Longrightarrow> clean (io_write io) \<Longrightarrow> frame_ok f \<Longrightarrow> frame_typ f \<noteq> frameROLL \<Longrightarrow>
    Suc (unat (sw_cur (p_w p))) < 2 ^ 32 \<Longrightarrow>
    seg_append io f d (p_w p, p_fs p) = (e, w', fs') \<Longrightarrow>
    pipe_step p (p\<lparr> p_w := w', p_fs := fs',
      p_sent := (if e = None then p_sent p @ [f] else p_sent p) \<rparr>)"
| p_flush: "timedFlush (p_w p, p_fs p) = (w', fs') \<Longrightarrow> pipe_step p (p\<lparr> p_w := w', p_fs := fs' \<rparr>)"
| p_syncnow: "syncNow (p_w p, p_fs p) = (w', fs') \<Longrightarrow> pipe_step p (p\<lparr> p_w := w', p_fs := fs' \<rparr>)"
| p_reap: "reap ack (p_w p, p_fs p) = (w', fs') \<Longrightarrow> pipe_step p (p\<lparr> p_w := w', p_fs := fs' \<rparr>)"
| p_close: "seg_close (p_w p, p_fs p) = (w', fs') \<Longrightarrow> pipe_step p (p\<lparr> p_w := w', p_fs := fs' \<rparr>)"
| p_read: "stable_view env (p_fs p) (p_r p) \<Longrightarrow> next_iter env (p_fs p) (p_r p) = (out, r') \<Longrightarrow>
    pipe_step p (p\<lparr> p_r := r', p_got := deliver (p_got p) out \<rparr>)"

definition pipe_inv :: "pipe \<Rightarrow> bool" where
  "pipe_inv p \<longleftrightarrow>
     (\<exists>segs inos. writer_inv segs inos (p_w p) (p_fs p) (p_sent p) \<and>
        reader_inv segs inos (unat (sw_cur (p_w p))) (p_r p) (p_got p))"

lemma pipe_inv_maint:
  assumes "pipe_inv p" "sw_cur w' = sw_cur (p_w p)" "sw_f w' = sw_f (p_w p)"
    "blocks fs' = blocks (p_fs p)" "nextIno fs' = nextIno (p_fs p)"
    "\<And>n. ents fs' n = ents (p_fs p) n \<or> ents fs' n = None"
  shows "pipe_inv (p\<lparr> p_w := w', p_fs := fs' \<rparr>)"
proof -
  from assms(1) obtain segs inos where W: "writer_inv segs inos (p_w p) (p_fs p) (p_sent p)"
    and R: "reader_inv segs inos (unat (sw_cur (p_w p))) (p_r p) (p_got p)"
    by (auto simp: pipe_inv_def)
  from writer_inv_cong [OF assms(2-6) W] have "writer_inv segs inos w' fs' (p_sent p)" .
  then show ?thesis using R assms(2) by (auto simp: pipe_inv_def)
qed

lemma pipe_inv_start: "pipe_start rc p \<Longrightarrow> pipe_inv p"
  unfolding pipe_inv_def
  by (rule exI [of _ "[[]]"], rule exI [of _ "[0]"])
    (auto simp: pipe_start_def newSegWriter_def openCur_def fs_create_def empty_dir_def Let_def
      writer_inv_def reader_inv_def newSegReader_def seg_shape_def split: if_splits)

lemma pipe_inv_step:
  assumes "pipe_inv p" "pipe_step p q"
  shows "pipe_inv q"
  using assms(2)
proof cases
  case (p_append io f d e w' fs')
  from assms(1) obtain segs inos where W: "writer_inv segs inos (p_w p) (p_fs p) (p_sent p)"
    and R: "reader_inv segs inos (unat (sw_cur (p_w p))) (p_r p) (p_got p)"
    by (auto simp: pipe_inv_def)
  from seg_append_inv [OF W p_append(2-7)] obtain segs' inos' where
    "writer_inv segs' inos' w' fs' (if e = None then p_sent p @ [f] else p_sent p)"
    "log_grows (unat (sw_cur (p_w p))) segs inos (unat (sw_cur w')) segs' inos'" by auto
  moreover from this(2) have "reader_inv segs' inos' (unat (sw_cur w')) (p_r p) (p_got p)"
    by (rule reader_inv_log_grows [OF R])
  ultimately show ?thesis unfolding pipe_inv_def p_append(1)
    by (intro exI [of _ segs'] exI [of _ inos']) simp
next
  case (p_flush w' fs')
  then show ?thesis
    by (auto simp: timedFlush_def Let_def split: if_splits intro!: pipe_inv_maint [OF assms(1)])
next
  case (p_syncnow w' fs')
  then show ?thesis
    by (auto simp: syncNow_def split: if_splits intro!: pipe_inv_maint [OF assms(1)])
next
  case (p_reap ack w' fs')
  then show ?thesis
    by (auto simp: reap_def ents_fold_remove simp del: image_comp
        intro!: pipe_inv_maint [OF assms(1)] split: if_splits)
next
  case (p_close w' fs')
  then show ?thesis
    by (auto simp: seg_close_def split: if_splits intro!: pipe_inv_maint [OF assms(1)])
next
  case (p_read env out r')
  from assms(1) obtain segs inos where W: "writer_inv segs inos (p_w p) (p_fs p) (p_sent p)"
    and R: "reader_inv segs inos (unat (sw_cur (p_w p))) (p_r p) (p_got p)"
    by (auto simp: pipe_inv_def)
  then show ?thesis
    using next_iter_inv [OF W refl R p_read(2,3)] p_read(1) by (auto simp: pipe_inv_def)
qed

interpretation pipe_machine: invariant_machine "pipe_start rc" pipe_step pipe_inv for rc
  by unfold_locales (auto intro: pipe_inv_start pipe_inv_step)

lemma reader_prefix:
  assumes W: "writer_inv segs inos w fs sent" and R: "reader_inv segs inos c r got"
  shows "prefix got sent"
proof -
  let ?c = "unat (sr_cur r)"
  have sent: "sent = concat (map noroll segs)" using W by (simp add: writer_inv_def)
  have all: "concat (map noroll segs) = concat (map noroll (take ?c segs)) @ concat (map noroll (drop ?c segs))"
    by (metis append_take_drop_id concat_append map_append)
  show ?thesis
  proof (cases "sr_f r")
    case None
    then show ?thesis using R sent all by (simp add: reader_inv_def Let_def)
  next
    case (Some i)
    with R obtain k where k: "?c < length segs"
        "noroll (take k (segs ! ?c)) = take k (segs ! ?c)"
        "got = concat (map noroll (take ?c segs)) @ take k (segs ! ?c)"
      by (auto simp: reader_inv_def Let_def)
    have "drop ?c segs = segs ! ?c # drop (Suc ?c) segs" using k(1) by (simp add: Cons_nth_drop_Suc)
    moreover have "noroll (segs ! ?c) = take k (segs ! ?c) @ noroll (drop k (segs ! ?c))"
      by (metis append_take_drop_id k(2) noroll_simps(2))
    ultimately show ?thesis using k(3) by (simp add: sent all)
  qed
qed

lemma pipe_inv_prefix: "pipe_inv p \<Longrightarrow> prefix (p_got p) (p_sent p)"
  by (auto simp: pipe_inv_def intro: reader_prefix)

lemma reach_pipe:
  assumes "reach (pipe_start rc) pipe_step p"
  obtains segs inos where "writer_inv segs inos (p_w p) (p_fs p) (p_sent p)"
    "reader_inv segs inos (unat (sw_cur (p_w p))) (p_r p) (p_got p)"
  using pipe_machine.reach_inv [OF assms] unfolding pipe_inv_def by blast

section \<open>The reader catches up\<close>

text \<open>
  A full view of the log: everything the writer has appended is visible and every segment from
  the reader's on is still there.
\<close>

definition full_view :: "read_env \<Rightarrow> fsdir \<Rightarrow> segWriter \<Rightarrow> segReader \<Rightarrow> bool" where
  "full_view env fs w r \<longleftrightarrow>
     re_open env \<and> re_reopen env \<and> re_stat env \<and>
     (\<forall>i. length (blocks fs i) \<le> re_size env \<and> length (blocks fs i) \<le> re_read env) \<and>
     (\<forall>j. unat (sr_cur r) \<le> unat j \<and> (unat j < unat (sw_cur w) \<or> j = sw_cur w \<and> sw_f w \<noteq> None) \<longrightarrow>
        ents fs (segName j) \<noteq> None)"

text \<open>How much the reader's loop has left to do before it must return.\<close>

definition todo :: "nat \<Rightarrow> fsdir \<Rightarrow> segReader \<Rightarrow> nat" where
  "todo cur fs r = 2 * (cur - unat (sr_cur r)) +
     (case sr_f r of None \<Rightarrow> 1 | Some i \<Rightarrow> if sr_off r < length (blocks fs i) then 1 else 0)"

lemma full_view_stable:
  assumes "full_view env fs w r" "writer_inv segs inos w fs sent"
    "reader_inv segs inos (unat (sw_cur w)) r got"
  shows "stable_view env fs r"
proof -
  have "ents fs (segName (sr_cur r)) \<noteq> None" if "sr_f r \<noteq> None"
  proof -
    from that assms(3) have c: "unat (sr_cur r) < length segs" "unat (sr_cur r) \<le> unat (sw_cur w)"
      by (auto simp: reader_inv_def Let_def)
    have "unat (sr_cur r) < unat (sw_cur w) \<or> sr_cur r = sw_cur w \<and> sw_f w \<noteq> None"
      using c assms(2) by (auto simp: writer_inv_def word_unat_eq_iff split: option.splits)
    then show ?thesis using assms(1) by (auto simp: full_view_def)
  qed
  then show ?thesis using assms(1) by (simp add: stable_view_def full_view_def)
qed

lemma fill_full:
  assumes "full_view env fs w r" "stable_view env fs r" "writer_inv segs inos w fs sent"
    and R: "reader_inv segs inos c r got" and f: "sr_f r = Some i"
    and eq: "fill env fs r = (x, r')"
  shows "x = Inr False \<and> r' = r \<and> sr_off r = length (blocks fs i) \<or>
    x = Inr True \<and> sr_cur r' = sr_cur r \<and> sr_f r' = sr_f r \<and> sr_off r < length (blocks fs i) \<and>
    sr_off r' = length (blocks fs i)"
proof -
  from R f have k: "unat (sr_cur r) < length segs" "inos ! unat (sr_cur r) = i"
    "sr_off r \<le> length (encode_all (segs ! unat (sr_cur r)))"
    by (auto simp: reader_inv_def Let_def)
  have le: "sr_off r \<le> length (blocks fs i)" using assms(3) k by (auto simp: writer_inv_def)
  have nf: "\<not> reopen_fails env fs r" using assms(2) f by (auto simp: stable_view_def reopen_fails_def)
  have same: "(if sr_netFS r \<and> sr_f r \<noteq> None then r\<lparr> sr_f := ents fs (segName (sr_cur r)) \<rparr> else r) = r"
    using nf assms(3) k(2) f by (auto simp: reopen_fails_def writer_inv_def)
  have v: "re_stat env" "min (re_size env) (length (blocks fs i)) = length (blocks fs i)"
    "min (re_read env) (length (blocks fs i) - sr_off r) = length (blocks fs i) - sr_off r"
    using assms(1) by (auto simp: full_view_def intro!: min_absorb2 le_trans [OF diff_le_self])
  show ?thesis using eq le nf v f unfolding fill_def same by (auto simp: Let_def split: if_splits)
qed

lemma unread_frame_decodes:
  assumes W: "writer_inv segs inos w fs sent" and R: "reader_inv segs inos (unat (sw_cur w)) r got"
    and f: "sr_f r = Some i" and off: "sr_off r = length (blocks fs i)"
    and d: "decodeFrame (sr_buf r) = Inl ErrIncompleteFrame"
  shows "got = sent"
proof -
  let ?c = "unat (sr_cur r)" and ?S = "segs ! unat (sr_cur r)" and ?w = "unat (sw_cur w)"
  from R f obtain k where k: "?c \<le> ?w" "?c < length segs" "inos ! ?c = i"
      "take (sr_off r) (encode_all ?S) = encode_all (take k ?S) @ sr_buf r"
      "noroll (take k ?S) = take k ?S" "got = concat (map noroll (take ?c segs)) @ take k ?S"
    by (auto simp: reader_inv_def Let_def)
  have shape: "seg_shape ?w ?c ?S" and "blocks fs i = encode_all ?S"
    using W k by (auto simp: writer_inv_def)
  then have "encode_all ?S = encode_all (take k ?S) @ sr_buf r" using k(4) off by simp
  moreover have "encode_all ?S = encode_all (take k ?S) @ encode_all (drop k ?S)"
    by (metis append_take_drop_id concat_append map_append)
  ultimately have buf: "sr_buf r = encode_all (drop k ?S)" by simp
  have "drop k ?S = []"
  proof (rule ccontr)
    assume "drop k ?S \<noteq> []"
    then obtain g gs where g: "drop k ?S = g # gs" by (cases "drop k ?S") auto
    then have "g \<in> set ?S" by (metis in_set_dropD list.set_intros(1))
    then have "frame_ok g" using shape by (simp add: seg_shape_def list_all_iff)
    then show False using d buf g decode_encode [of g "encode_all gs"] by simp
  qed
  then have S: "take k ?S = ?S" by simp
  have "?c = ?w"
    using shape k(1,5) unfolding S by (cases "?c < ?w") (auto simp: seg_shape_def noroll_id_iff rollFrame_def)
  then have "sw_f w \<noteq> None" "length segs = Suc ?c"
    using W k(2) by (auto simp: writer_inv_def split: option.splits)
  then show ?thesis using W k(5,6) S by (simp add: writer_inv_def concat_map_snoc(2))
qed

lemma next_decode_full:
  assumes V: "full_view env fs w r" and W: "writer_inv segs inos w fs sent"
    and R: "reader_inv segs inos (unat (sw_cur w)) r got" and f: "sr_f r = Some i"
    and eq: "next_decode env fs r = (out, r')"
  shows "(\<exists>g. out = Ret (Inr g)) \<or> out = Ret (Inl EIncomplete) \<and> got = sent \<or>
    out = Again \<and> todo (unat (sw_cur w)) fs r' < todo (unat (sw_cur w)) fs r \<and>
    unat (sr_cur r) \<le> unat (sr_cur r')"
proof -
  note st = full_view_stable [OF V W R]
  have nf: "\<not> reopen_fails env fs r" using st f by (auto simp: stable_view_def reopen_fails_def)
  note inv = next_decode_inv [OF W refl R f nf eq]
  show ?thesis
  proof (cases "decodeFrame (sr_buf r)")
    case (Inl e)
    show ?thesis
    proof (cases e)
      case ErrIncompleteFrame
      obtain x r2 where fl: "fill env fs r = (x, r2)" by fastforce
      with fill_full [OF V st W R f fl] show ?thesis
        using eq Inl ErrIncompleteFrame f unread_frame_decodes [OF W R f]
        by (auto simp: next_decode_def todo_def)
    next
      case ErrCorruptFrame
      then show ?thesis using eq Inl inv by (auto simp: next_decode_def benign_def)
    qed
  next
    case (Inr p)
    then obtain g n where d: "decodeFrame (sr_buf r) = Inr (g, n)" by (cases p) auto
    show ?thesis
    proof (cases "frame_typ g = frameROLL")
      case False
      then show ?thesis using eq d by (auto simp: next_decode_def Let_def)
    next
      case True
      have A: "out = Again \<and> sr_f r' = None"
        using eq d True inv
        by (auto simp: next_decode_def Let_def advance_def benign_def split: option.splits)
      have "unat (sr_cur r) < unat (sr_cur r')"
        using inv A by simp
      moreover have "unat (sr_cur r') \<le> unat (sw_cur w)"
        using inv by (auto simp: reader_inv_def Let_def)
      ultimately show ?thesis using A by (auto simp: todo_def f)
    qed
  qed
qed

lemma full_view_mono:
  "full_view env fs w r \<Longrightarrow> unat (sr_cur r) \<le> unat (sr_cur r') \<Longrightarrow> full_view env fs w r'"
  by (auto simp: full_view_def)

lemma next_iter_full:
  assumes V: "full_view env fs w r" and W: "writer_inv segs inos w fs sent"
    and R: "reader_inv segs inos (unat (sw_cur w)) r got" and eq: "next_iter env fs r = (out, r')"
  shows "(\<exists>g. out = Ret (Inr g)) \<or>
    out \<in> {Ret (Inl EIncomplete), Ret (Inl ENotExist)} \<and> got = sent \<or>
    out = Again \<and> todo (unat (sw_cur w)) fs r' < todo (unat (sw_cur w)) fs r \<and>
    unat (sr_cur r) \<le> unat (sr_cur r')"
proof (cases "sr_f r")
  case (Some i)
  then show ?thesis using next_decode_full [OF V W R Some] eq by (auto simp: next_iter_def)
next
  case None
  then have g: "unat (sr_cur r) \<le> unat (sw_cur w)" "sr_buf r = []"
      "got = concat (map noroll (take (unat (sr_cur r)) segs))"
    using R by (auto simp: reader_inv_def Let_def)
  show ?thesis
  proof (cases "ents fs (segName (sr_cur r))")
    case ent: None
    then have "sr_cur r = sw_cur w" "sw_f w = None"
      using V g(1) by (auto simp: full_view_def word_unat_eq_iff le_less)
    then have "got = sent" using g(3) W by (simp add: writer_inv_def)
    then show ?thesis using eq ent None by (simp add: next_iter_def openWait_def)
  next
    case (Some i)
    let ?r = "r\<lparr> sr_f := Some i, sr_off := 0 \<rparr>"
    have i: "unat (sr_cur r) < length segs" "inos ! unat (sr_cur r) = i"
      using W Some by (auto simp: writer_inv_def)
    then have R': "reader_inv segs inos (unat (sw_cur w)) ?r got"
      using R None by (auto simp: reader_inv_def Let_def intro!: exI [of _ 0])
    have V': "full_view env fs w ?r" using V by (rule full_view_mono) simp
    have "next_decode env fs ?r = (out, r')"
      using eq None Some V by (simp add: next_iter_def openWait_def full_view_def)
    moreover have "todo (unat (sw_cur w)) fs ?r \<le> todo (unat (sw_cur w)) fs r"
      by (simp add: todo_def None)
    ultimately show ?thesis using next_decode_full [OF V' W R', of i out r'] by auto
  qed
qed

text \<open>Under a full view \<open>next\<close> returns, and it returns the next frame as long as there is one.\<close>

lemma seg_next_full:
  assumes W: "writer_inv segs inos w fs sent" and V: "\<And>t. full_view (env t) fs w r"
    and R: "reader_inv segs inos (unat (sw_cur w)) r got"
  shows "\<exists>x r'. seg_next env (\<lambda>_. fs) t r = Some (x, r') \<and>
    (if got = sent then x \<in> {Inl EIncomplete, Inl ENotExist} \<and>
       reader_inv segs inos (unat (sw_cur w)) r' got
     else x = Inr (sent ! length got) \<and>
       reader_inv segs inos (unat (sw_cur w)) r' (got @ [sent ! length got]))"
  using V R
proof (induction "todo (unat (sw_cur w)) fs r" arbitrary: t r rule: less_induct)
  case less
  obtain out r' where it: "next_iter (env t) fs r = (out, r')" by fastforce
  have inv: "reader_inv segs inos (unat (sw_cur w)) r' (deliver got out)" "benign out"
    using next_iter_inv [OF W refl less.prems(2) full_view_stable [OF less.prems(1) W less.prems(2)] it]
    by auto
  consider g where "out = Ret (Inr g)"
    | "out \<in> {Ret (Inl EIncomplete), Ret (Inl ENotExist)}" "got = sent"
    | "out = Again" "todo (unat (sw_cur w)) fs r' < todo (unat (sw_cur w)) fs r"
      "unat (sr_cur r) \<le> unat (sr_cur r')"
    using next_iter_full [OF less.prems(1) W less.prems(2) it] by auto
  then show ?case
  proof cases
    case 1
    have "prefix (got @ [g]) sent"
      using reader_prefix [OF W inv(1)] 1 by (simp add: deliver_def)
    then have "got \<noteq> sent" "sent ! length got = g" by (auto simp: prefix_def nth_append)
    then show ?thesis using inv(1) 1 it by (simp add: seg_next.simps deliver_def)
  next
    case 2
    then show ?thesis using inv(1) it by (auto simp: seg_next.simps deliver_def)
  next
    case 3
    have "reader_inv segs inos (unat (sw_cur w)) r' got" using inv(1) 3(1) by (simp add: deliver_def)
    from less.hyps [OF 3(2) full_view_mono [OF less.prems(1) 3(3)] this, of "Suc t"]
    show ?thesis unfolding seg_next.simps [of env _ t r] it 3(1) by simp
  qed
qed

section \<open>Flushing on network filesystems\<close>

definition unsynced :: "fsdir \<Rightarrow> nat \<Rightarrow> bool" where
  "unsynced fs i \<longleftrightarrow> synced fs i < length (blocks fs i)"

text \<open>
  On a network filesystem a file with bytes that no fsync covers is the open segment, and its
  flush timer is armed; with per-append syncing no file has such bytes.
\<close>

definition flush_inv :: "segWriter \<Rightarrow> fsdir \<Rightarrow> bool" where
  "flush_inv w fs \<longleftrightarrow>
     (\<forall>i. unsynced fs i \<longrightarrow>
        (if sw_netFS w then sw_f w = Some i \<and> sw_flushTimer w \<and> \<not> sw_closed w
         else \<not> sw_syncEnb w))"

lemma flush_inv_synced: "(\<And>i. \<not> unsynced fs i) \<Longrightarrow> flush_inv w fs"
  by (simp add: flush_inv_def)

lemma unsynced_simps [simp]:
  "unsynced (fs_sync i fs) j \<longleftrightarrow> i \<noteq> j \<and> unsynced fs j"
  "unsynced (file_sync f fs) j \<longleftrightarrow> f \<noteq> Some j \<and> unsynced fs j"
  "j \<noteq> i \<Longrightarrow> unsynced (fs_write i b res fs) j \<longleftrightarrow> unsynced fs j"
  by (auto simp: unsynced_def file_sync_def fs_sync_def fs_write_def split: option.splits)

lemma openCur_flush:
  assumes "openCur ok (w, fs) = (e, w', fs')"
  shows "unsynced fs' i \<Longrightarrow> unsynced fs i" "sw_netFS w' = sw_netFS w" "sw_syncEnb w' = sw_syncEnb w"
    "sw_closed w' = sw_closed w" "sw_flushTimer w' = sw_flushTimer w"
  using assms
  by (auto simp: openCur_def fs_create_def Let_def unsynced_def split: if_splits option.splits)

lemma roll_flush:
  assumes I: "flush_inv w fs" and io: "clean (io_roll io)"
    and eq: "roll io d (w, fs) = (e, w', fs')"
  shows "flush_inv w' fs' \<and> sw_netFS w' = sw_netFS w \<and> sw_syncEnb w' = sw_syncEnb w \<and>
    sw_closed w' = sw_closed w"
proof (cases "sw_f w = None \<or> io_roll io \<noteq> WOk")
  case True
  then have "w' = w" "fs' = fs" using eq io
    by (auto simp: roll_def file_write_def clean_def Let_def split: option.splits)
  then show ?thesis using I by simp
next
  case False
  then obtain i where i: "sw_f w = Some i" "io_roll io = WOk" by auto
  define fs2 where "fs2 = (let fs1 = fs_write i (encode (rollFrame (sw_cur w + 1))) WOk fs
    in if sw_netFS w \<or> sw_syncEnb w then file_sync (Some i) fs1 else fs1)"
  define w2 where "w2 = w\<lparr> sw_f := None,
    sw_reapOff := sw_reapOff w @ [\<lparr> se_idx = sw_cur w, se_dataEnd = d \<rparr>], sw_cur := sw_cur w + 1 \<rparr>"
  have op: "openCur (io_open io) (w2, fs2) = (e, w', fs')"
    using eq roll_written [OF i] by (simp only: w2_def fs2_def)
  note o = openCur_flush [OF op]
  have "\<not> unsynced fs2 j" if "sw_netFS w \<or> sw_syncEnb w" for j
    using that I i(1) by (cases "j = i") (auto simp: fs2_def Let_def flush_inv_def split: if_splits)
  then show ?thesis using o by (auto simp: flush_inv_def w2_def)
qed

lemma seg_append_flush:
  assumes I: "flush_inv w fs" and io: "clean (io_roll io)" "clean (io_write io)"
    and eq: "seg_append io g d (w, fs) = (e, w', fs')"
  shows "flush_inv w' fs'"
proof (cases "sw_closed w")
  case True
  then show ?thesis using eq I by (simp add: seg_append_def)
next
  case False
  obtain e1 w1 fs1 where s1:
    "(if 0 < sw_size w \<and> sw_size w + int (length (encode g)) > sw_maxSeg w
      then roll io d (w, fs) else (None, w, fs)) = (e1, w1, fs1)"
    by (metis prod_cases3)
  have I1: "flush_inv w1 fs1 \<and> sw_closed w1 = sw_closed w"
  proof (cases "0 < sw_size w \<and> sw_size w + int (length (encode g)) > sw_maxSeg w")
    case True
    then show ?thesis using roll_flush [OF I io(1)] s1 by auto
  next
    case False
    then show ?thesis using I s1 by (auto split: if_splits)
  qed
  show ?thesis
  proof (cases "e1 = None \<and> sw_f w1 \<noteq> None \<and> io_write io = WOk")
    case True
    then obtain i where i: "e1 = None" "sw_f w1 = Some i" "io_write io = WOk" by auto
    let ?fs = "fs_write i (encode g) WOk fs1"
    have o: "unsynced ?fs j \<Longrightarrow> j = i \<or> unsynced fs1 j" for j by (cases "j = i") auto
    have "fs' = (if \<not> sw_netFS w1 \<and> sw_syncEnb w1 then file_sync (Some i) ?fs else ?fs)"
      "sw_netFS w' = sw_netFS w1" "sw_syncEnb w' = sw_syncEnb w1" "sw_f w' = Some i"
      "sw_closed w' = sw_closed w1" "sw_netFS w1 \<Longrightarrow> sw_flushTimer w'"
      using eq False s1 i
      by (auto simp: seg_append_def file_write_def armFlushLocked_def Let_def split: if_splits)
    then show ?thesis using I1 o False i(2) unfolding flush_inv_def
      by (auto split: if_splits)
  next
    case nope: False
    then have "w' = w1" "fs' = fs1"
      using eq False s1 io(2)
      by (auto simp: seg_append_def file_write_def clean_def Let_def split: option.splits if_splits)
    then show ?thesis using I1 by auto
  qed
qed

lemma flush_inv_step:
  assumes I: "flush_inv (p_w p) (p_fs p)" and "pipe_step p q"
  shows "flush_inv (p_w q) (p_fs q)"
  using assms(2)
proof cases
  case (p_append io f d e w' fs')
  then show ?thesis using seg_append_flush [OF I p_append(2,3,7)] by simp
next
  case (p_reap ack w' fs')
  then show ?thesis using I by (auto simp: reap_def flush_inv_def unsynced_def)
qed (use I in \<open>auto simp: timedFlush_def syncNow_def seg_close_def flush_inv_def Let_def split: if_splits\<close>)

lemma flush_inv_start: "pipe_start rc p \<Longrightarrow> flush_inv (p_w p) (p_fs p)"
  by (auto simp: pipe_start_def newSegWriter_def openCur_def fs_create_def empty_dir_def Let_def
      flush_inv_def unsynced_def split: if_splits)

interpretation flush_machine: invariant_machine "pipe_start rc" pipe_step "\<lambda>p. flush_inv (p_w p) (p_fs p)" for rc
  by unfold_locales (auto intro: flush_inv_start flush_inv_step)

section \<open>Two defects of the reader\<close>

lemma decode_nil [simp]: "decodeFrame [] = Inl ErrIncompleteFrame"
  by (simp add: decodeFrame_def headerLen_def)

lemma full_fill:
  assumes "sr_f r = Some i" "ents fs (segName (sr_cur r)) = Some i" "re_reopen env" "re_stat env"
    "length (blocks fs i) \<le> re_size env" "length (blocks fs i) \<le> re_read env"
    "sr_off r < length (blocks fs i)"
  shows "fill env fs r = (Inr True, r\<lparr> sr_buf := sr_buf r @ drop (sr_off r) (blocks fs i),
    sr_off := length (blocks fs i) \<rparr>)"
proof -
  have r: "r\<lparr> sr_f := Some i \<rparr> = r" using assms(1) by (metis segReader.surjective segReader.update_convs(3))
  have m: "min (re_size env) (length (blocks fs i)) = length (blocks fs i)"
    "min (re_read env) (length (blocks fs i) - sr_off r) = length (blocks fs i) - sr_off r"
    using assms(5,6) by auto
  show ?thesis using assms(1-4,7) by (auto simp: fill_def reopen_fails_def m r Let_def)
qed

text \<open>
  On a network filesystem a reopen that fails between two frames loses the read offset: the
  file is opened again at offset 0 and its frames are returned a second time.
\<close>

theorem reopen_redelivers:
  assumes g: "frame_ok g" "frame_typ g \<noteq> frameROLL"
    and fs: "ents fs (segName n) = Some i" "blocks fs i = encode g"
    and r: "r = \<lparr> sr_netFS = True, sr_cur = n, sr_f = Some i, sr_off = length (encode g), sr_buf = [] \<rparr>"
    and lost: "\<not> re_reopen lost"
    and ok: "re_open env" "re_reopen env" "re_stat env" "length (encode g) \<le> re_size env"
      "length (encode g) \<le> re_read env"
  shows "next_iter lost fs r = (Ret (Inl EIncomplete), r\<lparr> sr_f := None \<rparr>) \<and>
    seg_next (\<lambda>_. env) (\<lambda>_. fs) t (r\<lparr> sr_f := None \<rparr>) = Some (Inr g, r)"
proof
  show "next_iter lost fs r = (Ret (Inl EIncomplete), r\<lparr> sr_f := None \<rparr>)"
    using lost by (simp add: next_iter_def next_decode_def fill_def reopen_fails_def r)
  have l: "0 < length (encode g)" by (simp add: length_encode)
  let ?r0 = "r\<lparr> sr_off := 0 \<rparr>" and ?r1 = "r\<lparr> sr_buf := encode g \<rparr>"
  have f: "fill env fs ?r0 = (Inr True, ?r1)"
    using full_fill [of ?r0 i fs env] fs ok l by (simp add: r)
  have 1: "next_iter env fs (r\<lparr> sr_f := None \<rparr>) = (Again, ?r1)"
    using fs ok f by (simp add: next_iter_def openWait_def next_decode_def r)
  have 2: "next_iter env fs ?r1 = (Ret (Inr g), r)"
    using decode_encode [OF g(1), of "[]"] g(2) by (simp add: next_iter_def next_decode_def r Let_def)
  show "seg_next (\<lambda>_. env) (\<lambda>_. fs) t (r\<lparr> sr_f := None \<rparr>) = Some (Inr g, r)"
    by (simp add: seg_next.simps [of _ _ t] seg_next.simps [of _ _ "Suc t"] 1 2)
qed

text \<open>The states of the reader in a segment whose ROLL frame names the segment itself.\<close>

definition roll_loop :: "uint32 \<Rightarrow> nat \<Rightarrow> segReader \<Rightarrow> bool" where
  "roll_loop n i r \<longleftrightarrow> sr_cur r = n \<and>
     (sr_f r = None \<and> sr_buf r = [] \<or> sr_f r = Some i \<and> sr_buf r = encode (rollFrame n))"

lemma roll_loop_iter:
  assumes "roll_loop n i r" and fs: "ents fs (segName n) = Some i" "blocks fs i = encode (rollFrame n)"
    and ok: "re_open env" "re_reopen env" "re_stat env"
      "length (blocks fs i) \<le> re_size env" "length (blocks fs i) \<le> re_read env"
  shows "\<exists>r'. next_iter env fs r = (Again, r') \<and> roll_loop n i r'"
proof (cases "sr_f r")
  case None
  let ?r = "r\<lparr> sr_f := Some i, sr_off := 0 \<rparr>"
  have c: "sr_cur r = n" "sr_buf r = []" using assms(1) None by (auto simp: roll_loop_def)
  have "fill env fs ?r = (Inr True, ?r\<lparr> sr_buf := encode (rollFrame n), sr_off := length (blocks fs i) \<rparr>)"
    using full_fill [of ?r i fs env] fs ok c by (simp add: length_encode)
  then show ?thesis using None c fs(1) ok(1)
    by (simp add: next_iter_def openWait_def next_decode_def roll_loop_def)
next
  case (Some j)
  then have c: "sr_cur r = n" "sr_buf r = encode (rollFrame n)" using assms(1) by (auto simp: roll_loop_def)
  show ?thesis using decode_encode [OF frame_ok_rollFrame, of n "[]"] Some c
    by (simp add: next_iter_def next_decode_def Let_def advance_def roll_loop_def)
       (simp add: rollFrame_def advance_def)
qed

text \<open>
  A segment whose ROLL frame names the segment itself keeps \<open>next\<close> in its loop for ever: it
  never returns, so the receive loop never sees that the connection was closed.
\<close>

theorem roll_loop_diverges:
  assumes fs: "ents fs (segName n) = Some i" "blocks fs i = encode (rollFrame n)"
    and ok: "\<And>t. re_open (env t)" "\<And>t. re_reopen (env t)" "\<And>t. re_stat (env t)"
      "\<And>t. length (blocks fs i) \<le> re_size (env t)" "\<And>t. length (blocks fs i) \<le> re_read (env t)"
    and r: "roll_loop n i r"
  shows "seg_next env (\<lambda>_. fs) t r = None"
proof -
  have "e = env \<longrightarrow> f = (\<lambda>_. fs) \<longrightarrow> \<not> roll_loop n i r" if "seg_next e f t r = Some y" for e f t r y
  proof (rule seg_next.raw_induct [OF _ that])
    fix sn e f t r y
    assume IH: "\<And>e f t r y. sn e f t r = Some y \<Longrightarrow> e = env \<longrightarrow> f = (\<lambda>_. fs) \<longrightarrow> \<not> roll_loop n i r"
      and eq: "(case next_iter (e t) (f t) r of (Ret x, r') \<Rightarrow> Some (x, r')
        | (Again, r') \<Rightarrow> sn e f (Suc t) r') = Some y"
    show "e = env \<longrightarrow> f = (\<lambda>_. fs) \<longrightarrow> \<not> roll_loop n i r"
    proof (intro impI notI)
      assume "e = env" "f = (\<lambda>_. fs)" "roll_loop n i r"
      with roll_loop_iter [OF _ fs ok, of r t] eq obtain r' where
        "roll_loop n i r'" "sn e f (Suc t) r' = Some y" by auto
      then show False using IH \<open>e = env\<close> \<open>f = (\<lambda>_. fs)\<close> by blast
    qed
  qed
  then show ?thesis using r by (cases "seg_next env (\<lambda>_. fs) t r") auto
qed

section \<open>A run\<close>

text \<open>A run in which one frame is appended, read and returned, for every configuration.\<close>

definition open_env :: "fsdir \<Rightarrow> read_env" where
  "open_env fs = \<lparr> re_open = True, re_reopen = True, re_stat = True,
     re_size = length (blocks fs 0), re_read = length (blocks fs 0) \<rparr>"

definition run_fs :: "frame list \<Rightarrow> fsdir" where
  "run_fs gs = \<lparr> ents = [segName 0 \<mapsto> 0], blocks = (\<lambda>_. [])(0 := encode_all gs),
     synced = (\<lambda>_. 0), nextIno = 1 \<rparr>"

definition run_writer :: "resolvedConfig \<Rightarrow> frame list \<Rightarrow> segWriter" where
  "run_writer rc gs = \<lparr> sw_maxSeg = rc_segmentSize rc, sw_syncEnb = False, sw_netFS = rc_netFS rc,
     sw_cur = 0, sw_f = Some 0, sw_size = int (length (encode_all gs)), sw_closed = False,
     sw_reapOff = [], sw_flushTimer = (rc_netFS rc \<and> gs \<noteq> []) \<rparr>"

definition run_reader :: "resolvedConfig \<Rightarrow> frame list \<Rightarrow> byte list \<Rightarrow> segReader" where
  "run_reader rc gs buf = \<lparr> sr_netFS = rc_netFS rc, sr_cur = 0, sr_f = Some 0,
     sr_off = length (encode_all gs), sr_buf = buf \<rparr>"

definition run_pipe :: "resolvedConfig \<Rightarrow> frame list \<Rightarrow> segReader \<Rightarrow> frame list \<Rightarrow> pipe" where
  "run_pipe rc gs r got = \<lparr> p_fs = run_fs gs, p_w = run_writer rc gs, p_r = r, p_sent = gs, p_got = got \<rparr>"

lemmas run_defs = run_fs_def run_writer_def run_reader_def run_pipe_def open_env_def

lemma run_start: "\<not> rc_sync rc \<Longrightarrow> pipe_start rc (run_pipe rc [] (newSegReader (rc_netFS rc)) [])"
  by (simp add: pipe_start_def newSegWriter_def openCur_def fs_create_def empty_dir_def Let_def run_defs fun_eq_iff)

lemma run_append:
  assumes "\<not> rc_sync rc" "frame_ok g" "frame_typ g \<noteq> frameROLL"
  shows "reach (pipe_start rc) pipe_step (run_pipe rc [g] (newSegReader (rc_netFS rc)) [])"
proof -
  let ?p = "run_pipe rc [] (newSegReader (rc_netFS rc)) []"
  let ?io = "\<lparr> io_roll = WOk, io_open = True, io_write = WOk \<rparr>"
  have "seg_append ?io g 0 (p_w ?p, p_fs ?p) = (None, run_writer rc [g], run_fs [g])"
    by (simp add: seg_append_def file_write_def fs_write_def armFlushLocked_def Let_def run_defs)
  from pipe_step.p_append [OF _ _ assms(2,3) _ this] show ?thesis
    using reach_step [OF reach_start [of "pipe_start rc"], OF run_start [OF assms(1)]]
    by (simp add: clean_def run_defs)
qed

lemma run_read:
  assumes "\<not> rc_sync rc" "frame_ok g" "frame_typ g \<noteq> frameROLL"
  shows "reach (pipe_start rc) pipe_step (run_pipe rc [g] (run_reader rc [g] []) [g])"
proof -
  let ?p0 = "run_pipe rc [g] (newSegReader (rc_netFS rc)) []"
  let ?p1 = "run_pipe rc [g] (run_reader rc [g] (encode g)) []"
  let ?e = "open_env (run_fs [g])"
  let ?r = "(newSegReader (rc_netFS rc))\<lparr> sr_f := Some 0, sr_off := 0 \<rparr>"
  have l: "0 < length (encode g)" by (simp add: length_encode)
  have "fill ?e (run_fs [g]) ?r = (Inr True, run_reader rc [g] (encode g))"
    by (subst full_fill [of _ 0]) (use l in \<open>simp_all add: run_defs newSegReader_def\<close>)
  then have 1: "next_iter ?e (p_fs ?p0) (p_r ?p0) = (Again, run_reader rc [g] (encode g))"
    by (simp add: next_iter_def openWait_def next_decode_def run_pipe_def newSegReader_def)
      (simp add: run_defs next_decode_def)
  have 2: "next_iter ?e (p_fs ?p1) (p_r ?p1) = (Ret (Inr g), run_reader rc [g] [])"
    using decode_encode [OF assms(2), of "[]"] assms(3)
    by (simp add: next_iter_def next_decode_def run_defs Let_def)
  have s: "stable_view ?e (p_fs ?p0) (p_r ?p0)" "stable_view ?e (p_fs ?p1) (p_r ?p1)"
    by (simp_all add: stable_view_def run_defs newSegReader_def)
  have "pipe_step ?p0 ?p1" using pipe_step.p_read [OF s(1) 1] by (simp add: deliver_def run_pipe_def)
  moreover have "pipe_step ?p1 (run_pipe rc [g] (run_reader rc [g] []) [g])"
    using pipe_step.p_read [OF s(2) 2] by (simp add: deliver_def run_pipe_def)
  ultimately show ?thesis using run_append [OF assms] by (blast intro: reach_step)
qed


section \<open>Properties\<close>

definition demo_rc :: resolvedConfig where
  "demo_rc = \<lparr> rc_pollInterval = 1, rc_pollMax = 4, rc_flushInterval = 1, rc_netFS = True,
     rc_heartbeat = 1, rc_idleTimeout = 9, rc_handshakeTimeout = 9, rc_segmentSize = 100,
     rc_sync = False, rc_ageSweepInterval = 0, rc_ageSweepThreshold = 0 \<rparr>"

definition demo_frame :: frame where
  "demo_frame = \<lparr> frame_typ = frameDATA, frame_flags = 0, frame_seq = 1, frame_dataOff = 0,
     frame_payload = [104, 105] \<rparr>"

lemma demo_ok: "\<not> rc_sync demo_rc" "frame_ok demo_frame" "frame_typ demo_frame \<noteq> frameROLL"
  by (simp_all add: demo_rc_def demo_frame_def frame_ok_def maxPayload_def frame_types)

theorem reopen_redelivers_witness:
  "\<exists>lost env fs r. r = \<lparr> sr_netFS = True, sr_cur = 0, sr_f = Some 0, sr_off = length (encode demo_frame), sr_buf = [] \<rparr> \<and>
     next_iter lost fs r = (Ret (Inl EIncomplete), r\<lparr> sr_f := None \<rparr>) \<and>
     seg_next (\<lambda>_. env) (\<lambda>_. fs) 0 (r\<lparr> sr_f := None \<rparr>) = Some (Inr demo_frame, r)"
  using reopen_redelivers [OF demo_ok(2,3), of "run_fs [demo_frame]" 0 0
      "run_reader demo_rc [demo_frame] []" "(open_env (run_fs []))\<lparr> re_reopen := False \<rparr>"
      "open_env (run_fs [demo_frame])" 0]
  by (intro exI) (rule conjI [OF refl], simp add: run_defs demo_rc_def)

theorem roll_loop_diverges_witness:
  "\<exists>env. seg_next env (\<lambda>_. run_fs [rollFrame 0]) 0 (newSegReader False) = None"
  using roll_loop_diverges [of "run_fs [rollFrame 0]" 0 0 "\<lambda>_. open_env (run_fs [rollFrame 0])"
      "newSegReader False" 0]
  by (intro exI [of _ "\<lambda>_. open_env (run_fs [rollFrame 0])"])
    (simp add: run_defs roll_loop_def newSegReader_def)

text \<open>
  C1. In every interleaving of appends (with rolls, and with writes that append all or
  nothing), flushes, reaps and reads under any partial view of the files in which a reopened
  segment is found again, the frames the reader has returned are a prefix of the frames appended:
  nothing is lost, reordered, duplicated or invented.
\<close>

theorem pipe_delivers_prefix:
  "reach (pipe_start rc) pipe_step p \<Longrightarrow> prefix (p_got p) (p_sent p)"
  by (rule pipe_inv_prefix, rule pipe_machine.reach_inv)

theorem pipe_delivers_prefix_witness:
  "\<exists>p. reach (pipe_start demo_rc) pipe_step p \<and> p_got p = [demo_frame] \<and> prefix (p_got p) (p_sent p)"
  using run_read [OF demo_ok] pipe_delivers_prefix [OF run_read [OF demo_ok]]
  by (intro exI [of _ "run_pipe demo_rc [demo_frame] (run_reader demo_rc [demo_frame] []) [demo_frame]"])
    (simp add: run_pipe_def)

text \<open>
  A reader that follows a correct writer never takes a partial or torn view of a segment for
  damage: no iteration reports a corrupt frame or a malformed ROLL.
\<close>

theorem pipe_no_false_corruption:
  "reach (pipe_start rc) pipe_step p \<Longrightarrow> stable_view env (p_fs p) (p_r p) \<Longrightarrow>
   fst (next_iter env (p_fs p) (p_r p)) \<notin> {Ret (Inl ECorrupt), Ret (Inl EBadRoll)}"
proof -
  assume "reach (pipe_start rc) pipe_step p" and st: "stable_view env (p_fs p) (p_r p)"
  then obtain segs inos where "writer_inv segs inos (p_w p) (p_fs p) (p_sent p)"
    "reader_inv segs inos (unat (sw_cur (p_w p))) (p_r p) (p_got p)"
    by (blast elim: reach_pipe)
  from next_iter_inv [OF this(1) refl this(2) st prod.collapse [symmetric]] show ?thesis
    by (auto simp: benign_def)
qed

theorem pipe_no_false_corruption_witness:
  "\<exists>p env. reach (pipe_start demo_rc) pipe_step p \<and> stable_view env (p_fs p) (p_r p) \<and>
     p_sent p = [demo_frame] \<and> re_size env = 7 \<and>
     fst (next_iter env (p_fs p) (p_r p)) \<notin> {Ret (Inl ECorrupt), Ret (Inl EBadRoll)}"
proof -
  let ?p = "run_pipe demo_rc [demo_frame] (newSegReader (rc_netFS demo_rc)) []"
  let ?e = "\<lparr> re_open = True, re_reopen = True, re_stat = True, re_size = 7, re_read = 7 \<rparr>"
  have s: "stable_view ?e (p_fs ?p) (p_r ?p)"
    by (simp add: stable_view_def run_pipe_def newSegReader_def)
  show ?thesis
    using run_append [OF demo_ok] s pipe_no_false_corruption [OF run_append [OF demo_ok] s]
    by (intro exI [of _ ?p] exI [of _ ?e]) (simp add: run_pipe_def)
qed

text \<open>
  C30. When everything appended is visible and no unread segment has been removed, \<open>next\<close> returns:
  the next unread frame if there is one, and otherwise that the reader has to wait. In
  particular its loop terminates.
\<close>

theorem pipe_next_returns:
  "reach (pipe_start rc) pipe_step p \<Longrightarrow> (\<And>t. full_view (env t) (p_fs p) (p_w p) (p_r p)) \<Longrightarrow>
   \<exists>x r'. seg_next env (\<lambda>_. p_fs p) t (p_r p) = Some (x, r') \<and>
     (if p_got p = p_sent p then x \<in> {Inl EIncomplete, Inl ENotExist}
      else x = Inr (p_sent p ! length (p_got p)))"
proof -
  assume "reach (pipe_start rc) pipe_step p" and v: "\<And>t. full_view (env t) (p_fs p) (p_w p) (p_r p)"
  then obtain segs inos where "writer_inv segs inos (p_w p) (p_fs p) (p_sent p)"
    "reader_inv segs inos (unat (sw_cur (p_w p))) (p_r p) (p_got p)"
    by (blast elim: reach_pipe)
  from seg_next_full [where env = env and t = t, OF this(1) v this(2)] show ?thesis
    by (cases "p_got p = p_sent p") auto
qed

theorem pipe_next_returns_witness:
  "\<exists>p r'. reach (pipe_start demo_rc) pipe_step p \<and>
     full_view (open_env (p_fs p)) (p_fs p) (p_w p) (p_r p) \<and>
     seg_next (\<lambda>_. open_env (p_fs p)) (\<lambda>_. p_fs p) 0 (p_r p) = Some (Inr demo_frame, r')"
proof -
  let ?p = "run_pipe demo_rc [demo_frame] (newSegReader (rc_netFS demo_rc)) []"
  have v: "full_view (open_env (p_fs ?p)) (p_fs ?p) (p_w ?p) (p_r ?p)"
    by (simp add: full_view_def run_defs newSegReader_def)
  from pipe_next_returns [OF run_append [OF demo_ok], of "\<lambda>_. open_env (p_fs ?p)" 0, OF v]
  obtain r' where "seg_next (\<lambda>_. open_env (p_fs ?p)) (\<lambda>_. p_fs ?p) 0 (p_r ?p) = Some (Inr demo_frame, r')"
    by (auto simp: run_pipe_def)
  then show ?thesis using run_append [OF demo_ok] v by blast
qed

text \<open>
  On a network filesystem every byte appended is on the backing store or is covered by an armed
  flush of the open segment; a closed writer and every rolled segment have nothing pending. With
  per-append syncing nothing is ever pending.
\<close>

theorem pipe_flush_pending:
  "reach (pipe_start rc) pipe_step p \<Longrightarrow> synced (p_fs p) i < length (blocks (p_fs p) i) \<Longrightarrow>
   (if sw_netFS (p_w p) then sw_f (p_w p) = Some i \<and> sw_flushTimer (p_w p) \<and> \<not> sw_closed (p_w p)
    else \<not> sw_syncEnb (p_w p))"
  using flush_machine.reach_inv [of rc p] by (auto simp: flush_inv_def unsynced_def)

theorem pipe_flush_pending_witness:
  "\<exists>p. reach (pipe_start demo_rc) pipe_step p \<and> synced (p_fs p) 0 < length (blocks (p_fs p) 0) \<and>
     sw_netFS (p_w p) \<and> sw_flushTimer (p_w p)"
proof -
  let ?p = "run_pipe demo_rc [demo_frame] (newSegReader (rc_netFS demo_rc)) []"
  have s: "synced (p_fs ?p) 0 < length (blocks (p_fs ?p) 0)" by (simp add: run_defs length_encode)
  have n: "sw_netFS (p_w ?p)" by (simp add: run_defs demo_rc_def)
  show ?thesis
    using pipe_flush_pending [OF run_append [OF demo_ok] s] run_append [OF demo_ok] s n
    by (intro exI [of _ ?p]) simp
qed

end
