(* ===== verification/Fstun_Conn.thy ===== *)
theory Fstun_Conn
  imports Fstun_Pipe
begin

text \<open>
  The filesystem connection (\<open>transport/fstun/conn.go\<close>): flow control, acknowledgements, the
  receive and maintenance loops, \<open>Read\<close>, \<open>Write\<close> and \<open>Close\<close>. The mutable state of a \<open>Conn\<close>
  without its segment writer and reader is the record \<open>conn\<close>; operations that append or reap
  take the writer's state as well.

  The goroutines of a connection (the caller of \<open>Read\<close>, the caller of \<open>Write\<close>, the caller of
  \<open>Close\<close>, the receive loop and the maintenance loop) interleave at every lock: an operation is
  the sequence of its critical sections, and where a goroutine stands between two of them is part
  of the state. There is one reader and one writer at a time, as the contract of \<open>net.Conn\<close> says.
  Times are integers counting nanoseconds; a zero deadline is \<open>None\<close>.
\<close>

section \<open>State\<close>

datatype role = RoleInitiator | RoleAcceptor

definition sendDir :: "role \<Rightarrow> string" where
  "sendDir r = (case r of RoleInitiator \<Rightarrow> ''c2s'' | RoleAcceptor \<Rightarrow> ''s2c'')"

definition recvDir :: "role \<Rightarrow> string" where
  "recvDir r = (case r of RoleInitiator \<Rightarrow> ''s2c'' | RoleAcceptor \<Rightarrow> ''c2s'')"

datatype conn_error =
    ConnClosed | ConnTimeout | PeerError "byte list" | PeerErrorUnnamed | ReaderError next_error
  | PeerIdle | WriteError seg_error

record conn =
  k_params :: synParams
  k_sendSeq :: uint64
  k_sentData :: uint64
  k_peerAck :: uint64
  k_lastAckSent :: uint64
  k_sendClosed :: bool
  k_recvBuf :: "byte list"
  k_recvData :: uint64
  k_recvEOF :: bool
  k_recvErr :: "conn_error option"
  k_dataSig :: bool
  k_flowSig :: bool
  k_rdDdl :: "int option"
  k_wrDdl :: "int option"
  k_lastRecv :: int
  k_closed :: bool
  k_recvDone :: bool
  k_dead :: bool

definition newConn :: "synParams \<Rightarrow> uint64 \<Rightarrow> int \<Rightarrow> conn" where
  "newConn params sendSeq now =
     \<lparr> k_params = params, k_sendSeq = sendSeq, k_sentData = 0, k_peerAck = 0, k_lastAckSent = 0,
       k_sendClosed = False, k_recvBuf = [], k_recvData = 0, k_recvEOF = False, k_recvErr = None,
       k_dataSig = False, k_flowSig = False, k_rdDdl = None, k_wrDdl = None, k_lastRecv = now,
       k_closed = False, k_recvDone = False, k_dead = False \<rparr>"

section \<open>Signals and deadlines\<close>

definition wake :: "conn \<Rightarrow> conn" where
  "wake c = c\<lparr> k_dataSig := True, k_flowSig := True \<rparr>"

definition setDeadline :: "int option \<Rightarrow> conn \<Rightarrow> conn" where
  "setDeadline t c = wake (c\<lparr> k_rdDdl := t, k_wrDdl := t \<rparr>)"

definition setReadDeadline :: "int option \<Rightarrow> conn \<Rightarrow> conn" where
  "setReadDeadline t c = wake (c\<lparr> k_rdDdl := t \<rparr>)"

definition setWriteDeadline :: "int option \<Rightarrow> conn \<Rightarrow> conn" where
  "setWriteDeadline t c = wake (c\<lparr> k_wrDdl := t \<rparr>)"

text \<open>Whether the timer of \<open>deadline\<close> has fired at a given time.\<close>

definition deadline :: "bool \<Rightarrow> int \<Rightarrow> conn \<Rightarrow> bool" where
  "deadline read now c =
     (case (if read then k_rdDdl c else k_wrDdl c) of None \<Rightarrow> False | Some d \<Rightarrow> d \<le> now)"

definition markDead :: "conn \<Rightarrow> conn" where
  "markDead c = c\<lparr> k_dead := True \<rparr>"

definition failRecv :: "conn_error \<Rightarrow> conn \<Rightarrow> conn" where
  "failRecv e c =
     markDead (wake (c\<lparr> k_recvErr := (case k_recvErr c of None \<Rightarrow> Some e | Some e' \<Rightarrow> Some e') \<rparr>))"

section \<open>Sending\<close>

definition emit :: "seg_io \<Rightarrow> frameType \<Rightarrow> byte list \<Rightarrow> conn \<times> wstate \<Rightarrow> conn_error option \<times> conn \<times> wstate" where
  "emit io typ payload = (\<lambda>(c, ws).
     if k_sendClosed c \<and> typ \<noteq> frameFIN \<and> typ \<noteq> frameError then (Some ConnClosed, c, ws)
     else
       let f = \<lparr> frame_typ = typ, frame_flags = 0, frame_seq = k_sendSeq c,
                 frame_dataOff = k_sentData c, frame_payload = payload \<rparr>;
           c1 = c\<lparr> k_sendSeq := k_sendSeq c + 1,
                   k_sentData := (if typ = frameDATA then k_sentData c + word_of_nat (length payload)
                                  else k_sentData c) \<rparr>;
           (e, ws') = seg_append io f (k_sentData c1) ws
       in (map_option WriteError e, c1, ws'))"

text \<open>
  One look of \<open>waitSendWindow\<close> at the state: an error, room, or nothing yet. The difference of
  the two \<open>int64\<close> values is the signed value of the difference of the words.
\<close>

definition send_room :: "conn \<Rightarrow> int" where
  "send_room c = sint (syn_window (k_params c) - (k_sentData c - k_peerAck c))"

definition waitSendWindow :: "conn \<Rightarrow> (conn_error + int) option" where
  "waitSendWindow c =
     (case k_recvErr c of
        Some e \<Rightarrow> Some (Inl e)
      | None \<Rightarrow> if k_sendClosed c then Some (Inl ConnClosed)
                else if send_room c > 0 then Some (Inr (send_room c)) else None)"

text \<open>The size of the next frame of a \<open>Write\<close> with \<open>len\<close> bytes left.\<close>

definition chunk_size :: "conn \<Rightarrow> nat \<Rightarrow> int \<Rightarrow> nat" where
  "chunk_size c len room =
     (let n = (if int len > room then nat room else len)
      in if n > unat (syn_maxFrame (k_params c)) then unat (syn_maxFrame (k_params c)) else n)"

text \<open>
  Where a \<open>Write\<close> stands: waiting for the window with the bytes left and the bytes written, or
  granted a chunk of a given size. A call that ends returns the count and possibly an error.
\<close>

datatype write_pc =
    WIdle
  | WWait "byte list" nat
  | WGrant nat "byte list" nat
  | WRet nat "conn_error option"

definition write_begin :: "byte list \<Rightarrow> write_pc" where
  "write_begin p = (if p = [] then WRet 0 None else WWait p 0)"

definition write_look :: "conn \<Rightarrow> write_pc \<Rightarrow> write_pc" where
  "write_look c pc =
     (case pc of
        WWait p cnt \<Rightarrow>
          (case waitSendWindow c of
             None \<Rightarrow> pc
           | Some (Inl e) \<Rightarrow> WRet cnt (Some e)
           | Some (Inr room) \<Rightarrow> WGrant (chunk_size c (length p) room) p cnt)
      | _ \<Rightarrow> pc)"

text \<open>The select of \<open>waitSendWindow\<close>: a signal lets it look again, the others end the call.\<close>

datatype wake_event = WakeSignal | WakeTimer int | WakeClosed

definition write_wake :: "wake_event \<Rightarrow> conn \<Rightarrow> write_pc \<Rightarrow> conn \<times> write_pc" where
  "write_wake ev c pc =
     (case pc of
        WWait p cnt \<Rightarrow>
          (case ev of
             WakeSignal \<Rightarrow> if k_flowSig c then (c\<lparr> k_flowSig := False \<rparr>, write_look c pc) else (c, pc)
           | WakeTimer now \<Rightarrow> if deadline False now c then (c, WRet cnt (Some ConnTimeout)) else (c, pc)
           | WakeClosed \<Rightarrow> if k_closed c then (c, WRet cnt (Some ConnClosed)) else (c, pc))
      | _ \<Rightarrow> (c, pc))"

definition write_emit :: "seg_io \<Rightarrow> conn \<times> wstate \<Rightarrow> write_pc \<Rightarrow> (conn \<times> wstate) \<times> write_pc" where
  "write_emit io cw pc =
     (case pc of
        WGrant n p cnt \<Rightarrow>
          (case emit io frameDATA (take n p) cw of
             (Some e, cw') \<Rightarrow> (cw', WRet cnt (Some e))
           | (None, cw') \<Rightarrow> (cw', if drop n p = [] then WRet (cnt + n) None else WWait (drop n p) (cnt + n)))
      | _ \<Rightarrow> (cw, pc))"

section \<open>Acknowledgements\<close>

text \<open>
  The steps of an acknowledgement, taken by \<open>Read\<close> (\<open>maybeAck\<close>) and by the maintenance loop: the
  count is read, it is compared with the last one sent, an ACK is emitted, and the count is noted.
\<close>

datatype ack_pc = AIdle | ASnap uint64 | ASend uint64 | ASent uint64

definition maybeAck_due :: "uint64 \<Rightarrow> conn \<Rightarrow> bool" where
  "maybeAck_due rd c \<longleftrightarrow> syn_window (k_params c) div 4 \<le> rd - k_lastAckSent c"

definition maint_due :: "uint64 \<Rightarrow> conn \<Rightarrow> bool" where
  "maint_due rd c \<longleftrightarrow> k_lastAckSent c < rd"

definition sendAck :: "seg_io \<Rightarrow> uint64 \<Rightarrow> conn \<times> wstate \<Rightarrow> conn_error option \<times> conn \<times> wstate" where
  "sendAck io upTo cw = emit io frameACK (encodeUint64 upTo) cw"

definition sendAck_note :: "uint64 \<Rightarrow> conn \<Rightarrow> conn" where
  "sendAck_note upTo c = (if k_lastAckSent c < upTo then c\<lparr> k_lastAckSent := upTo \<rparr> else c)"

section \<open>Receiving\<close>

datatype read_result = RBytes "byte list" | RError conn_error | REOF | RWait

text \<open>One look of \<open>Read\<close> with a buffer of \<open>n\<close> bytes at the state.\<close>

definition read_look :: "nat \<Rightarrow> conn \<Rightarrow> read_result \<times> conn" where
  "read_look n c =
     (if k_recvBuf c \<noteq> []
      then let got = take n (k_recvBuf c)
           in (RBytes got, c\<lparr> k_recvBuf := drop n (k_recvBuf c),
                              k_recvData := k_recvData c + word_of_nat (length got) \<rparr>)
      else case k_recvErr c of
             Some e \<Rightarrow> (RError e, c)
           | None \<Rightarrow> if k_recvEOF c then (REOF, c) else (RWait, c))"

definition read_wake :: "wake_event \<Rightarrow> nat \<Rightarrow> conn \<Rightarrow> read_result \<times> conn" where
  "read_wake ev n c =
     (case ev of
        WakeSignal \<Rightarrow> if k_dataSig c then read_look n (c\<lparr> k_dataSig := False \<rparr>) else (RWait, c)
      | WakeTimer now \<Rightarrow> if deadline True now c then (RError ConnTimeout, c) else (RWait, c)
      | WakeClosed \<Rightarrow> if k_closed c then (RError ConnClosed, c) else (RWait, c))"

text \<open>
  \<open>dispatch\<close> up to the reap: the result tells the offset to reap at, for an ACK. The reap itself
  and the signal after it are \<open>dispatch_reap\<close>.
\<close>

definition dispatch :: "frame \<Rightarrow> conn \<Rightarrow> conn \<times> uint64 option" where
  "dispatch f c =
     (if frame_typ f = frameDATA
      then (c\<lparr> k_recvBuf := k_recvBuf c @ frame_payload f, k_dataSig := True \<rparr>, None)
      else if frame_typ f = frameACK
      then (case decodeUint64 (frame_payload f) of
              None \<Rightarrow> (c, None)
            | Some v \<Rightarrow> let c' = (if k_peerAck c < v then c\<lparr> k_peerAck := v \<rparr> else c)
                        in (c', Some (k_peerAck c')))
      else if frame_typ f = frameFIN then (c\<lparr> k_recvEOF := True, k_dataSig := True \<rparr>, None)
      else if frame_typ f = frameError
      then (failRecv (if frame_payload f = [] then PeerErrorUnnamed else PeerError (frame_payload f)) c, None)
      else (c, None))"

definition dispatch_reap :: "uint64 \<Rightarrow> conn \<times> wstate \<Rightarrow> conn \<times> wstate" where
  "dispatch_reap ack = (\<lambda>(c, ws). (c\<lparr> k_flowSig := True \<rparr>, reap ack ws))"

text \<open>
  The receive loop. It waits for the peer's SYN (\<open>waitSYN\<close>, before the connection is made), polls
  the reader, dispatches a frame, reaps after an ACK, and stops when the connection is closed,
  fails, or the peer signals an error. What \<open>next\<close> returns decides how it goes on.
\<close>

datatype recv_pc = LSyn | LPoll | LGot frame | LReap uint64 | LStop

definition recv_returned :: "next_error + frame \<Rightarrow> int \<Rightarrow> conn \<Rightarrow> conn \<times> recv_pc" where
  "recv_returned x now c =
     (case x of
        Inr f \<Rightarrow> (c\<lparr> k_lastRecv := now \<rparr>, LGot f)
      | Inl e \<Rightarrow> if e = EIncomplete \<or> e = ENotExist then (c, LPoll)
                 else ((failRecv (ReaderError e) c)\<lparr> k_recvDone := True \<rparr>, LStop))"

definition recv_dispatch :: "frame \<Rightarrow> conn \<Rightarrow> conn \<times> recv_pc" where
  "recv_dispatch f c =
     (case dispatch f c of
        (c', Some ack) \<Rightarrow> (c', LReap ack)
      | (c', None) \<Rightarrow> if frame_typ f = frameError then (c'\<lparr> k_recvDone := True \<rparr>, LStop) else (c', LPoll))"

definition recv_closed :: "conn \<Rightarrow> conn \<times> recv_pc" where
  "recv_closed c = (c\<lparr> k_recvDone := True \<rparr>, LStop)"

text \<open>The interval the loop waits after an empty check, and after a frame.\<close>

definition poll_backoff :: "resolvedConfig \<Rightarrow> int \<Rightarrow> int" where
  "poll_backoff rc cur =
     (if cur < rc_pollMax rc then (if cur * 2 > rc_pollMax rc then rc_pollMax rc else cur * 2) else cur)"

section \<open>Maintenance\<close>

text \<open>
  A tick of \<open>maintLoop\<close>: a peer silent for too long fails the pipe; otherwise the loop takes the
  count to acknowledge. The acknowledgement and the heartbeat follow as steps of their own.
\<close>

definition maint_tick :: "resolvedConfig \<Rightarrow> int \<Rightarrow> conn \<Rightarrow> conn \<times> uint64 option" where
  "maint_tick rc now c =
     (if now - k_lastRecv c > rc_idleTimeout rc then (failRecv PeerIdle c, None)
      else (c, Some (k_recvData c)))"

definition maint_heartbeat :: "seg_io \<Rightarrow> int \<Rightarrow> conn \<times> wstate \<Rightarrow> conn_error option \<times> conn \<times> wstate" where
  "maint_heartbeat io now cw = emit io frameHeartbeat (encodeUint64 (word_of_int now)) cw"

section \<open>Close\<close>

text \<open>
  The body of \<open>closeOnce\<close>: the FIN, the send flag, the closed channel, and, once the receive loop
  has stopped, the writer, the reader and the dead mark.
\<close>

datatype close_pc = COpen | CFin | CFlag | CShut | CDone

definition close_fin :: "seg_io \<Rightarrow> conn \<times> wstate \<Rightarrow> conn \<times> wstate" where
  "close_fin io cw = snd (emit io frameFIN [] cw)"

definition close_flag :: "conn \<Rightarrow> conn" where
  "close_flag c = c\<lparr> k_sendClosed := True \<rparr>"

definition close_shut :: "conn \<Rightarrow> conn" where
  "close_shut c = c\<lparr> k_closed := True \<rparr>"

definition close_files :: "conn \<times> wstate \<times> segReader \<Rightarrow> conn \<times> wstate \<times> segReader" where
  "close_files = (\<lambda>(c, ws, r). (markDead c, seg_close ws, reader_close r))"

end
