(* ===== verification/Fstun_Duplex.thy ===== *)
theory Fstun_Duplex
  imports Fstun_Conn
begin

text \<open>
  Two connections over two pipes: every interleaving of the critical sections of the goroutines
  on both ends with the steps of the two segment logs. Ghost components record what the calls of
  \<open>Read\<close> have returned (\<open>ep_in\<close>), the buffer of the current or last call of \<open>Write\<close> (\<open>ep_buf\<close>) and
  the bytes that the calls before it said they had written (\<open>ep_out\<close>).

  The invariant has a local part for each end (what was read and what is buffered is what was
  dispatched, acknowledgements never exceed what was read, the window is respected) and a part
  that relates the ends (an end never believes that its peer has consumed more than it has).
\<close>

section \<open>An end of the pipe\<close>

datatype maint_pc = MIdle | MSnap uint64 | MSend uint64 | MSent uint64 | MBeat | MStop

record endpoint =
  ep_conn :: conn
  ep_live :: bool
  ep_write :: write_pc
  ep_ack :: ack_pc
  ep_maint :: maint_pc
  ep_recv :: recv_pc
  ep_close :: close_pc
  ep_in :: "byte list"
  ep_buf :: "byte list"
  ep_out :: "byte list"

text \<open>\<open>handshake\<close> up to its wait: the first frame of the send direction is the SYN, forced out.\<close>

definition syn_frame :: "synParams \<Rightarrow> frame" where
  "syn_frame p = \<lparr> frame_typ = frameSYN, frame_flags = 0, frame_seq = 0, frame_dataOff = 0,
                   frame_payload = syn_encode p \<rparr>"

definition handshake_send :: "seg_io \<Rightarrow> bool \<Rightarrow> bool \<Rightarrow> resolvedConfig \<Rightarrow> synParams \<Rightarrow> fsdir \<Rightarrow> seg_error + wstate" where
  "handshake_send io mkdir_ok open_ok rc params fs =
     (case newSegWriter mkdir_ok open_ok rc fs of
        Inl e \<Rightarrow> Inl e
      | Inr ws \<Rightarrow>
          (case seg_append io (syn_frame params) 0 ws of
             (Some e, ws') \<Rightarrow> Inl e
           | (None, ws') \<Rightarrow> Inr (syncNow ws')))"

text \<open>
  What an iteration of \<open>waitSYN\<close> makes of a result of \<open>next\<close>: \<open>None\<close> is to wait on, an error ends the dial, and
  the peer's parameters are accepted unless its version is newer.
\<close>

datatype syn_error = NotSyn | BadSyn | SynReader next_error | NewerPeer | SynTimeout | SynCancelled

definition syn_result :: "next_error + frame \<Rightarrow> (syn_error + synParams) option" where
  "syn_result x =
     (case x of
        Inr f \<Rightarrow>
          Some (if frame_typ f \<noteq> frameSYN then Inl NotSyn
                else case decodeSynParams (frame_payload f) of None \<Rightarrow> Inl BadSyn | Some p \<Rightarrow> Inr p)
      | Inl e \<Rightarrow> if e = EIncomplete \<or> e = ENotExist then None else Some (Inl (SynReader e)))"

definition handshake_peer :: "synParams \<Rightarrow> syn_error option" where
  "handshake_peer peer = (if protocolVersion < syn_version peer then Some NewerPeer else None)"

definition syn_accepts :: "next_error + frame \<Rightarrow> bool option" where
  "syn_accepts x =
     map_option (\<lambda>r. case r of Inl e \<Rightarrow> False | Inr p \<Rightarrow> handshake_peer p = None) (syn_result x)"

section \<open>Steps\<close>

text \<open>The frame \<open>emit\<close> makes, and the outgoing pipe after it with the ghost record of what was appended.\<close>

definition emit_frame :: "frameType \<Rightarrow> byte list \<Rightarrow> conn \<Rightarrow> frame" where
  "emit_frame typ payload c = \<lparr> frame_typ = typ, frame_flags = 0, frame_seq = k_sendSeq c,
     frame_dataOff = k_sentData c, frame_payload = payload \<rparr>"

definition emitted :: "frame \<Rightarrow> conn_error option \<Rightarrow> wstate \<Rightarrow> pipe \<Rightarrow> pipe" where
  "emitted f err ws out = out\<lparr> p_w := fst ws, p_fs := snd ws,
     p_sent := (if err = None then p_sent out @ [f] else p_sent out) \<rparr>"

text \<open>The outcomes of the operating system's writes that a step allows, and the segment counter in range.\<close>

definition io_ok :: "seg_io \<Rightarrow> pipe \<Rightarrow> bool" where
  "io_ok io out \<longleftrightarrow> clean (io_roll io) \<and> clean (io_write io) \<and> Suc (unat (sw_cur (p_w out))) < 2 ^ 32"

text \<open>
  The steps of one end, with its outgoing and its incoming pipe. The data counter is 64 bits
  wide; the guard of a data frame keeps it below \<open>2 ^ 63\<close>.
\<close>

inductive end_step :: "endpoint \<times> pipe \<times> pipe \<Rightarrow> endpoint \<times> pipe \<times> pipe \<Rightarrow> bool" where
  e_syn: "ep_recv e = LSyn \<Longrightarrow> stable_view env (p_fs inp) (p_r inp) \<Longrightarrow>
    next_iter env (p_fs inp) (p_r inp) = (x, r') \<Longrightarrow>
    l = (case x of Again \<Rightarrow> None | Ret y \<Rightarrow> syn_accepts y) \<Longrightarrow>
    end_step (e, out, inp)
      (e\<lparr> ep_recv := (case l of None \<Rightarrow> LSyn | Some ok \<Rightarrow> if ok then LPoll else LStop),
          ep_live := (l = Some True) \<rparr>,
       out, inp\<lparr> p_r := r', p_got := deliver (p_got inp) x \<rparr>)"
| e_poll: "ep_live e \<Longrightarrow> ep_recv e = LPoll \<Longrightarrow> stable_view env (p_fs inp) (p_r inp) \<Longrightarrow>
    next_iter env (p_fs inp) (p_r inp) = (x, r') \<Longrightarrow>
    (c', l) = (case x of Again \<Rightarrow> (ep_conn e, LPoll) | Ret y \<Rightarrow> recv_returned y now (ep_conn e)) \<Longrightarrow>
    end_step (e, out, inp)
      (e\<lparr> ep_conn := c', ep_recv := l \<rparr>, out, inp\<lparr> p_r := r', p_got := deliver (p_got inp) x \<rparr>)"
| e_dispatch: "ep_live e \<Longrightarrow> ep_recv e = LGot f \<Longrightarrow> recv_dispatch f (ep_conn e) = (c', l) \<Longrightarrow>
    end_step (e, out, inp) (e\<lparr> ep_conn := c', ep_recv := l \<rparr>, out, inp)"
| e_reap: "ep_live e \<Longrightarrow> ep_recv e = LReap ack \<Longrightarrow>
    dispatch_reap ack (ep_conn e, p_w out, p_fs out) = (c', w', fs') \<Longrightarrow>
    end_step (e, out, inp)
      (e\<lparr> ep_conn := c', ep_recv := LPoll \<rparr>, out\<lparr> p_w := w', p_fs := fs' \<rparr>, inp)"
| e_stop: "ep_live e \<Longrightarrow> ep_recv e = LPoll \<Longrightarrow> k_closed (ep_conn e) \<Longrightarrow> recv_closed (ep_conn e) = (c', l) \<Longrightarrow>
    end_step (e, out, inp) (e\<lparr> ep_conn := c', ep_recv := l \<rparr>, out, inp)"
| e_read: "ep_live e \<Longrightarrow> ep_ack e = AIdle \<Longrightarrow>
    (res, c') = (case ev of None \<Rightarrow> read_look n (ep_conn e) | Some w \<Rightarrow> read_wake w n (ep_conn e)) \<Longrightarrow>
    end_step (e, out, inp)
      (e\<lparr> ep_conn := c', ep_in := (case res of RBytes b \<Rightarrow> ep_in e @ b | _ \<Rightarrow> ep_in e),
          ep_ack := (case res of RBytes b \<Rightarrow> ASnap (k_recvData c') | _ \<Rightarrow> AIdle) \<rparr>, out, inp)"
| e_due: "ep_live e \<Longrightarrow> ep_ack e = ASnap rd \<Longrightarrow>
    end_step (e, out, inp) (e\<lparr> ep_ack := (if maybeAck_due rd (ep_conn e) then ASend rd else AIdle) \<rparr>, out, inp)"
| e_ack: "ep_live e \<Longrightarrow> ep_ack e = ASend rd \<Longrightarrow> io_ok io out \<Longrightarrow>
    sendAck io rd (ep_conn e, p_w out, p_fs out) = (err, c', ws) \<Longrightarrow>
    end_step (e, out, inp)
      (e\<lparr> ep_conn := c', ep_ack := (if err = None then ASent rd else AIdle) \<rparr>,
       emitted (emit_frame frameACK (encodeUint64 rd) (ep_conn e)) err ws out, inp)"
| e_acked: "ep_live e \<Longrightarrow> ep_ack e = ASent rd \<Longrightarrow>
    end_step (e, out, inp) (e\<lparr> ep_conn := sendAck_note rd (ep_conn e), ep_ack := AIdle \<rparr>, out, inp)"
| e_tick: "ep_live e \<Longrightarrow> ep_maint e = MIdle \<Longrightarrow> maint_tick rc now (ep_conn e) = (c', rd) \<Longrightarrow>
    end_step (e, out, inp)
      (e\<lparr> ep_conn := c', ep_maint := (case rd of None \<Rightarrow> MStop | Some v \<Rightarrow> MSnap v) \<rparr>, out, inp)"
| e_mstop: "ep_live e \<Longrightarrow> ep_maint e = MIdle \<Longrightarrow> k_closed (ep_conn e) \<Longrightarrow>
    end_step (e, out, inp) (e\<lparr> ep_maint := MStop \<rparr>, out, inp)"
| e_mdue: "ep_live e \<Longrightarrow> ep_maint e = MSnap rd \<Longrightarrow>
    end_step (e, out, inp) (e\<lparr> ep_maint := (if maint_due rd (ep_conn e) then MSend rd else MBeat) \<rparr>, out, inp)"
| e_mack: "ep_live e \<Longrightarrow> ep_maint e = MSend rd \<Longrightarrow> io_ok io out \<Longrightarrow>
    sendAck io rd (ep_conn e, p_w out, p_fs out) = (err, c', ws) \<Longrightarrow>
    end_step (e, out, inp)
      (e\<lparr> ep_conn := c', ep_maint := (if err = None then MSent rd else MBeat) \<rparr>,
       emitted (emit_frame frameACK (encodeUint64 rd) (ep_conn e)) err ws out, inp)"
| e_macked: "ep_live e \<Longrightarrow> ep_maint e = MSent rd \<Longrightarrow>
    end_step (e, out, inp) (e\<lparr> ep_conn := sendAck_note rd (ep_conn e), ep_maint := MBeat \<rparr>, out, inp)"
| e_beat: "ep_live e \<Longrightarrow> ep_maint e = MBeat \<Longrightarrow> io_ok io out \<Longrightarrow>
    maint_heartbeat io now (ep_conn e, p_w out, p_fs out) = (err, c', ws) \<Longrightarrow>
    end_step (e, out, inp)
      (e\<lparr> ep_conn := c', ep_maint := MIdle \<rparr>,
       emitted (emit_frame frameHeartbeat (encodeUint64 (word_of_int now)) (ep_conn e)) err ws out, inp)"
| e_write: "ep_live e \<Longrightarrow> ep_write e = WIdle \<and> k = 0 \<or> (\<exists>er. ep_write e = WRet k er) \<Longrightarrow>
    end_step (e, out, inp)
      (e\<lparr> ep_write := write_begin bs, ep_buf := bs, ep_out := ep_out e @ take k (ep_buf e) \<rparr>, out, inp)"
| e_window: "ep_live e \<Longrightarrow>
    end_step (e, out, inp) (e\<lparr> ep_write := write_look (ep_conn e) (ep_write e) \<rparr>, out, inp)"
| e_wake: "ep_live e \<Longrightarrow> write_wake ev (ep_conn e) (ep_write e) = (c', pc) \<Longrightarrow>
    end_step (e, out, inp) (e\<lparr> ep_conn := c', ep_write := pc \<rparr>, out, inp)"
| e_data: "ep_live e \<Longrightarrow> ep_write e = WGrant n bs k \<Longrightarrow> io_ok io out \<Longrightarrow>
    unat (k_sentData (ep_conn e)) + n < 2 ^ 63 \<Longrightarrow>
    write_emit io (ep_conn e, p_w out, p_fs out) (ep_write e) = ((c', ws), pc) \<Longrightarrow>
    err = fst (emit io frameDATA (take n bs) (ep_conn e, p_w out, p_fs out)) \<Longrightarrow>
    end_step (e, out, inp)
      (e\<lparr> ep_conn := c', ep_write := pc \<rparr>, emitted (emit_frame frameDATA (take n bs) (ep_conn e)) err ws out, inp)"
| e_close1: "ep_live e \<Longrightarrow> ep_close e = COpen \<Longrightarrow> io_ok io out \<Longrightarrow>
    close_fin io (ep_conn e, p_w out, p_fs out) = (c', ws) \<Longrightarrow>
    err = fst (emit io frameFIN [] (ep_conn e, p_w out, p_fs out)) \<Longrightarrow>
    end_step (e, out, inp)
      (e\<lparr> ep_conn := c', ep_close := CFin \<rparr>, emitted (emit_frame frameFIN [] (ep_conn e)) err ws out, inp)"
| e_close2: "ep_live e \<Longrightarrow> ep_close e = CFin \<Longrightarrow>
    end_step (e, out, inp) (e\<lparr> ep_conn := close_flag (ep_conn e), ep_close := CFlag \<rparr>, out, inp)"
| e_close3: "ep_live e \<Longrightarrow> ep_close e = CFlag \<Longrightarrow>
    end_step (e, out, inp) (e\<lparr> ep_conn := close_shut (ep_conn e), ep_close := CShut \<rparr>, out, inp)"
| e_close4: "ep_live e \<Longrightarrow> ep_close e = CShut \<Longrightarrow> k_recvDone (ep_conn e) \<Longrightarrow>
    close_files (ep_conn e, (p_w out, p_fs out), p_r inp) = (c', (w', fs'), r') \<Longrightarrow>
    end_step (e, out, inp)
      (e\<lparr> ep_conn := c', ep_close := CDone \<rparr>, out\<lparr> p_w := w', p_fs := fs' \<rparr>, inp\<lparr> p_r := r' \<rparr>)"
| e_deadline: "ep_live e \<Longrightarrow> c' \<in> {setDeadline t (ep_conn e), setReadDeadline t (ep_conn e), setWriteDeadline t (ep_conn e)} \<Longrightarrow>
    end_step (e, out, inp) (e\<lparr> ep_conn := c' \<rparr>, out, inp)"
| e_flush: "timedFlush (p_w out, p_fs out) = (w', fs') \<Longrightarrow>
    end_step (e, out, inp) (e, out\<lparr> p_w := w', p_fs := fs' \<rparr>, inp)"

record duplex =
  d_a :: endpoint
  d_b :: endpoint
  d_ab :: pipe
  d_ba :: pipe

inductive duplex_step :: "duplex \<Rightarrow> duplex \<Rightarrow> bool" where
  left: "end_step (d_a d, d_ab d, d_ba d) (a', ab', ba') \<Longrightarrow>
    duplex_step d (d\<lparr> d_a := a', d_ab := ab', d_ba := ba' \<rparr>)"
| right: "end_step (d_b d, d_ba d, d_ab d) (b', ba', ab') \<Longrightarrow>
    duplex_step d (d\<lparr> d_b := b', d_ba := ba', d_ab := ab' \<rparr>)"

text \<open>A run starts when both ends have written their SYN.\<close>

definition new_end :: "synParams \<Rightarrow> int \<Rightarrow> endpoint" where
  "new_end params now = \<lparr> ep_conn = newConn params 1 now, ep_live = False, ep_write = WIdle, ep_ack = AIdle,
     ep_maint = MIdle, ep_recv = LSyn, ep_close = COpen, ep_in = [], ep_buf = [], ep_out = [] \<rparr>"

definition syn_pipe :: "resolvedConfig \<Rightarrow> synParams \<Rightarrow> bool \<Rightarrow> pipe \<Rightarrow> bool" where
  "syn_pipe rc params net p \<longleftrightarrow>
     (\<exists>io w fs. clean (io_roll io) \<and> clean (io_write io) \<and>
        handshake_send io True True rc params empty_dir = Inr (w, fs) \<and>
        p = \<lparr> p_fs = fs, p_w = w, p_r = newSegReader net, p_sent = [syn_frame params], p_got = [] \<rparr>)"

definition params_ok :: "synParams \<Rightarrow> bool" where
  "params_ok p \<longleftrightarrow> 0 < unat (syn_window p) \<and> unat (syn_window p) < 2 ^ 63 \<and>
     0 < unat (syn_maxFrame p) \<and> unat (syn_maxFrame p) \<le> maxPayload"

definition duplex_start :: "resolvedConfig \<Rightarrow> synParams \<Rightarrow> resolvedConfig \<Rightarrow> synParams \<Rightarrow> duplex \<Rightarrow> bool" where
  "duplex_start rcA pA rcB pB d \<longleftrightarrow>
     params_ok pA \<and> params_ok pB \<and> (\<exists>now. d_a d = new_end pA now) \<and> (\<exists>now. d_b d = new_end pB now) \<and>
     syn_pipe rcA pA (rc_netFS rcB) (d_ab d) \<and> syn_pipe rcB pB (rc_netFS rcA) (d_ba d)"

end
