(* ===== verification/Fstun_Flow.thy ===== *)
theory Fstun_Flow
  imports Fstun_Duplex
begin

text \<open>
  What two connected ends of a filesystem pipe guarantee: the stream a reader sees, flow control,
  and acknowledgements, in every interleaving of the steps of \<open>Fstun_Duplex\<close>. An end's own steps
  keep its local invariants; the part that relates the two ends follows from the prefix property
  of the segment logs.
\<close>

section \<open>Invariants\<close>

text \<open>The bytes of the data frames of a list of frames, and the frames dispatched so far.\<close>

definition data_of :: "frame list \<Rightarrow> byte list" where
  "data_of fs = concat (map frame_payload (filter (\<lambda>f. frame_typ f = frameDATA) fs))"

lemma data_of_simps [simp]:
  "data_of [] = []" "data_of (xs @ ys) = data_of xs @ data_of ys"
  "data_of [f] = (if frame_typ f = frameDATA then frame_payload f else [])"
  by (simp_all add: data_of_def)

lemma data_of_prefix: "prefix xs ys \<Longrightarrow> prefix (data_of xs) (data_of ys)"
  by (auto simp: prefix_def)

definition dispatched :: "recv_pc \<Rightarrow> frame list \<Rightarrow> frame list" where
  "dispatched l got = (case l of LGot f \<Rightarrow> butlast got | _ \<Rightarrow> got)"

lemma dispatched_prefix: "prefix (dispatched l got) got"
  by (auto simp: dispatched_def prefixeq_butlast split: recv_pc.split)

definition recv_inv :: "endpoint \<Rightarrow> pipe \<Rightarrow> bool" where
  "recv_inv e inp \<longleftrightarrow>
     (if ep_live e
      then ep_recv e \<noteq> LSyn \<and> ep_in e @ k_recvBuf (ep_conn e) = data_of (dispatched (ep_recv e) (p_got inp)) \<and>
           (\<forall>f. ep_recv e = LGot f \<longrightarrow> p_got inp \<noteq> [] \<and> last (p_got inp) = f) \<and>
           (k_recvEOF (ep_conn e) \<longrightarrow> (\<exists>f \<in> set (dispatched (ep_recv e) (p_got inp)). frame_typ f = frameFIN)) \<and>
           (k_recvDone (ep_conn e) \<longrightarrow> ep_recv e = LStop)
      else ep_in e = [] \<and> k_recvBuf (ep_conn e) = [] \<and> \<not> k_recvEOF (ep_conn e) \<and> \<not> k_recvDone (ep_conn e) \<and>
           ep_close e = COpen \<and> ep_write e = WIdle \<and> (ep_recv e = LSyn \<longrightarrow> p_got inp = []) \<and> (ep_recv e = LSyn \<or> ep_recv e = LStop)) \<and>
     k_recvData (ep_conn e) = word_of_nat (length (ep_in e)) \<and>
     (ep_close e = CDone \<longrightarrow> ep_recv e = LStop)"

definition ack_inv :: "endpoint \<Rightarrow> pipe \<Rightarrow> bool" where
  "ack_inv e out \<longleftrightarrow>
     (\<forall>f \<in> set (p_sent out). frame_typ f = frameACK \<longrightarrow>
        (\<exists>v. frame_payload f = encodeUint64 v \<and> unat v \<le> length (ep_in e))) \<and>
     unat (k_lastAckSent (ep_conn e)) \<le> length (ep_in e) \<and>
     (\<forall>v. ep_ack e \<in> {ASnap v, ASend v, ASent v} \<longrightarrow> unat v \<le> length (ep_in e)) \<and>
     (\<forall>v. ep_maint e \<in> {MSnap v, MSend v, MSent v} \<longrightarrow> unat v \<le> length (ep_in e))"

definition send_inv :: "endpoint \<Rightarrow> pipe \<Rightarrow> bool" where
  "send_inv e out \<longleftrightarrow>
     params_ok (k_params (ep_conn e)) \<and>
     length (data_of (p_sent out)) \<le> unat (k_sentData (ep_conn e)) \<and> unat (k_sentData (ep_conn e)) < 2 ^ 63 \<and>
     unat (k_sentData (ep_conn e)) \<le> unat (k_peerAck (ep_conn e)) + unat (syn_window (k_params (ep_conn e))) \<and>
     (\<forall>n bs k. ep_write e = WGrant n bs k \<longrightarrow> 0 < n \<and> n \<le> length bs \<and> n \<le> maxPayload \<and>
        unat (k_sentData (ep_conn e)) + n \<le> unat (k_peerAck (ep_conn e)) + unat (syn_window (k_params (ep_conn e)))) \<and>
     (\<forall>bs k. ep_write e = WWait bs k \<longrightarrow> bs \<noteq> [])"

text \<open>What an end believes its peer has consumed, against what the peer has (\<open>m\<close> bytes).\<close>

definition peer_inv :: "nat \<Rightarrow> endpoint \<Rightarrow> bool" where
  "peer_inv m e \<longleftrightarrow> unat (k_peerAck (ep_conn e)) \<le> m \<and> (\<forall>v. ep_recv e = LReap v \<longrightarrow> unat v \<le> m)"

section \<open>Emitting\<close>

lemma emit_cases:
  assumes "emit io typ payload (c, ws0) = (err, c', ws)"
  obtains (refused) "err = Some ConnClosed" "c' = c" "ws = ws0" "typ \<noteq> frameFIN"
  | (sent) e where "seg_append io (emit_frame typ payload c) (k_sentData c') ws0 = (e, ws)" "err = map_option WriteError e"
      "c' = c\<lparr> k_sendSeq := k_sendSeq c + 1,
             k_sentData := (if typ = frameDATA then k_sentData c + word_of_nat (length payload) else k_sentData c) \<rparr>"
proof (cases "k_sendClosed c \<and> typ \<noteq> frameFIN \<and> typ \<noteq> frameError")
  case True
  then show ?thesis using assms by (intro refused) (simp_all add: emit_def)
next
  case False
  define c1 where "c1 = c\<lparr> k_sendSeq := k_sendSeq c + 1,
    k_sentData := (if typ = frameDATA then k_sentData c + word_of_nat (length payload) else k_sentData c) \<rparr>"
  obtain e ws' where s: "seg_append io (emit_frame typ payload c) (k_sentData c1) ws0 = (e, ws')" by (metis prod.exhaust)
  have "emit io typ payload (c, ws0) = (map_option WriteError e, c1, ws')"
    using s by (simp add: emit_def emit_frame_def [symmetric] if_not_P [OF False] c1_def Let_def)
  then show ?thesis using assms s by (intro sent [of e]) (simp_all add: c1_def)
qed

lemma emitted_simps [simp]:
  "p_got (emitted f err ws out) = p_got out" "p_r (emitted f err ws out) = p_r out"
  "p_sent (emitted f err ws out) = (if err = None then p_sent out @ [f] else p_sent out)"
  "p_w (emitted f err ws out) = fst ws" "p_fs (emitted f err ws out) = snd ws"
  by (simp_all add: emitted_def)

lemma emitted_pipe_step:
  assumes "emit io typ payload (c, p_w out, p_fs out) = (err, c', ws)" "io_ok io out"
    "length payload \<le> maxPayload" "typ \<noteq> frameROLL"
  shows "emitted (emit_frame typ payload c) err ws out = out \<or> pipe_step out (emitted (emit_frame typ payload c) err ws out)"
  using assms(1)
proof (cases rule: emit_cases)
  case refused
  then show ?thesis by (simp add: emitted_def)
next
  case (sent e)
  have "frame_ok (emit_frame typ payload c)" "frame_typ (emit_frame typ payload c) \<noteq> frameROLL"
    using assms(3,4) by (simp_all add: emit_frame_def frame_ok_def)
  moreover have "clean (io_roll io)" "clean (io_write io)" "Suc (unat (sw_cur (p_w out))) < 2 ^ 32"
    using assms(2) by (simp_all add: io_ok_def)
  moreover have "seg_append io (emit_frame typ payload c) (k_sentData c') (p_w out, p_fs out) = (e, fst ws, snd ws)"
    using sent(1) by simp
  ultimately have "pipe_step out (out\<lparr> p_w := fst ws, p_fs := snd ws,
      p_sent := (if e = None then p_sent out @ [emit_frame typ payload c] else p_sent out) \<rparr>)"
    by (intro pipe_step.p_append)
  moreover have "(err = None) = (e = None)" using sent(2) by simp
  ultimately show ?thesis by (simp add: emitted_def)
qed

lemma emit_conn:
  assumes "emit io typ payload (c, ws0) = (err, c', ws)"
  shows "k_params c' = k_params c" "k_peerAck c' = k_peerAck c" "k_lastAckSent c' = k_lastAckSent c"
    "k_recvBuf c' = k_recvBuf c" "k_recvData c' = k_recvData c" "k_recvEOF c' = k_recvEOF c"
    "k_recvDone c' = k_recvDone c" "k_closed c' = k_closed c" "k_recvErr c' = k_recvErr c"
    "typ \<noteq> frameDATA \<Longrightarrow> k_sentData c' = k_sentData c"
  using assms by (cases rule: emit_cases; simp)+

lemma emit_data:
  assumes "emit io frameDATA payload (c, ws0) = (err, c', ws)" "unat (k_sentData c) + length payload < 2 ^ 63"
  shows "k_sentData c' = k_sentData c \<and> err \<noteq> None \<or> unat (k_sentData c') = unat (k_sentData c) + length payload"
  using assms(1)
proof (cases rule: emit_cases)
  case (sent e)
  have "unat (word_of_nat (length payload) :: uint64) = length payload" using assms(2) by (intro unat_word_of_nat) simp
  then show ?thesis using sent assms(2) by (simp add: unat_word_ariths)
qed simp


section \<open>Steps of one end\<close>

text \<open>The parts of the connection the local invariants read, for the operations that leave them alone.\<close>

lemmas conn_ops = wake_def setDeadline_def setReadDeadline_def setWriteDeadline_def markDead_def
  failRecv_def recv_returned_def recv_closed_def maint_tick_def sendAck_def maint_heartbeat_def
  close_fin_def close_flag_def close_shut_def close_files_def dispatch_reap_def

lemma recv_inv_cong:
  assumes "recv_inv e inp" "ep_live e' = ep_live e" "ep_recv e' = ep_recv e" "ep_in e' = ep_in e" "ep_close e' = ep_close e"
    "ep_live e \<or> ep_write e' = ep_write e"
    "k_recvBuf (ep_conn e') = k_recvBuf (ep_conn e)" "k_recvEOF (ep_conn e') = k_recvEOF (ep_conn e)"
    "k_recvDone (ep_conn e') = k_recvDone (ep_conn e)" "k_recvData (ep_conn e') = k_recvData (ep_conn e)"
    "p_got inp' = p_got inp"
  shows "recv_inv e' inp'"
  using assms by (cases "ep_live e") (auto simp: recv_inv_def)

lemma deliver_got:
  "x = Ret (Inr f) \<Longrightarrow> deliver got x = got @ [f]" "(\<And>f. x \<noteq> Ret (Inr f)) \<Longrightarrow> deliver got x = got"
  by (auto simp: deliver_def split: next_outcome.split sum.split)

lemma recv_inv_step:
  assumes "end_step (e, out, inp) (e', out', inp')" "recv_inv e inp"
  shows "recv_inv e' inp'"
  using assms(1)
proof (cases rule: end_step.cases)
  case (e_syn env x r' l)
  have nl: "\<not> ep_live e" "p_got inp = []" using assms(2) e_syn(4) by (auto simp: recv_inv_def split: if_splits)
  show ?thesis
  proof (cases "l = Some True")
    case True
    with e_syn(7) obtain y where y: "x = Ret y" "syn_accepts y = Some True" by (cases x) auto
    then obtain f where f: "x = Ret (Inr f)" "frame_typ f = frameSYN"
      by (cases y) (auto simp: syn_accepts_def syn_result_def split: if_splits)
    then show ?thesis using assms(2) nl True e_syn
      by (auto simp: recv_inv_def deliver_def dispatched_def frame_types)
  next
    case False
    have "deliver [] x = []" if "l = None"
    proof (cases x)
      case (Ret y)
      then show ?thesis using that e_syn(7) by (cases y) (auto simp: syn_accepts_def syn_result_def deliver_def)
    qed (simp add: deliver_def)
    then show ?thesis using assms(2) nl False e_syn
      by (auto simp: recv_inv_def split: option.splits)
  qed
next
  case (e_poll env x r' c' l now)
  show ?thesis
  proof (cases x)
    case Again
    then show ?thesis using assms(2) e_poll by (auto simp: recv_inv_def deliver_def dispatched_def)
  next
    case (Ret y)
    then show ?thesis using assms(2) e_poll
      by (cases y) (auto simp: recv_inv_def deliver_def dispatched_def conn_ops split: if_splits)
  qed
next
  case (e_dispatch f c' l)
  have g: "p_got inp = butlast (p_got inp) @ [f]" using assms(2) e_dispatch
    by (auto simp: recv_inv_def dest: append_butlast_last_id split: if_splits)
  have "dispatched l (p_got inp) = butlast (p_got inp) @ [f] \<and> l \<noteq> LSyn \<and> (\<forall>h. l \<noteq> LGot h) \<and>
      k_recvBuf c' = k_recvBuf (ep_conn e) @ data_of [f] \<and> (k_recvEOF c' \<longrightarrow> k_recvEOF (ep_conn e) \<or> frame_typ f = frameFIN) \<and>
      (k_recvDone c' \<longrightarrow> k_recvDone (ep_conn e) \<or> l = LStop) \<and> k_recvData c' = k_recvData (ep_conn e)"
    using e_dispatch(6) g [symmetric]
    by (auto simp: recv_dispatch_def dispatch_def dispatched_def failRecv_def wake_def markDead_def Let_def frame_types
        split: if_splits option.splits)
  moreover have "dispatched (ep_recv e) (p_got inp) = butlast (p_got inp)" using e_dispatch by (simp add: dispatched_def)
  ultimately show ?thesis using assms(2) e_dispatch(1,3,4,5) by (auto simp: recv_inv_def)
next
  case (e_read res c' ev n)
  have "k_recvData c' = k_recvData (ep_conn e) + word_of_nat (length (case res of RBytes b \<Rightarrow> b | _ \<Rightarrow> [])) \<and>
      (case res of RBytes b \<Rightarrow> b | _ \<Rightarrow> []) @ k_recvBuf c' = k_recvBuf (ep_conn e) \<and>
      k_recvEOF c' = k_recvEOF (ep_conn e) \<and> k_recvDone c' = k_recvDone (ep_conn e)"
    using e_read(6)
    by (auto simp: read_look_def read_wake_def Let_def split: option.splits wake_event.splits if_splits)
  then show ?thesis using assms(2) e_read(1,3,4) by (cases res) (auto simp: recv_inv_def)
next
  case (e_reap ack c' w' fs')
  then show ?thesis using assms(2) by (auto simp: recv_inv_def dispatch_reap_def dispatched_def)
next
  case (e_stop c' l)
  then show ?thesis using assms(2) by (auto simp: recv_inv_def recv_closed_def dispatched_def)
next
  case (e_ack rd io err c' ws)
  note emit_conn [OF e_ack(7) [unfolded sendAck_def]]
  with e_ack show ?thesis by (intro recv_inv_cong [OF assms(2)]) simp_all
next
  case (e_mack rd io err c' ws)
  note emit_conn [OF e_mack(7) [unfolded sendAck_def]]
  with e_mack show ?thesis by (intro recv_inv_cong [OF assms(2)]) simp_all
next
  case (e_beat io now err c' ws)
  note emit_conn [OF e_beat(7) [unfolded maint_heartbeat_def]]
  with e_beat show ?thesis by (intro recv_inv_cong [OF assms(2)]) simp_all
next
  case (e_data n bs k io c' ws pc err)
  from e_data(8) have "emit io frameDATA (take n bs) (ep_conn e, p_w out, p_fs out) = (err, c', ws)"
    by (auto simp: write_emit_def e_data split: prod.splits option.splits)
  from emit_conn [OF this] e_data show ?thesis by (intro recv_inv_cong [OF assms(2)]) simp_all
next
  case (e_close1 io c' ws err)
  from e_close1(7) have "emit io frameFIN [] (ep_conn e, p_w out, p_fs out) = (err, c', ws)"
    by (simp add: close_fin_def e_close1 prod_eq_iff)
  from emit_conn [OF this] e_close1 show ?thesis using assms(2) by (simp add: recv_inv_def)
next
  case (e_wake ev c' pc)
  then have "k_recvBuf c' = k_recvBuf (ep_conn e) \<and> k_recvEOF c' = k_recvEOF (ep_conn e) \<and>
    k_recvDone c' = k_recvDone (ep_conn e) \<and> k_recvData c' = k_recvData (ep_conn e)"
    by (auto simp: write_wake_def split: write_pc.splits wake_event.splits if_splits)
  with e_wake show ?thesis by (intro recv_inv_cong [OF assms(2)]) simp_all
next
  case (e_tick rc now c' rd)
  then have "k_recvBuf c' = k_recvBuf (ep_conn e) \<and> k_recvEOF c' = k_recvEOF (ep_conn e) \<and>
    k_recvDone c' = k_recvDone (ep_conn e) \<and> k_recvData c' = k_recvData (ep_conn e)"
    by (auto simp: conn_ops split: if_splits)
  with e_tick show ?thesis by (intro recv_inv_cong [OF assms(2)]) simp_all
next
  case (e_acked rd)
  then show ?thesis by (intro recv_inv_cong [OF assms(2)]) (simp_all add: sendAck_note_def)
next
  case (e_macked rd)
  then show ?thesis by (intro recv_inv_cong [OF assms(2)]) (simp_all add: sendAck_note_def)
next
  case (e_deadline c' t)
  then show ?thesis by (intro recv_inv_cong [OF assms(2)]) (auto simp: conn_ops)
next
  case e_close2
  then show ?thesis using assms(2) by (simp add: recv_inv_def close_flag_def)
next
  case e_close3
  then show ?thesis using assms(2) by (simp add: recv_inv_def close_shut_def)
next
  case (e_close4 c' w' fs' r')
  then show ?thesis using assms(2) by (auto simp: recv_inv_def close_files_def markDead_def)
qed (use assms(2) in \<open>simp_all add: recv_inv_def\<close>)


lemma write_emit_emit:
  "write_emit io cw (WGrant n bs k) = ((c', ws), pc) \<Longrightarrow> err = fst (emit io frameDATA (take n bs) cw) \<Longrightarrow>
   emit io frameDATA (take n bs) cw = (err, c', ws) \<and>
   pc = (case err of Some er \<Rightarrow> WRet k (Some er)
         | None \<Rightarrow> if drop n bs = [] then WRet (k + n) None else WWait (drop n bs) (k + n))"
  by (auto simp: write_emit_def split: prod.splits option.splits)

lemma close_fin_emit:
  "close_fin io cw = (c', ws) \<Longrightarrow> err = fst (emit io frameFIN [] cw) \<Longrightarrow> emit io frameFIN [] cw = (err, c', ws)"
  by (simp add: close_fin_def prod_eq_iff)

text \<open>What a step leaves alone on the two pipes, and that it emits frames only through \<open>emit\<close>.\<close>

lemma end_step_frame:
  assumes "end_step (e, out, inp) (e', out', inp')"
  shows "p_got out' = p_got out \<and> p_r out' = p_r out \<and> p_sent inp' = p_sent inp \<and> p_w inp' = p_w inp \<and>
    p_fs inp' = p_fs inp \<and> prefix (p_sent out) (p_sent out') \<and> prefix (p_got inp) (p_got inp')"
  using assms
  by (cases rule: end_step.cases) (auto simp: deliver_def split: next_outcome.split sum.split)

lemma ack_inv_cong:
  assumes "ack_inv e out" "k_lastAckSent (ep_conn e') = k_lastAckSent (ep_conn e)" "ep_ack e' = ep_ack e"
    "ep_maint e' = ep_maint e" "prefix (ep_in e) (ep_in e')" "p_sent out' = p_sent out"
  shows "ack_inv e' out'"
proof -
  have "length (ep_in e) \<le> length (ep_in e')" using assms(5) by (rule prefix_length_le)
  then show ?thesis using assms(1) unfolding ack_inv_def assms(2-4,6) by (meson le_trans)
qed

lemma ack_inv_emit:
  assumes "ack_inv e out" "emit io typ payload (ep_conn e, p_w out, p_fs out) = (err, c', ws)"
    "typ = frameACK \<Longrightarrow> \<exists>v. payload = encodeUint64 v \<and> unat v \<le> length (ep_in e)"
    "\<And>v. a \<in> {ASnap v, ASend v, ASent v} \<Longrightarrow> unat v \<le> length (ep_in e)"
    "\<And>v. m \<in> {MSnap v, MSend v, MSent v} \<Longrightarrow> unat v \<le> length (ep_in e)"
  shows "ack_inv (e\<lparr> ep_conn := c', ep_write := wr, ep_ack := a, ep_maint := m, ep_close := cl \<rparr>)
    (emitted (emit_frame typ payload (ep_conn e)) err ws out)"
  using assms(1,3-5) emit_conn(3) [OF assms(2)] by (auto simp: ack_inv_def emit_frame_def)

lemma ack_inv_step:
  assumes "end_step (e, out, inp) (e', out', inp')" "ack_inv e out" "recv_inv e inp"
  shows "ack_inv e' out'"
  using assms(1)
proof (cases rule: end_step.cases)
  case (e_read res c' ev n)
  have r: "k_lastAckSent c' = k_lastAckSent (ep_conn e) \<and>
      (\<forall>b. res = RBytes b \<longrightarrow> k_recvData c' = k_recvData (ep_conn e) + word_of_nat (length b))"
    using e_read(6)
    by (auto simp: read_look_def read_wake_def Let_def split: option.splits wake_event.splits if_splits)
  have d: "unat (k_recvData (ep_conn e) + word_of_nat (length b)) \<le> length (ep_in e @ b)" for b
  proof -
    have "k_recvData (ep_conn e) + word_of_nat (length b) = word_of_nat (length (ep_in e @ b))"
      using assms(3) by (simp add: recv_inv_def)
    moreover have "unat (word_of_nat m :: uint64) \<le> m" for m by (simp add: unat_of_nat)
    ultimately show ?thesis by metis
  qed
  show ?thesis
  proof (cases res)
    case (RBytes b)
    have "ack_inv (e\<lparr> ep_conn := c', ep_in := ep_in e @ b \<rparr>) out"
      by (rule ack_inv_cong [OF assms(2)]) (use r in simp_all)
    then show ?thesis using RBytes e_read r d [of b] by (auto simp: ack_inv_def)
  qed (use assms(2) e_read r in \<open>auto simp: ack_inv_def\<close>)
next
  case (e_ack rd io err c' ws)
  then show ?thesis
    using ack_inv_emit [OF assms(2) e_ack(7) [unfolded sendAck_def],
        where a = "if err = None then ASent rd else AIdle" and m = "ep_maint e" and wr = "ep_write e" and cl = "ep_close e"] assms(2)
    by (auto simp: ack_inv_def split: if_splits)
next
  case (e_mack rd io err c' ws)
  then show ?thesis
    using ack_inv_emit [OF assms(2) e_mack(7) [unfolded sendAck_def],
        where a = "ep_ack e" and m = "if err = None then MSent rd else MBeat" and wr = "ep_write e" and cl = "ep_close e"] assms(2)
    by (auto simp: ack_inv_def split: if_splits)
next
  case (e_beat io now err c' ws)
  then show ?thesis
    using ack_inv_emit [OF assms(2) e_beat(7) [unfolded maint_heartbeat_def],
        where a = "ep_ack e" and m = MIdle and wr = "ep_write e" and cl = "ep_close e"] assms(2)
    by (auto simp: ack_inv_def emit_frame_def frame_types)
next
  case (e_data n bs k io c' ws pc err)
  then show ?thesis
    using ack_inv_emit [OF assms(2) conjunct1 [OF write_emit_emit [OF e_data(8) [unfolded e_data(5)] e_data(9)]],
        where a = "ep_ack e" and m = "ep_maint e" and wr = pc and cl = "ep_close e"] assms(2)
    by (auto simp: ack_inv_def emit_frame_def frame_types)
next
  case (e_close1 io c' ws err)
  then show ?thesis
    using ack_inv_emit [OF assms(2) close_fin_emit [OF e_close1(7,8)],
        where a = "ep_ack e" and m = "ep_maint e" and wr = "ep_write e" and cl = CFin] assms(2)
    by (auto simp: ack_inv_def emit_frame_def frame_types)
next
  case (e_tick rc now c' rd)
  have "unat (k_recvData (ep_conn e)) \<le> length (ep_in e)" using assms(3) by (simp add: recv_inv_def unat_of_nat)
  then show ?thesis using e_tick assms(2)
    by (auto simp: ack_inv_def conn_ops split: if_splits)
next
  case (e_acked rd)
  then show ?thesis using assms(2) by (auto simp: ack_inv_def sendAck_note_def)
next
  case (e_macked rd)
  then show ?thesis using assms(2) by (auto simp: ack_inv_def sendAck_note_def)
next
  case (e_due rd)
  then show ?thesis using assms(2) by (auto simp: ack_inv_def)
next
  case (e_mdue rd)
  then show ?thesis using assms(2) by (auto simp: ack_inv_def)
next
  case (e_mstop)
  then show ?thesis using assms(2) by (auto simp: ack_inv_def)
next
  case (e_poll env x r' c' l now)
  then have "k_lastAckSent c' = k_lastAckSent (ep_conn e)"
    by (cases x) (auto simp: conn_ops split: sum.splits if_splits)
  then show ?thesis using e_poll by (intro ack_inv_cong [OF assms(2)]) simp_all
next
  case (e_dispatch f c' l)
  then have "k_lastAckSent c' = k_lastAckSent (ep_conn e)"
    by (auto simp: recv_dispatch_def dispatch_def conn_ops Let_def split: if_splits option.splits)
  then show ?thesis using e_dispatch by (intro ack_inv_cong [OF assms(2)]) simp_all
next
  case (e_wake ev c' pc)
  then have "k_lastAckSent c' = k_lastAckSent (ep_conn e)"
    by (auto simp: write_wake_def split: write_pc.splits wake_event.splits if_splits)
  then show ?thesis using e_wake by (intro ack_inv_cong [OF assms(2)]) simp_all
next
  case (e_deadline c' t)
  then show ?thesis by (intro ack_inv_cong [OF assms(2)]) (auto simp: conn_ops)
qed (use assms(2) in \<open>auto simp: ack_inv_def conn_ops\<close>)


lemma send_inv_cong:
  assumes "send_inv e out" "k_params (ep_conn e') = k_params (ep_conn e)" "k_sentData (ep_conn e') = k_sentData (ep_conn e)"
    "unat (k_peerAck (ep_conn e)) \<le> unat (k_peerAck (ep_conn e'))" "ep_write e' = ep_write e" "p_sent out' = p_sent out"
  shows "send_inv e' out'"
  using assms(1,4) unfolding send_inv_def assms(2,3,5,6) by fastforce

lemma send_inv_control:
  assumes "send_inv e out" "emit io typ payload (ep_conn e, p_w out, p_fs out) = (err, c', ws)" "typ \<noteq> frameDATA"
  shows "send_inv (e\<lparr> ep_conn := c', ep_ack := a, ep_maint := m, ep_close := cl \<rparr>)
    (emitted (emit_frame typ payload (ep_conn e)) err ws out)"
  using assms(1,3) emit_conn(1,2,10) [OF assms(2)] by (auto simp: send_inv_def emit_frame_def)

lemma sint_small:
  assumes "unat (x :: uint64) < 2 ^ 63"
  shows "sint x = int (unat x)"
proof -
  have u: "uint x = int (unat x)" by simp
  have lt: "int (unat x) < 2 ^ 63"
    using of_nat_less_iff [where 'a = int, THEN iffD2, OF assms] by (simp only: of_nat_power of_nat_numeral)
  have "- (2 ^ 63) \<le> int (unat x)" by (rule order_trans [of _ 0]) simp_all
  then have "signed_take_bit 63 (int (unat x)) = int (unat x)" using lt by (rule signed_take_bit_int_eq_self)
  then show ?thesis unfolding sint_uint u by simp
qed

text \<open>The room granted to a writer keeps it within the window.\<close>

lemma send_room_window:
  assumes "unat (k_peerAck c) \<le> unat (k_sentData c)" "unat (k_sentData c) < 2 ^ 63"
    "unat (k_sentData c) \<le> unat (k_peerAck c) + unat (syn_window (k_params c))" "unat (syn_window (k_params c)) < 2 ^ 63"
  shows "send_room c = int (unat (k_peerAck c) + unat (syn_window (k_params c)) - unat (k_sentData c))"
proof -
  let ?d = "k_sentData c - k_peerAck c" and ?w = "syn_window (k_params c)"
  have d: "unat ?d = unat (k_sentData c) - unat (k_peerAck c)"
    using assms(1) by (simp add: unat_sub word_le_nat_alt)
  have le: "unat ?d \<le> unat ?w" using assms(3) d by simp
  have r: "unat (?w - ?d) = unat ?w - unat ?d" using le by (simp add: unat_sub word_le_nat_alt)
  have "unat (?w - ?d) < 2 ^ 63" using r assms(4) by simp
  then have "sint (?w - ?d) = int (unat (?w - ?d))" by (rule sint_small)
  then show ?thesis using r d assms(1,3) by (simp add: send_room_def)
qed

lemma write_look_grant:
  assumes "write_look c pc = WGrant n bs k" "\<And>bs k. pc = WWait bs k \<Longrightarrow> bs \<noteq> []"
  obtains "pc = WGrant n bs k" | "pc = WWait bs k" "0 < send_room c" "n = chunk_size c (length bs) (send_room c)" "bs \<noteq> []"
  using assms by (auto simp: write_look_def waitSendWindow_def split: write_pc.splits option.splits sum.splits if_splits)

lemma chunk_size_bounds:
  assumes "0 < room" "0 < len" "params_ok (k_params c)"
  shows "0 < chunk_size c len room" "chunk_size c len room \<le> len" "chunk_size c len room \<le> nat room"
    "chunk_size c len room \<le> unat (syn_maxFrame (k_params c))"
  using assms by (auto simp: chunk_size_def params_ok_def Let_def)

lemma send_inv_look:
  assumes "send_inv e out" "unat (k_peerAck (ep_conn e)) \<le> unat (k_sentData (ep_conn e))"
  shows "send_inv (e\<lparr> ep_write := write_look (ep_conn e) (ep_write e) \<rparr>) out"
proof -
  let ?c = "ep_conn e" and ?pc = "ep_write e"
  have p: "params_ok (k_params ?c)" using assms(1) by (simp add: send_inv_def)
  have g: "0 < n \<and> n \<le> length bs \<and> n \<le> maxPayload \<and>
      unat (k_sentData ?c) + n \<le> unat (k_peerAck ?c) + unat (syn_window (k_params ?c))"
    if w: "write_look ?c ?pc = WGrant n bs k" for n bs k
    using w
  proof (rule write_look_grant)
    show "bs \<noteq> []" if "?pc = WWait bs k" for bs k using assms(1) that by (auto simp: send_inv_def)
  next
    assume "?pc = WGrant n bs k"
    then show ?thesis using assms(1) by (simp add: send_inv_def)
  next
    assume r: "0 < send_room ?c" "n = chunk_size ?c (length bs) (send_room ?c)" "bs \<noteq> []"
    have "send_room ?c = int (unat (k_peerAck ?c) + unat (syn_window (k_params ?c)) - unat (k_sentData ?c))"
      using assms p by (intro send_room_window) (simp_all add: send_inv_def params_ok_def)
    moreover have "n \<le> nat (send_room ?c)" "0 < n" "n \<le> length bs" "n \<le> unat (syn_maxFrame (k_params ?c))"
      using chunk_size_bounds [OF r(1) _ p, of "length bs"] r(2,3) by simp_all
    ultimately show ?thesis using p by (simp add: params_ok_def)
  qed
  have "bs \<noteq> []" if "write_look ?c ?pc = WWait bs k" for bs k
    using that assms(1) by (auto simp: send_inv_def write_look_def split: write_pc.splits option.splits sum.splits)
  then show ?thesis using assms(1) g by (simp add: send_inv_def)
qed

lemma send_inv_idle:
  "send_inv e out \<Longrightarrow> (\<And>n bs k. pc \<noteq> WGrant n bs k) \<Longrightarrow> (\<And>bs k. pc = WWait bs k \<Longrightarrow> bs \<noteq> []) \<Longrightarrow>
   send_inv (e\<lparr> ep_write := pc \<rparr>) out"
  by (simp add: send_inv_def)

lemma send_inv_data:
  assumes "send_inv e out" "ep_write e = WGrant n bs k" "unat (k_sentData (ep_conn e)) + n < 2 ^ 63"
    "emit io frameDATA (take n bs) (ep_conn e, p_w out, p_fs out) = (err, c', ws)"
    "pc = (case err of Some er \<Rightarrow> WRet k (Some er)
           | None \<Rightarrow> if drop n bs = [] then WRet (k + n) None else WWait (drop n bs) (k + n))"
  shows "send_inv (e\<lparr> ep_conn := c', ep_write := pc \<rparr>) (emitted (emit_frame frameDATA (take n bs) (ep_conn e)) err ws out)"
proof -
  have n: "n \<le> length bs" "unat (k_sentData (ep_conn e)) + n \<le> unat (k_peerAck (ep_conn e)) + unat (syn_window (k_params (ep_conn e)))"
    using assms(1,2) by (auto simp: send_inv_def)
  then have d: "k_sentData c' = k_sentData (ep_conn e) \<and> err \<noteq> None \<or> unat (k_sentData c') = unat (k_sentData (ep_conn e)) + n"
    using emit_data [OF assms(4)] assms(3) by simp
  have "length (data_of (p_sent (emitted (emit_frame frameDATA (take n bs) (ep_conn e)) err ws out))) \<le> unat (k_sentData c')"
    using assms(1) d n by (auto simp: send_inv_def emit_frame_def)
  moreover have "unat (k_sentData c') < 2 ^ 63" "unat (k_sentData c') \<le> unat (k_peerAck (ep_conn e)) + unat (syn_window (k_params (ep_conn e)))"
    using d n assms(1,3) by (auto simp only: send_inv_def)
  moreover have "pc \<noteq> WGrant m xs j" "pc = WWait xs j \<Longrightarrow> xs \<noteq> []" for m xs j
    using assms(5) by (auto split: option.splits if_splits)
  ultimately show ?thesis using assms(1) emit_conn(1,2) [OF assms(4)] by (simp add: send_inv_def)
qed


lemma write_wake_disj:
  "write_wake ev c pc = (c', pc') \<Longrightarrow>
   c' = c \<and> pc' = pc \<or> c' = c\<lparr> k_flowSig := False \<rparr> \<and> pc' = write_look c pc \<or> c' = c \<and> (\<exists>n er. pc' = WRet n (Some er))"
  unfolding write_wake_def by (cases pc; cases ev) (simp_all split: if_splits, blast+)

lemma write_wake_cases:
  assumes "write_wake ev c pc = (c', pc')"
  obtains (same) "c' = c" "pc' = pc"
  | (look) "c' = c\<lparr> k_flowSig := False \<rparr>" "pc' = write_look c pc"
  | (ended) n er where "c' = c" "pc' = WRet n (Some er)"
  using write_wake_disj [OF assms] by (elim disjE conjE exE) (rule same look ended; assumption)+

lemma send_inv_step:
  assumes "end_step (e, out, inp) (e', out', inp')" "send_inv e out"
    "unat (k_peerAck (ep_conn e)) \<le> unat (k_sentData (ep_conn e))"
  shows "send_inv e' out'"
  using assms(1)
proof (cases rule: end_step.cases)
  case (e_data n bs k io c' ws pc err)
  show ?thesis unfolding e_data(1,2)
    using write_emit_emit [OF e_data(8) [unfolded e_data(5)] e_data(9)]
    by (intro send_inv_data [OF assms(2) e_data(5,7)]) (erule conjunct1, erule conjunct2)
next
  case e_window
  show ?thesis unfolding e_window(1,2) by (rule send_inv_look [OF assms(2,3)])
next
  case (e_wake ev c' pc)
  from e_wake(5) show ?thesis
  proof (cases rule: write_wake_cases)
    case look
    have "send_inv (e\<lparr> ep_conn := c', ep_write := write_look (ep_conn e) (ep_write e) \<rparr>) out"
      by (rule send_inv_cong [OF send_inv_look [OF assms(2,3)]]) (simp_all add: look)
    then show ?thesis using e_wake look by simp
  qed (use assms(2) e_wake in \<open>simp_all add: send_inv_def\<close>)
next
  case (e_write bs)
  then show ?thesis using assms(2) by (auto simp: send_inv_def write_begin_def split: if_splits)
next
  case (e_ack rd io err c' ws)
  then show ?thesis
    using send_inv_control [OF assms(2) e_ack(7) [unfolded sendAck_def],
        where a = "if err = None then ASent rd else AIdle" and m = "ep_maint e" and cl = "ep_close e"]
    by (simp add: frame_types)
next
  case (e_mack rd io err c' ws)
  then show ?thesis
    using send_inv_control [OF assms(2) e_mack(7) [unfolded sendAck_def],
        where a = "ep_ack e" and m = "if err = None then MSent rd else MBeat" and cl = "ep_close e"]
    by (simp add: frame_types)
next
  case (e_beat io now err c' ws)
  then show ?thesis
    using send_inv_control [OF assms(2) e_beat(7) [unfolded maint_heartbeat_def],
        where a = "ep_ack e" and m = MIdle and cl = "ep_close e"]
    by (simp add: frame_types)
next
  case (e_close1 io c' ws err)
  then show ?thesis
    using send_inv_control [OF assms(2) close_fin_emit [OF e_close1(7,8)],
        where a = "ep_ack e" and m = "ep_maint e" and cl = CFin]
    by (simp add: frame_types)
next
  case (e_dispatch f c' l)
  have "k_params c' = k_params (ep_conn e) \<and> k_sentData c' = k_sentData (ep_conn e) \<and> unat (k_peerAck (ep_conn e)) \<le> unat (k_peerAck c')"
    using e_dispatch(6)
    by (auto simp: recv_dispatch_def dispatch_def conn_ops Let_def word_less_nat_alt split: if_splits option.splits)
  then show ?thesis using e_dispatch by (intro send_inv_cong [OF assms(2)]) simp_all
next
  case (e_poll env x r' c' l now)
  have "k_params c' = k_params (ep_conn e) \<and> k_sentData c' = k_sentData (ep_conn e) \<and> k_peerAck c' = k_peerAck (ep_conn e)"
    using e_poll(8) by (cases x) (auto simp: conn_ops split: sum.splits if_splits)
  then show ?thesis using e_poll by (intro send_inv_cong [OF assms(2)]) simp_all
next
  case (e_read res c' ev n)
  have "k_params c' = k_params (ep_conn e) \<and> k_sentData c' = k_sentData (ep_conn e) \<and> k_peerAck c' = k_peerAck (ep_conn e)"
    using e_read(6)
    by (auto simp: read_look_def read_wake_def Let_def split: option.splits wake_event.splits if_splits)
  then show ?thesis using e_read by (intro send_inv_cong [OF assms(2)]) simp_all
next
  case (e_tick rc now c' rd)
  have "k_params c' = k_params (ep_conn e) \<and> k_sentData c' = k_sentData (ep_conn e) \<and> k_peerAck c' = k_peerAck (ep_conn e)"
    using e_tick(6) by (auto simp: conn_ops split: if_splits)
  then show ?thesis using e_tick by (intro send_inv_cong [OF assms(2)]) simp_all
next
  case (e_acked rd)
  then show ?thesis by (intro send_inv_cong [OF assms(2)]) (simp_all add: sendAck_note_def)
next
  case (e_macked rd)
  then show ?thesis by (intro send_inv_cong [OF assms(2)]) (simp_all add: sendAck_note_def)
next
  case (e_deadline c' t)
  then show ?thesis by (intro send_inv_cong [OF assms(2)]) (auto simp: conn_ops)
qed (auto intro!: send_inv_cong [OF assms(2)] simp: conn_ops)

section \<open>The two pipes\<close>

text \<open>The reader of a pipe is followed until its end has closed it.\<close>

definition pipe_link :: "endpoint \<Rightarrow> pipe \<Rightarrow> bool" where
  "pipe_link e p \<longleftrightarrow> (\<exists>r. pipe_inv (p\<lparr> p_r := r \<rparr>) \<and> (ep_close e \<noteq> CDone \<longrightarrow> r = p_r p))"

lemma pipe_link_prefix: "pipe_link e p \<Longrightarrow> prefix (p_got p) (p_sent p)"
  by (auto simp: pipe_link_def dest: pipe_inv_prefix)

lemma write_step_reader:
  assumes "pipe_step p q" "p_r q = p_r p" "p_got q = p_got p" "p_w q \<noteq> p_w p \<or> p_fs q \<noteq> p_fs p \<or> p_sent q \<noteq> p_sent p"
  shows "pipe_step (p\<lparr> p_r := r \<rparr>) (q\<lparr> p_r := r \<rparr>)"
  using assms
proof cases
  case (p_append io f d e w' fs')
  then show ?thesis using pipe_step.p_append [of io f "p\<lparr> p_r := r \<rparr>" d e w' fs'] by (cases e; cases p) simp_all
next
  case (p_flush w' fs')
  then show ?thesis using pipe_step.p_flush [of "p\<lparr> p_r := r \<rparr>" w' fs'] by (cases p) simp
next
  case (p_syncnow w' fs')
  then show ?thesis using pipe_step.p_syncnow [of "p\<lparr> p_r := r \<rparr>" w' fs'] by (cases p) simp
next
  case (p_reap ack w' fs')
  then show ?thesis using pipe_step.p_reap [of ack "p\<lparr> p_r := r \<rparr>" w' fs'] by (cases p) simp
next
  case (p_close w' fs')
  then show ?thesis using pipe_step.p_close [of "p\<lparr> p_r := r \<rparr>" w' fs'] by (cases p) simp
qed (use assms(4) in simp)

text \<open>A step of an end is, for its outgoing pipe, no change or a step of the writer.\<close>

lemma emit_steps:
  "emit io typ payload (c, p_w out, p_fs out) = (err, c', ws) \<Longrightarrow> io_ok io out \<Longrightarrow> length payload \<le> maxPayload \<Longrightarrow>
   typ \<noteq> frameROLL \<Longrightarrow> out' = emitted (emit_frame typ payload c) err ws out \<Longrightarrow> out' = out \<or> pipe_step out out'"
  using emitted_pipe_step by blast

lemma end_step_out:
  assumes "end_step (e, out, inp) (e', out', inp')" "send_inv e out"
  shows "out' = out \<or> pipe_step out out'"
  using assms(1)
proof (cases rule: end_step.cases)
  case (e_reap ack c' w' fs')
  then have "reap ack (p_w out, p_fs out) = (w', fs')" by (simp add: dispatch_reap_def)
  then show ?thesis using e_reap by (simp add: pipe_step.p_reap)
next
  case (e_close4 c' w' fs' r')
  then have "seg_close (p_w out, p_fs out) = (w', fs')" by (simp add: close_files_def)
  then show ?thesis using e_close4 by (simp add: pipe_step.p_close)
next
  case (e_flush w' fs')
  then show ?thesis by (simp add: pipe_step.p_flush)
next
  case (e_ack rd io err c' ws)
  show ?thesis
    by (rule emit_steps [OF e_ack(7) [unfolded sendAck_def] e_ack(6) _ _ e_ack(2)]) (simp_all add: maxPayload_def frame_types)
next
  case (e_mack rd io err c' ws)
  show ?thesis
    by (rule emit_steps [OF e_mack(7) [unfolded sendAck_def] e_mack(6) _ _ e_mack(2)]) (simp_all add: maxPayload_def frame_types)
next
  case (e_beat io now err c' ws)
  show ?thesis
    by (rule emit_steps [OF e_beat(7) [unfolded maint_heartbeat_def] e_beat(6) _ _ e_beat(2)]) (simp_all add: maxPayload_def frame_types)
next
  case (e_data n bs k io c' ws pc err)
  have "n \<le> maxPayload" using assms(2) e_data(5) by (auto simp: send_inv_def)
  then show ?thesis
    by (intro emit_steps [OF conjunct1 [OF write_emit_emit [OF e_data(8) [unfolded e_data(5)] e_data(9)]] e_data(6) _ _ e_data(2)])
      (simp_all add: frame_types)
next
  case (e_close1 io c' ws err)
  show ?thesis
    by (rule emit_steps [OF close_fin_emit [OF e_close1(7,8)] e_close1(6) _ _ e_close1(2)]) (simp_all add: frame_types)
qed simp_all

text \<open>For its incoming pipe it is no change, a read, or the closing of the reader.\<close>

lemma end_step_in:
  assumes "end_step (e, out, inp) (e', out', inp')" "recv_inv e inp"
  shows "inp' = inp \<and> (ep_close e' = CDone \<longleftrightarrow> ep_close e = CDone) \<or>
    pipe_step inp inp' \<and> ep_close e \<noteq> CDone \<and> ep_close e' = ep_close e \<or> ep_close e' = CDone \<and> (\<exists>r. inp' = inp\<lparr> p_r := r \<rparr>)"
  using assms(1)
proof (cases rule: end_step.cases)
  case (e_syn env x r' l)
  have "ep_close e \<noteq> CDone" using assms(2) e_syn(4) by (auto simp: recv_inv_def)
  then show ?thesis using e_syn pipe_step.p_read [OF e_syn(5,6)] by simp
next
  case (e_poll env x r' c' l now)
  have "ep_close e \<noteq> CDone" using assms(2) e_poll(5) by (auto simp: recv_inv_def)
  then show ?thesis using e_poll pipe_step.p_read [OF e_poll(6,7)] by simp
qed auto

lemma pipe_link_in:
  assumes "end_step (e, out, inp) (e', out', inp')" "recv_inv e inp" "pipe_link e inp"
  shows "pipe_link e' inp'"
proof -
  from assms(3) obtain r where r: "pipe_inv (inp\<lparr> p_r := r \<rparr>)" "ep_close e \<noteq> CDone \<longrightarrow> r = p_r inp"
    by (auto simp: pipe_link_def)
  from end_step_in [OF assms(1,2)] show ?thesis
  proof (elim disjE conjE exE)
    assume "inp' = inp" "ep_close e' = CDone \<longleftrightarrow> ep_close e = CDone"
    then show ?thesis using r by (auto simp: pipe_link_def)
  next
    assume s: "pipe_step inp inp'" "ep_close e \<noteq> CDone" "ep_close e' = ep_close e"
    then have "pipe_inv inp" using r by simp
    from pipe_inv_step [OF this s(1)] have "pipe_inv (inp'\<lparr> p_r := p_r inp' \<rparr>)" by simp
    then show ?thesis unfolding pipe_link_def by blast
  next
    fix r' assume "ep_close e' = CDone" "inp' = inp\<lparr> p_r := r' \<rparr>"
    then show ?thesis using r(1) by (auto simp: pipe_link_def)
  qed
qed

lemma pipe_link_out:
  assumes "end_step (e, out, inp) (e', out', inp')" "send_inv e out" "pipe_link e2 out"
  shows "pipe_link e2 out'"
proof (cases "out' = out")
  case False
  with end_step_out [OF assms(1,2)] have s: "pipe_step out out'" by simp
  have f: "p_got out' = p_got out" "p_r out' = p_r out" using end_step_frame [OF assms(1)] by simp_all
  from assms(3) obtain r where r: "pipe_inv (out\<lparr> p_r := r \<rparr>)" "ep_close e2 \<noteq> CDone \<longrightarrow> r = p_r out"
    by (auto simp: pipe_link_def)
  have "p_w out' \<noteq> p_w out \<or> p_fs out' \<noteq> p_fs out \<or> p_sent out' \<noteq> p_sent out" using False f by (cases out; cases out') auto
  from pipe_inv_step [OF r(1) write_step_reader [OF s f(2,1) this]] show ?thesis using r(2) f by (auto simp: pipe_link_def)
qed (use assms in simp)


section \<open>The ends together\<close>

lemma acked_below:
  assumes "ack_inv e2 inp" "f \<in> set (p_sent inp)" "frame_typ f = frameACK" "decodeUint64 (frame_payload f) = Some v"
  shows "unat v \<le> length (ep_in e2)"
  using assms by (auto simp: ack_inv_def)

lemma peer_inv_step:
  assumes "end_step (e, out, inp) (e', out', inp')" "recv_inv e inp" "ack_inv e2 inp" "prefix (p_got inp) (p_sent inp)"
    "peer_inv (length (ep_in e2)) e"
  shows "peer_inv (length (ep_in e2)) e'"
  using assms(1)
proof (cases rule: end_step.cases)
  case (e_dispatch f c' l)
  have "p_got inp \<noteq> [] \<and> last (p_got inp) = f" using assms(2) e_dispatch(4,5) by (auto simp: recv_inv_def)
  then have "f \<in> set (p_got inp)" by (metis last_in_set)
  then have "f \<in> set (p_sent inp)" using assms(4) set_mono_prefix by blast
  from acked_below [OF assms(3) this] show ?thesis using assms(5) e_dispatch
    by (auto simp: peer_inv_def recv_dispatch_def dispatch_def conn_ops Let_def split: if_splits option.splits)
next
  case (e_poll env x r' c' l now)
  have "k_peerAck c' = k_peerAck (ep_conn e) \<and> (\<forall>v. l \<noteq> LReap v)"
    using e_poll(8) by (cases x) (auto simp: conn_ops split: sum.splits if_splits)
  then show ?thesis using e_poll(1) assms(5) by (simp add: peer_inv_def)
next
  case (e_read res c' ev n)
  have "k_peerAck c' = k_peerAck (ep_conn e)"
    using e_read(6) by (auto simp: read_look_def read_wake_def Let_def split: option.splits wake_event.splits if_splits)
  then show ?thesis using e_read(1) assms(5) by (simp add: peer_inv_def)
next
  case (e_tick rc now c' rd)
  have "k_peerAck c' = k_peerAck (ep_conn e)" using e_tick(6) by (auto simp: conn_ops split: if_splits)
  then show ?thesis using e_tick(1) assms(5) by (simp add: peer_inv_def)
next
  case (e_wake ev c' pc)
  have "k_peerAck c' = k_peerAck (ep_conn e)" using write_wake_disj [OF e_wake(5)] by auto
  then show ?thesis using e_wake(1) assms(5) by (simp add: peer_inv_def)
next
  case (e_ack rd io err c' ws)
  then show ?thesis using emit_conn(2) [OF e_ack(7) [unfolded sendAck_def]] assms(5) by (simp add: peer_inv_def)
next
  case (e_mack rd io err c' ws)
  then show ?thesis using emit_conn(2) [OF e_mack(7) [unfolded sendAck_def]] assms(5) by (simp add: peer_inv_def)
next
  case (e_beat io now err c' ws)
  then show ?thesis using emit_conn(2) [OF e_beat(7) [unfolded maint_heartbeat_def]] assms(5) by (simp add: peer_inv_def)
next
  case (e_data n bs k io c' ws pc err)
  have "k_peerAck c' = k_peerAck (ep_conn e)"
    using emit_conn(2) [OF conjunct1 [OF write_emit_emit [OF e_data(8) [unfolded e_data(5)] e_data(9)]]] .
  then show ?thesis using e_data(1) assms(5) by (simp add: peer_inv_def)
next
  case (e_close1 io c' ws err)
  then show ?thesis using emit_conn(2) [OF close_fin_emit [OF e_close1(7,8)]] assms(5) by (simp add: peer_inv_def)
next
  case (e_syn env x r' l)
  then show ?thesis using assms(5) by (auto simp: peer_inv_def split: option.splits if_splits)
next
  case (e_acked rd)
  then show ?thesis using assms(5) by (simp add: peer_inv_def sendAck_note_def)
next
  case (e_macked rd)
  then show ?thesis using assms(5) by (simp add: peer_inv_def sendAck_note_def)
next
  case (e_deadline c' t)
  then show ?thesis using assms(5) by (auto simp: peer_inv_def conn_ops)
qed (use assms(5) in \<open>auto simp: peer_inv_def conn_ops\<close>)

definition end_inv :: "endpoint \<Rightarrow> pipe \<Rightarrow> pipe \<Rightarrow> bool" where
  "end_inv e out inp \<longleftrightarrow> recv_inv e inp \<and> ack_inv e out \<and> send_inv e out \<and> pipe_link e inp"

definition ends_inv :: "endpoint \<Rightarrow> endpoint \<Rightarrow> pipe \<Rightarrow> pipe \<Rightarrow> bool" where
  "ends_inv a b ab ba \<longleftrightarrow> end_inv a ab ba \<and> end_inv b ba ab \<and> peer_inv (length (ep_in b)) a \<and> peer_inv (length (ep_in a)) b"

lemma ends_inv_sym: "ends_inv a b ab ba \<Longrightarrow> ends_inv b a ba ab"
  by (simp add: ends_inv_def)

text \<open>What an end has read is a prefix of the data its peer has appended.\<close>

lemma read_prefix:
  assumes "end_inv b ba ab"
  shows "prefix (ep_in b @ k_recvBuf (ep_conn b)) (data_of (p_sent ab))"
proof (cases "ep_live b")
  case True
  then have "ep_in b @ k_recvBuf (ep_conn b) = data_of (dispatched (ep_recv b) (p_got ab))"
    using assms by (auto simp: end_inv_def recv_inv_def)
  moreover have "prefix (p_got ab) (p_sent ab)" using assms by (auto simp: end_inv_def intro: pipe_link_prefix)
  ultimately show ?thesis using data_of_prefix prefix_order.trans [OF dispatched_prefix] by metis
next
  case False
  then show ?thesis using assms by (simp add: end_inv_def recv_inv_def)
qed

lemma ack_below_sent:
  assumes "ends_inv a b ab ba"
  shows "unat (k_peerAck (ep_conn a)) \<le> unat (k_sentData (ep_conn a))"
proof -
  have "length (ep_in b) \<le> length (data_of (p_sent ab))"
    using prefix_length_le [OF read_prefix [of b ba ab]] assms by (simp add: ends_inv_def)
  then show ?thesis using assms by (simp add: ends_inv_def end_inv_def send_inv_def peer_inv_def)
qed

lemma end_step_in_grows: "end_step (e, out, inp) (e', out', inp') \<Longrightarrow> prefix (ep_in e) (ep_in e')"
  by (cases rule: end_step.cases) (auto split: read_result.splits)

lemma ends_inv_step:
  assumes "end_step (a, ab, ba) (a', ab', ba')" "ends_inv a b ab ba"
  shows "ends_inv a' b ab' ba'"
proof -
  have i: "recv_inv a ba" "ack_inv a ab" "send_inv a ab" "pipe_link a ba" "recv_inv b ab" "ack_inv b ba" "send_inv b ba" "pipe_link b ab"
    "peer_inv (length (ep_in b)) a" "peer_inv (length (ep_in a)) b"
    using assms(2) by (simp_all add: ends_inv_def end_inv_def)
  note fr = end_step_frame [OF assms(1)]
  have "end_inv a' ab' ba'"
    using recv_inv_step [OF assms(1) i(1)] ack_inv_step [OF assms(1) i(2,1)] send_inv_step [OF assms(1) i(3) ack_below_sent [OF assms(2)]]
      pipe_link_in [OF assms(1) i(1,4)] by (simp add: end_inv_def)
  moreover have "recv_inv b ab'" "ack_inv b ba'" "send_inv b ba'" using i(5-7) fr by (simp_all add: recv_inv_def ack_inv_def send_inv_def)
  then have "end_inv b ba' ab'" using pipe_link_out [OF assms(1) i(3,8)] by (simp add: end_inv_def)
  moreover have "peer_inv (length (ep_in b)) a'" by (rule peer_inv_step [OF assms(1) i(1,6) pipe_link_prefix [OF i(4)] i(9)])
  moreover have "peer_inv (length (ep_in a')) b"
    using i(10) prefix_length_le [OF end_step_in_grows [OF assms(1)]] by (auto simp: peer_inv_def)
  ultimately show ?thesis by (simp add: ends_inv_def)
qed

section \<open>What Write returns\<close>

definition write_count :: "write_pc \<Rightarrow> nat" where
  "write_count pc = (case pc of WIdle \<Rightarrow> 0 | WWait bs k \<Rightarrow> k | WGrant n bs k \<Rightarrow> k | WRet k er \<Rightarrow> k)"

definition write_left :: "write_pc \<Rightarrow> byte list option" where
  "write_left pc = (case pc of WIdle \<Rightarrow> None | WWait bs k \<Rightarrow> Some bs | WGrant n bs k \<Rightarrow> Some bs
     | WRet k er \<Rightarrow> if er = None then Some [] else None)"

text \<open>The data appended so far is what earlier calls counted and what the current call has counted.\<close>

definition write_inv :: "endpoint \<Rightarrow> pipe \<Rightarrow> bool" where
  "write_inv e out \<longleftrightarrow>
     data_of (p_sent out) = ep_out e @ take (write_count (ep_write e)) (ep_buf e) \<and>
     write_count (ep_write e) \<le> length (ep_buf e) \<and>
     (\<forall>bs. write_left (ep_write e) = Some bs \<longrightarrow> bs = drop (write_count (ep_write e)) (ep_buf e))"

lemmas write_pcs = write_count_def write_left_def

lemma write_inv_cong:
  "write_inv e out \<Longrightarrow> ep_write e' = ep_write e \<Longrightarrow> ep_buf e' = ep_buf e \<Longrightarrow> ep_out e' = ep_out e \<Longrightarrow>
   data_of (p_sent out') = data_of (p_sent out) \<Longrightarrow> write_inv e' out'"
  by (simp add: write_inv_def)

lemma write_look_count:
  "write_count (write_look c pc) = write_count pc \<and>
   (write_left (write_look c pc) = write_left pc \<or> write_left (write_look c pc) = None)"
  by (cases pc) (auto simp: write_look_def write_pcs split: option.split sum.split)

lemma write_wake_count:
  assumes "write_wake ev c pc = (c', pc')"
  shows "write_count pc' = write_count pc \<and> (write_left pc' = write_left pc \<or> write_left pc' = None)"
proof (cases pc)
  case (WWait bs k)
  show ?thesis
  proof (cases ev)
    case WakeSignal
    then show ?thesis using assms WWait write_look_count [of c pc] by (auto simp: write_wake_def split: if_splits)
  qed (use assms WWait in \<open>auto simp: write_wake_def write_pcs split: if_splits\<close>)
qed (use assms in \<open>auto simp: write_wake_def\<close>)

lemma write_inv_pc:
  assumes "write_inv e out" "write_count pc = write_count (ep_write e) \<and> (write_left pc = write_left (ep_write e) \<or> write_left pc = None)"
  shows "write_inv (e\<lparr> ep_conn := c', ep_write := pc \<rparr>) out"
  using assms by (auto simp: write_inv_def)

lemma write_inv_data:
  assumes "write_inv e out" "ep_write e = WGrant n bs k" "n \<le> length bs"
    "pc = (case err of Some er \<Rightarrow> WRet k (Some er)
           | None \<Rightarrow> if drop n bs = [] then WRet (k + n) None else WWait (drop n bs) (k + n))"
  shows "write_inv (e\<lparr> ep_conn := c', ep_write := pc \<rparr>) (emitted (emit_frame frameDATA (take n bs) (ep_conn e)) err ws out)"
proof -
  have i: "data_of (p_sent out) = ep_out e @ take k (ep_buf e)" "k \<le> length (ep_buf e)" "bs = drop k (ep_buf e)"
    using assms(1,2) by (simp_all add: write_inv_def write_pcs)
  show ?thesis
  proof (cases err)
    case None
    have "take (k + n) (ep_buf e) = take k (ep_buf e) @ take n bs" using i by (simp add: take_add)
    moreover have "k + n \<le> length (ep_buf e)" using i assms(3) by simp
    ultimately show ?thesis using i assms(4) None
      by (auto simp: write_inv_def write_pcs emit_frame_def add.commute split: if_splits)
  next
    case (Some er)
    then show ?thesis using i assms(4) by (simp add: write_inv_def write_pcs)
  qed
qed

lemma end_step_data:
  assumes "end_step (e, out, inp) (e', out', inp')"
  shows "data_of (p_sent out') = data_of (p_sent out) \<or> (\<exists>n bs k. ep_write e = WGrant n bs k)"
  using assms by (cases rule: end_step.cases) (auto simp: emit_frame_def frame_types)

lemma write_inv_step:
  assumes "end_step (e, out, inp) (e', out', inp')" "write_inv e out" "send_inv e out"
  shows "write_inv e' out'"
  using assms(1)
proof (cases rule: end_step.cases)
  case (e_data n bs k io c' ws pc err)
  have "n \<le> length bs" using assms(3) e_data(5) by (auto simp: send_inv_def)
  then show ?thesis unfolding e_data(1,2)
    using write_emit_emit [OF e_data(8) [unfolded e_data(5)] e_data(9)]
    by (intro write_inv_data [OF assms(2) e_data(5)]) simp_all
next
  case e_window
  then show ?thesis using write_inv_pc [OF assms(2) write_look_count, where c' = "ep_conn e"] by simp
next
  case (e_wake ev c' pc)
  then show ?thesis using write_inv_pc [OF assms(2) write_wake_count [OF e_wake(5)]] by simp
next
  case (e_write k bs)
  then show ?thesis using assms(2) by (auto simp: write_inv_def write_pcs write_begin_def)
qed (auto simp: emit_frame_def frame_types intro!: write_inv_cong [OF assms(2)])

section \<open>Acknowledgements arrive\<close>

text \<open>What an end has noted as acknowledged it has sent; what it has dispatched it has heeded.\<close>

definition ack_sent :: "uint64 \<Rightarrow> pipe \<Rightarrow> bool" where
  "ack_sent v out \<longleftrightarrow> (\<exists>f \<in> set (p_sent out). frame_typ f = frameACK \<and> frame_payload f = encodeUint64 v)"

definition noted_inv :: "endpoint \<Rightarrow> pipe \<Rightarrow> bool" where
  "noted_inv e out \<longleftrightarrow>
     (k_lastAckSent (ep_conn e) = 0 \<or> ack_sent (k_lastAckSent (ep_conn e)) out) \<and>
     (\<forall>v. ep_ack e = ASent v \<longrightarrow> ack_sent v out) \<and> (\<forall>v. ep_maint e = MSent v \<longrightarrow> ack_sent v out)"

definition heard_inv :: "endpoint \<Rightarrow> pipe \<Rightarrow> bool" where
  "heard_inv e inp \<longleftrightarrow>
     (ep_live e \<longrightarrow> (\<forall>f \<in> set (dispatched (ep_recv e) (p_got inp)). \<forall>v. frame_typ f = frameACK \<longrightarrow>
        frame_payload f = encodeUint64 v \<longrightarrow> v \<le> k_peerAck (ep_conn e)))"

lemma ack_sent_mono: "ack_sent v out \<Longrightarrow> prefix (p_sent out) (p_sent out') \<Longrightarrow> ack_sent v out'"
  using set_mono_prefix by (fastforce simp: ack_sent_def)

lemma end_step_noted:
  assumes "end_step (e, out, inp) (e', out', inp')"
  shows "(k_lastAckSent (ep_conn e') = k_lastAckSent (ep_conn e) \<or> ep_ack e = ASent (k_lastAckSent (ep_conn e')) \<or>
      ep_maint e = MSent (k_lastAckSent (ep_conn e'))) \<and>
    (\<forall>v. ep_ack e' = ASent v \<longrightarrow> ep_ack e = ASent v \<or> ack_sent v out') \<and>
    (\<forall>v. ep_maint e' = MSent v \<longrightarrow> ep_maint e = MSent v \<or> ack_sent v out')"
  using assms
proof (cases rule: end_step.cases)
  case (e_poll env x r' c' l now)
  have "k_lastAckSent c' = k_lastAckSent (ep_conn e)"
    using e_poll(8) by (cases x) (auto simp: conn_ops split: sum.splits if_splits)
  then show ?thesis using e_poll by simp
next
  case (e_dispatch f c' l)
  have "k_lastAckSent c' = k_lastAckSent (ep_conn e)"
    using e_dispatch(6) by (auto simp: recv_dispatch_def dispatch_def conn_ops Let_def split: if_splits option.splits)
  then show ?thesis using e_dispatch by simp
next
  case (e_read res c' ev n)
  have "k_lastAckSent c' = k_lastAckSent (ep_conn e)"
    using e_read(6) by (auto simp: read_look_def read_wake_def Let_def split: option.splits wake_event.splits if_splits)
  then show ?thesis using e_read by (simp split: read_result.splits)
next
  case (e_ack rd io err c' ws)
  then show ?thesis using emit_conn(3) [OF e_ack(7) [unfolded sendAck_def]]
    by (simp add: ack_sent_def emit_frame_def)
next
  case (e_mack rd io err c' ws)
  then show ?thesis using emit_conn(3) [OF e_mack(7) [unfolded sendAck_def]]
    by (simp add: ack_sent_def emit_frame_def)
next
  case (e_beat io now err c' ws)
  then show ?thesis using emit_conn(3) [OF e_beat(7) [unfolded maint_heartbeat_def]] by simp
next
  case (e_data n bs k io c' ws pc err)
  have "k_lastAckSent c' = k_lastAckSent (ep_conn e)"
    using emit_conn(3) [OF conjunct1 [OF write_emit_emit [OF e_data(8) [unfolded e_data(5)] e_data(9)]]] .
  then show ?thesis using e_data(1,2) by simp
next
  case (e_close1 io c' ws err)
  then show ?thesis using emit_conn(3) [OF close_fin_emit [OF e_close1(7,8)]] by simp
next
  case (e_tick rc now c' rd)
  have "k_lastAckSent c' = k_lastAckSent (ep_conn e)" using e_tick(6) by (auto simp: conn_ops split: if_splits)
  then show ?thesis using e_tick by (simp split: option.splits)
next
  case (e_wake ev c' pc)
  have "k_lastAckSent c' = k_lastAckSent (ep_conn e)" using write_wake_disj [OF e_wake(5)] by auto
  then show ?thesis using e_wake by simp
qed (auto simp: sendAck_note_def conn_ops)

lemma noted_inv_step:
  assumes "end_step (e, out, inp) (e', out', inp')" "noted_inv e out"
  shows "noted_inv e' out'"
proof -
  have p: "prefix (p_sent out) (p_sent out')" using end_step_frame [OF assms(1)] by simp
  show ?thesis
    using end_step_noted [OF assms(1)] assms(2) ack_sent_mono [OF _ p] unfolding noted_inv_def by metis
qed

lemma end_step_peerAck:
  assumes "end_step (e, out, inp) (e', out', inp')"
  shows "k_peerAck (ep_conn e) \<le> k_peerAck (ep_conn e')"
  using assms
proof (cases rule: end_step.cases)
  case (e_dispatch f c' l)
  then show ?thesis
    by (auto simp: recv_dispatch_def dispatch_def conn_ops Let_def split: if_splits option.splits)
next
  case (e_poll env x r' c' l now)
  have "k_peerAck c' = k_peerAck (ep_conn e)"
    using e_poll(8) by (cases x) (auto simp: conn_ops split: sum.splits if_splits)
  then show ?thesis using e_poll by simp
next
  case (e_read res c' ev n)
  have "k_peerAck c' = k_peerAck (ep_conn e)"
    using e_read(6) by (auto simp: read_look_def read_wake_def Let_def split: option.splits wake_event.splits if_splits)
  then show ?thesis using e_read by simp
next
  case (e_ack rd io err c' ws)
  then show ?thesis using emit_conn(2) [OF e_ack(7) [unfolded sendAck_def]] by simp
next
  case (e_mack rd io err c' ws)
  then show ?thesis using emit_conn(2) [OF e_mack(7) [unfolded sendAck_def]] by simp
next
  case (e_beat io now err c' ws)
  then show ?thesis using emit_conn(2) [OF e_beat(7) [unfolded maint_heartbeat_def]] by simp
next
  case (e_data n bs k io c' ws pc err)
  have "k_peerAck c' = k_peerAck (ep_conn e)"
    using emit_conn(2) [OF conjunct1 [OF write_emit_emit [OF e_data(8) [unfolded e_data(5)] e_data(9)]]] .
  then show ?thesis using e_data(1) by simp
next
  case (e_close1 io c' ws err)
  then show ?thesis using emit_conn(2) [OF close_fin_emit [OF e_close1(7,8)]] by simp
next
  case (e_tick rc now c' rd)
  have "k_peerAck c' = k_peerAck (ep_conn e)" using e_tick(6) by (auto simp: conn_ops split: if_splits)
  then show ?thesis using e_tick by simp
next
  case (e_wake ev c' pc)
  have "k_peerAck c' = k_peerAck (ep_conn e)" using write_wake_disj [OF e_wake(5)] by auto
  then show ?thesis using e_wake by simp
qed (auto simp: sendAck_note_def conn_ops)

text \<open>What a step does to the frames dispatched.\<close>

lemma end_step_dispatched:
  assumes "end_step (e, out, inp) (e', out', inp')" "recv_inv e inp"
  shows "ep_live e' \<longrightarrow>
    ep_live e \<and> dispatched (ep_recv e') (p_got inp') = dispatched (ep_recv e) (p_got inp) \<or>
    (\<exists>f. dispatched (ep_recv e') (p_got inp') = [f] \<and> frame_typ f = frameSYN) \<or>
    (\<exists>f. ep_live e \<and> ep_recv e = LGot f \<and> dispatched (ep_recv e') (p_got inp') = dispatched (ep_recv e) (p_got inp) @ [f] \<and>
       recv_dispatch f (ep_conn e) = (ep_conn e', ep_recv e'))"
  using assms(1)
proof (cases rule: end_step.cases)
  case (e_syn env x r' l)
  have nl: "\<not> ep_live e" "p_got inp = []" using assms(2) e_syn(4) by (auto simp: recv_inv_def split: if_splits)
  show ?thesis
  proof (cases "l = Some True")
    case True
    with e_syn(7) obtain y where y: "x = Ret y" "syn_accepts y = Some True" by (cases x) auto
    then obtain f where f: "x = Ret (Inr f)" "frame_typ f = frameSYN"
      by (cases y) (auto simp: syn_accepts_def syn_result_def split: if_splits)
    then show ?thesis using nl True e_syn by (simp add: deliver_def dispatched_def)
  qed (use e_syn nl in simp)
next
  case (e_poll env x r' c' l now)
  have "dispatched l (deliver (p_got inp) x) = p_got inp"
    using e_poll(8) by (cases x) (auto simp: recv_returned_def dispatched_def deliver_def split: sum.splits if_splits)
  then show ?thesis using e_poll by (simp add: dispatched_def)
next
  case (e_dispatch f c' l)
  have g: "p_got inp = butlast (p_got inp) @ [f]" using assms(2) e_dispatch
    by (auto simp: recv_inv_def dest: append_butlast_last_id split: if_splits)
  have "\<forall>h. l \<noteq> LGot h" using e_dispatch(6)
    by (auto simp: recv_dispatch_def split: prod.splits option.splits if_splits)
  then have "dispatched l (p_got inp) = p_got inp" by (simp add: dispatched_def split: recv_pc.split)
  moreover have "dispatched (LGot f) (p_got inp) = butlast (p_got inp)" by (simp add: dispatched_def)
  ultimately show ?thesis using e_dispatch g by simp
qed (auto simp: dispatched_def conn_ops)

lemma heard_inv_step:
  assumes "end_step (e, out, inp) (e', out', inp')" "recv_inv e inp" "heard_inv e inp"
  shows "heard_inv e' inp'"
proof (cases "ep_live e'")
  case True
  note d = end_step_dispatched [OF assms(1,2), rule_format, OF True]
  show ?thesis using d
  proof (elim disjE conjE exE)
    assume l: "ep_live e" and d: "dispatched (ep_recv e') (p_got inp') = dispatched (ep_recv e) (p_got inp)"
    show ?thesis using assms(3) l d order_trans [OF _ end_step_peerAck [OF assms(1)]] by (auto simp: heard_inv_def)
  next
    fix f assume "dispatched (ep_recv e') (p_got inp') = [f]" "frame_typ f = frameSYN"
    then show ?thesis by (auto simp: heard_inv_def frame_types)
  next
    fix f assume l: "ep_live e" "recv_dispatch f (ep_conn e) = (ep_conn e', ep_recv e')"
      and d: "dispatched (ep_recv e') (p_got inp') = dispatched (ep_recv e) (p_got inp) @ [f]"
    have "(\<forall>v. frame_typ f = frameACK \<longrightarrow> frame_payload f = encodeUint64 v \<longrightarrow> v \<le> k_peerAck (ep_conn e'))"
      using l(2) [symmetric] by (auto simp: recv_dispatch_def dispatch_def conn_ops Let_def frame_types split: if_splits option.splits)
    then show ?thesis using assms(3) l(1) d order_trans [OF _ end_step_peerAck [OF assms(1)]] by (auto simp: heard_inv_def)
  qed
qed (simp add: heard_inv_def)


section \<open>Runs\<close>

lemma pipe_inv_reader:
  assumes "pipe_inv p" "p_r p = newSegReader n"
  shows "pipe_inv (p\<lparr> p_r := newSegReader net \<rparr>)"
  using assms by (auto simp: pipe_inv_def reader_inv_def newSegReader_def)

lemma syn_pipe_inv:
  assumes "syn_pipe rc params net p"
  shows "pipe_inv p \<and> p_sent p = [syn_frame params] \<and> p_got p = []"
proof -
  from assms obtain io w fs where io: "clean (io_roll io)" "clean (io_write io)"
    and h: "handshake_send io True True rc params empty_dir = Inr (w, fs)"
    and p: "p = \<lparr> p_fs = fs, p_w = w, p_r = newSegReader net, p_sent = [syn_frame params], p_got = [] \<rparr>"
    by (auto simp: syn_pipe_def)
  from h obtain w0 fs0 w1 fs1 where n: "newSegWriter True True rc empty_dir = Inr (w0, fs0)"
    and a: "seg_append io (syn_frame params) 0 (w0, fs0) = (None, w1, fs1)" and s: "syncNow (w1, fs1) = (w, fs)"
    by (auto simp: handshake_send_def split: sum.splits prod.splits option.splits)
  define p0 where "p0 = \<lparr> p_fs = fs0, p_w = w0, p_r = newSegReader (rc_netFS rc), p_sent = [], p_got = [] \<rparr>"
  have "pipe_start rc p0" using n by (simp add: pipe_start_def p0_def)
  then have i0: "pipe_inv p0" by (rule pipe_inv_start)
  have "sw_cur w0 = 0" using n by (auto simp: newSegWriter_def openCur_def Let_def split: if_splits prod.splits)
  moreover have "frame_ok (syn_frame params)" "frame_typ (syn_frame params) \<noteq> frameROLL"
    by (simp_all add: syn_frame_def frame_ok_def frame_types maxPayload_def)
  ultimately have "pipe_step p0 (p0\<lparr> p_w := w1, p_fs := fs1,
      p_sent := (if None = (None :: seg_error option) then p_sent p0 @ [syn_frame params] else p_sent p0) \<rparr>)"
    using a io by (intro pipe_step.p_append [of io _ _ 0 None]) (simp_all add: p0_def)
  from pipe_inv_step [OF i0 this] have i1: "pipe_inv (p0\<lparr> p_w := w1, p_fs := fs1, p_sent := [syn_frame params] \<rparr>)"
    by (simp add: p0_def)
  have "pipe_step (p0\<lparr> p_w := w1, p_fs := fs1, p_sent := [syn_frame params] \<rparr>)
      (p0\<lparr> p_w := w1, p_fs := fs1, p_sent := [syn_frame params] \<rparr>\<lparr> p_w := w, p_fs := fs \<rparr>)"
    using s by (intro pipe_step.p_syncnow) simp
  from pipe_inv_reader [OF pipe_inv_step [OF i1 this], of _ net] show ?thesis by (simp add: p p0_def)
qed

definition duplex_inv :: "duplex \<Rightarrow> bool" where
  "duplex_inv d \<longleftrightarrow> ends_inv (d_a d) (d_b d) (d_ab d) (d_ba d) \<and>
     write_inv (d_a d) (d_ab d) \<and> write_inv (d_b d) (d_ba d) \<and>
     noted_inv (d_a d) (d_ab d) \<and> noted_inv (d_b d) (d_ba d) \<and>
     heard_inv (d_a d) (d_ba d) \<and> heard_inv (d_b d) (d_ab d)"

lemma new_end_inv:
  assumes "params_ok p" "syn_pipe rc p net out" "syn_pipe rc2 p2 net2 inp"
  shows "end_inv (new_end p now) out inp \<and> write_inv (new_end p now) out \<and> noted_inv (new_end p now) out \<and>
    heard_inv (new_end p now) inp \<and> peer_inv m (new_end p now)"
  using assms(1) syn_pipe_inv [OF assms(2)] syn_pipe_inv [OF assms(3)]
  by (auto simp: end_inv_def recv_inv_def ack_inv_def send_inv_def pipe_link_def write_inv_def noted_inv_def heard_inv_def
      peer_inv_def new_end_def newConn_def syn_frame_def write_pcs frame_types params_ok_def)

lemma duplex_inv_start: "duplex_start rcA pA rcB pB d \<Longrightarrow> duplex_inv d"
  unfolding duplex_start_def
proof (elim conjE exE)
  fix t u
  assume a: "params_ok pA" "syn_pipe rcA pA (rc_netFS rcB) (d_ab d)" "d_a d = new_end pA t"
    and b: "params_ok pB" "syn_pipe rcB pB (rc_netFS rcA) (d_ba d)" "d_b d = new_end pB u"
  have e: "ep_in (new_end pA t) = []" "ep_in (new_end pB u) = []" by (simp_all add: new_end_def)
  show ?thesis
    using new_end_inv [OF a(1,2) b(2), of t 0] new_end_inv [OF b(1,2) a(2), of u 0]
    by (simp add: duplex_inv_def ends_inv_def a(3) b(3) e)
qed

lemma duplex_inv_step:
  assumes "duplex_inv d" "duplex_step d d'"
  shows "duplex_inv d'"
  using assms(2)
proof cases
  case (left a' ab' ba')
  have i: "ends_inv (d_a d) (d_b d) (d_ab d) (d_ba d)" "recv_inv (d_a d) (d_ba d)" "send_inv (d_a d) (d_ab d)"
    using assms(1) by (simp_all add: duplex_inv_def ends_inv_def end_inv_def)
  have "write_inv (d_b d) ba' \<and> noted_inv (d_b d) ba' \<and> heard_inv (d_b d) ab'"
    using assms(1) end_step_frame [OF left(2)] by (simp add: duplex_inv_def write_inv_def noted_inv_def heard_inv_def ack_sent_def)
  then show ?thesis
    using ends_inv_step [OF left(2) i(1)] write_inv_step [OF left(2) _ i(3)] noted_inv_step [OF left(2)] heard_inv_step [OF left(2) i(2)]
      assms(1) by (simp add: duplex_inv_def left(1))
next
  case (right b' ba' ab')
  have i: "ends_inv (d_b d) (d_a d) (d_ba d) (d_ab d)" "recv_inv (d_b d) (d_ab d)" "send_inv (d_b d) (d_ba d)"
    using assms(1) by (simp_all add: duplex_inv_def ends_inv_def end_inv_def)
  have "write_inv (d_a d) ab' \<and> noted_inv (d_a d) ab' \<and> heard_inv (d_a d) ba'"
    using assms(1) end_step_frame [OF right(2)] by (simp add: duplex_inv_def write_inv_def noted_inv_def heard_inv_def ack_sent_def)
  then show ?thesis
    using ends_inv_sym [OF ends_inv_step [OF right(2) i(1)]] write_inv_step [OF right(2) _ i(3)] noted_inv_step [OF right(2)]
      heard_inv_step [OF right(2) i(2)] assms(1) by (simp add: duplex_inv_def right(1))
qed

interpretation duplex_machine: invariant_machine "duplex_start rcA pA rcB pB" duplex_step duplex_inv for rcA pA rcB pB
  by unfold_locales (rule duplex_inv_start, assumption, rule duplex_inv_step)

end
