(* ===== verification/Fstun_Stream.thy ===== *)
theory Fstun_Stream
  imports Fstun_Flow
begin

text \<open>
  The contract of a filesystem connection: the stream, the end of the stream, flow control and its
  progress, over every run of the two ends, and a run of the model in which they can be seen.
\<close>

section \<open>A run\<close>

text \<open>Some of the steps as a function, with writes that succeed and every byte visible.\<close>

datatype end_action =
    XSyn | XPoll | XDispatch | XReap | XRead nat | XDue | XAck | XAcked
  | XWrite "byte list" | XWindow | XData | XFin

definition open_io :: seg_io where
  "open_io = \<lparr> io_roll = WOk, io_open = True, io_write = WOk \<rparr>"

fun act :: "end_action \<Rightarrow> endpoint \<times> pipe \<times> pipe \<Rightarrow> (endpoint \<times> pipe \<times> pipe) option" where
  "act XSyn (e, out, inp) =
     (let (x, r') = next_iter (open_env (p_fs inp)) (p_fs inp) (p_r inp);
          l = (case x of Again \<Rightarrow> None | Ret y \<Rightarrow> syn_accepts y)
      in if ep_recv e = LSyn \<and> stable_view (open_env (p_fs inp)) (p_fs inp) (p_r inp)
         then Some (e\<lparr> ep_recv := (case l of None \<Rightarrow> LSyn | Some ok \<Rightarrow> if ok then LPoll else LStop), ep_live := (l = Some True) \<rparr>,
                    out, inp\<lparr> p_r := r', p_got := deliver (p_got inp) x \<rparr>)
         else None)"
| "act XPoll (e, out, inp) =
     (let (x, r') = next_iter (open_env (p_fs inp)) (p_fs inp) (p_r inp);
          (c', l) = (case x of Again \<Rightarrow> (ep_conn e, LPoll) | Ret y \<Rightarrow> recv_returned y 0 (ep_conn e))
      in if ep_live e \<and> ep_recv e = LPoll \<and> stable_view (open_env (p_fs inp)) (p_fs inp) (p_r inp)
         then Some (e\<lparr> ep_conn := c', ep_recv := l \<rparr>, out, inp\<lparr> p_r := r', p_got := deliver (p_got inp) x \<rparr>)
         else None)"
| "act XDispatch (e, out, inp) =
     (case ep_recv e of
        LGot f \<Rightarrow> let (c', l) = recv_dispatch f (ep_conn e)
                  in if ep_live e then Some (e\<lparr> ep_conn := c', ep_recv := l \<rparr>, out, inp) else None
      | _ \<Rightarrow> None)"
| "act XReap (e, out, inp) =
     (case ep_recv e of
        LReap ack \<Rightarrow> let (c', w', fs') = dispatch_reap ack (ep_conn e, p_w out, p_fs out)
                     in if ep_live e then Some (e\<lparr> ep_conn := c', ep_recv := LPoll \<rparr>, out\<lparr> p_w := w', p_fs := fs' \<rparr>, inp) else None
      | _ \<Rightarrow> None)"
| "act (XRead n) (e, out, inp) =
     (let (res, c') = read_look n (ep_conn e)
      in if ep_live e \<and> ep_ack e = AIdle
         then Some (e\<lparr> ep_conn := c', ep_in := (case res of RBytes b \<Rightarrow> ep_in e @ b | _ \<Rightarrow> ep_in e),
                       ep_ack := (case res of RBytes b \<Rightarrow> ASnap (k_recvData c') | _ \<Rightarrow> AIdle) \<rparr>, out, inp)
         else None)"
| "act XDue (e, out, inp) =
     (case ep_ack e of
        ASnap rd \<Rightarrow> if ep_live e
          then Some (e\<lparr> ep_ack := (if maybeAck_due rd (ep_conn e) then ASend rd else AIdle) \<rparr>, out, inp) else None
      | _ \<Rightarrow> None)"
| "act XAck (e, out, inp) =
     (case ep_ack e of
        ASend rd \<Rightarrow> let (err, c', ws) = sendAck open_io rd (ep_conn e, p_w out, p_fs out)
          in if ep_live e \<and> sw_cur (p_w out) = 0
             then Some (e\<lparr> ep_conn := c', ep_ack := (if err = None then ASent rd else AIdle) \<rparr>,
                        emitted (emit_frame frameACK (encodeUint64 rd) (ep_conn e)) err ws out, inp) else None
      | _ \<Rightarrow> None)"
| "act XAcked (e, out, inp) =
     (case ep_ack e of
        ASent rd \<Rightarrow> if ep_live e then Some (e\<lparr> ep_conn := sendAck_note rd (ep_conn e), ep_ack := AIdle \<rparr>, out, inp) else None
      | _ \<Rightarrow> None)"
| "act (XWrite bs) (e, out, inp) =
     (if ep_live e \<and> ep_write e = WIdle
      then Some (e\<lparr> ep_write := write_begin bs, ep_buf := bs, ep_out := ep_out e \<rparr>, out, inp) else None)"
| "act XWindow (e, out, inp) =
     (if ep_live e then Some (e\<lparr> ep_write := write_look (ep_conn e) (ep_write e) \<rparr>, out, inp) else None)"
| "act XData (e, out, inp) =
     (case ep_write e of
        WGrant n bs k \<Rightarrow>
          let (err, c', ws) = emit open_io frameDATA (take n bs) (ep_conn e, p_w out, p_fs out);
              pc = snd (write_emit open_io (ep_conn e, p_w out, p_fs out) (ep_write e))
          in if ep_live e \<and> sw_cur (p_w out) = 0 \<and> k_sentData (ep_conn e) < 1000 \<and> n < 1000
             then Some (e\<lparr> ep_conn := c', ep_write := pc \<rparr>, emitted (emit_frame frameDATA (take n bs) (ep_conn e)) err ws out, inp)
             else None
      | _ \<Rightarrow> None)"
| "act XFin (e, out, inp) =
     (let (err, c', ws) = emit open_io frameFIN [] (ep_conn e, p_w out, p_fs out)
      in if ep_live e \<and> ep_close e = COpen \<and> sw_cur (p_w out) = 0
         then Some (e\<lparr> ep_conn := c', ep_close := CFin \<rparr>, emitted (emit_frame frameFIN [] (ep_conn e)) err ws out, inp) else None)"

lemma open_io_ok: "sw_cur (p_w out) = 0 \<Longrightarrow> io_ok open_io out"
  by (simp add: io_ok_def open_io_def clean_def)

lemma act_sound:
  assumes "act x (e, out, inp) = Some (e', out', inp')"
  shows "end_step (e, out, inp) (e', out', inp')"
proof (cases x)
  case XSyn
  then show ?thesis using assms
    by (auto simp: Let_def split: prod.splits if_splits intro!: end_step.e_syn)
next
  case XPoll
  then show ?thesis using assms
    by (auto simp: Let_def split: prod.splits if_splits intro!: end_step.e_poll [where now = 0])
next
  case XDispatch
  then show ?thesis using assms
    by (auto simp: Let_def split: prod.splits if_splits recv_pc.splits intro!: end_step.e_dispatch)
next
  case XReap
  then show ?thesis using assms
    by (auto simp: Let_def split: prod.splits if_splits recv_pc.splits intro!: end_step.e_reap)
next
  case (XRead n)
  then show ?thesis using assms
    by (auto simp: Let_def split: prod.splits if_splits intro!: end_step.e_read [where ev = None and n = n])
next
  case XDue
  then obtain rd where "ep_ack e = ASnap rd" using assms by (auto split: ack_pc.splits)
  then show ?thesis using assms XDue end_step.e_due [of e rd out inp] by (auto split: if_split_asm)
next
  case XAck
  then obtain rd where a: "ep_ack e = ASend rd" using assms by (auto split: ack_pc.splits)
  obtain err c' ws where m: "sendAck open_io rd (ep_conn e, p_w out, p_fs out) = (err, c', ws)" by (metis prod_cases3)
  then show ?thesis using assms XAck a end_step.e_ack [OF _ a open_io_ok m, where inp = inp]
    by (auto simp: Let_def split: if_split_asm)
next
  case XAcked
  then show ?thesis using assms by (auto split: if_splits ack_pc.splits intro!: end_step.e_acked)
next
  case (XWrite bs)
  then show ?thesis using assms end_step.e_write [of e 0 out inp bs] by (auto split: if_splits)
next
  case XWindow
  then show ?thesis using assms by (auto split: if_splits intro!: end_step.e_window)
next
  case XFin
  then show ?thesis using assms
    by (auto simp: Let_def close_fin_def split: prod.splits if_splits intro!: end_step.e_close1 [OF _ _ open_io_ok])
next
  case XData
  then obtain n bs k where w: "ep_write e = WGrant n bs k" using assms by (auto split: write_pc.splits)
  obtain err c' ws where m: "emit open_io frameDATA (take n bs) (ep_conn e, p_w out, p_fs out) = (err, c', ws)" by (metis prod_cases3)
  have a: "ep_live e" "sw_cur (p_w out) = 0" "k_sentData (ep_conn e) < 1000" "n < 1000"
    "e' = e\<lparr> ep_conn := c', ep_write := snd (write_emit open_io (ep_conn e, p_w out, p_fs out) (ep_write e)) \<rparr>"
    "out' = emitted (emit_frame frameDATA (take n bs) (ep_conn e)) err ws out" "inp' = inp"
    using assms XData w m by (auto simp: Let_def split: if_splits)
  have "unat (k_sentData (ep_conn e)) < 1000" using a(3) by (simp add: word_less_nat_alt)
  then have "unat (k_sentData (ep_conn e)) + n < 2 ^ 63" using a(4) by simp
  moreover have "write_emit open_io (ep_conn e, p_w out, p_fs out) (ep_write e) =
      ((c', ws), snd (write_emit open_io (ep_conn e, p_w out, p_fs out) (ep_write e)))"
    by (simp add: write_emit_def w m split: option.split)
  ultimately show ?thesis unfolding a(5-7)
    by (intro end_step.e_data [OF a(1) w open_io_ok [OF a(2)]]) (simp_all add: m)
qed

fun play :: "(bool \<times> end_action) list \<Rightarrow> duplex \<Rightarrow> duplex option" where
  "play [] d = Some d"
| "play ((left, x) # xs) d =
     (if left
      then case act x (d_a d, d_ab d, d_ba d) of
             None \<Rightarrow> None
           | Some (a', ab', ba') \<Rightarrow> play xs (d\<lparr> d_a := a', d_ab := ab', d_ba := ba' \<rparr>)
      else case act x (d_b d, d_ba d, d_ab d) of
             None \<Rightarrow> None
           | Some (b', ba', ab') \<Rightarrow> play xs (d\<lparr> d_b := b', d_ba := ba', d_ab := ab' \<rparr>))"

lemma play_reach: "play xs d = Some d' \<Longrightarrow> reach start duplex_step d \<Longrightarrow> reach start duplex_step d'"
proof (induction xs arbitrary: d)
  case (Cons y xs)
  obtain left x where y: "y = (left, x)" by fastforce
  from Cons.prems(1) obtain d1 where "duplex_step d d1" "play xs d1 = Some d'"
    by (auto simp: y split: if_splits option.splits dest!: act_sound intro: duplex_step.intros)
  then show ?case using Cons.IH Cons.prems(2) reach_step by metis
qed simp

text \<open>A pipe all of whose frames are in the first segment, and a reader of it with some frames buffered.\<close>

definition demo_params :: synParams where
  "demo_params = \<lparr> syn_version = 1, syn_segmentSize = 1000, syn_window = 8, syn_maxFrame = 4 \<rparr>"

definition demo_conf :: resolvedConfig where
  "demo_conf = demo_rc\<lparr> rc_netFS := False, rc_segmentSize := 1000 \<rparr>"

definition one_fs :: "frame list \<Rightarrow> fsdir" where
  "one_fs gs = (run_fs gs)\<lparr> synced := (\<lambda>_. 0)(0 := length (encode (syn_frame demo_params))) \<rparr>"

definition one_reader :: "frame list \<Rightarrow> frame list \<Rightarrow> segReader" where
  "one_reader gs hs = \<lparr> sr_netFS = False, sr_cur = 0, sr_f = Some 0, sr_off = length (encode_all gs), sr_buf = encode_all hs \<rparr>"

definition one_pipe :: "frame list \<Rightarrow> segReader \<Rightarrow> frame list \<Rightarrow> pipe" where
  "one_pipe gs r got = \<lparr> p_fs = one_fs gs, p_w = run_writer demo_conf gs, p_r = r, p_sent = gs, p_got = got \<rparr>"

lemma one_pipe_simps [simp]:
  "p_fs (one_pipe gs r got) = one_fs gs" "p_w (one_pipe gs r got) = run_writer demo_conf gs"
  "p_r (one_pipe gs r got) = r" "p_sent (one_pipe gs r got) = gs" "p_got (one_pipe gs r got) = got"
  "(one_pipe gs r got)\<lparr> p_r := r', p_got := got' \<rparr> = one_pipe gs r' got'"
  by (simp_all add: one_pipe_def)

lemma one_next_open [simp]:
  "next_iter (open_env (one_fs (g # gs))) (one_fs (g # gs)) (newSegReader False) = (Again, one_reader (g # gs) (g # gs))"
  by (simp add: next_iter_def openWait_def next_decode_def fill_def newSegReader_def one_fs_def one_reader_def run_fs_def
      open_env_def reopen_fails_def Let_def length_encode)

lemma one_next_fill [simp]:
  assumes "ks = gs @ h # hs"
  shows "next_iter (open_env (one_fs ks)) (one_fs ks) (one_reader gs []) = (Again, one_reader ks (h # hs))"
  by (simp add: next_iter_def next_decode_def fill_def one_fs_def one_reader_def run_fs_def assms
      open_env_def reopen_fails_def Let_def length_encode)

lemma one_next_frame [simp]:
  "frame_ok h \<Longrightarrow> frame_typ h \<noteq> frameROLL \<Longrightarrow> next_iter env fs (one_reader gs (h # hs)) = (Ret (Inr h), one_reader gs hs)"
  using decode_encode [of h "encode_all hs"] by (simp add: next_iter_def next_decode_def one_reader_def Let_def)

lemma one_stable [simp]: "stable_view env fs (one_reader gs hs)" "stable_view env fs (newSegReader False)"
  by (simp_all add: stable_view_def one_reader_def newSegReader_def)

lemma one_append:
  assumes "gs \<noteq> []" "length (encode_all gs) + length (encode g) \<le> 1000"
  shows "seg_append open_io g d (run_writer demo_conf gs, one_fs gs) =
    (None, run_writer demo_conf (gs @ [g]), one_fs (gs @ [g]))"
  using assms
  by (simp add: seg_append_def file_write_def fs_write_def Let_def run_defs one_fs_def open_io_def demo_conf_def demo_rc_def
      length_encode fun_eq_iff)

lemma one_emit:
  assumes "gs \<noteq> []" "length (encode_all gs) + 26 + length payload \<le> 1000" "\<not> k_sendClosed c"
  shows "emit open_io typ payload (c, run_writer demo_conf gs, one_fs gs) =
    (None, c\<lparr> k_sendSeq := k_sendSeq c + 1,
       k_sentData := (if typ = frameDATA then k_sentData c + word_of_nat (length payload) else k_sentData c) \<rparr>,
     run_writer demo_conf (gs @ [emit_frame typ payload c]), one_fs (gs @ [emit_frame typ payload c]))"
proof -
  have "length (encode_all gs) + length (encode (emit_frame typ payload c)) \<le> 1000"
    using assms(2) by (simp add: length_encode emit_frame_def)
  note one_append [OF assms(1) this]
  then show ?thesis using assms(3) by (cases "typ = frameDATA") (simp_all add: emit_def emit_frame_def Let_def)
qed

lemma one_emitted [simp]:
  "emitted f None (run_writer demo_conf (gs @ [f]), one_fs (gs @ [f])) (one_pipe gs r got) = one_pipe (gs @ [f]) r got"
  by (simp add: emitted_def one_pipe_def)

definition demo_duplex :: duplex where
  "demo_duplex = (let p = one_pipe [syn_frame demo_params] (newSegReader False) [];
     e = new_end demo_params 0 in \<lparr> d_a = e, d_b = e, d_ab = p, d_ba = p \<rparr>)"

lemma demo_params_ok: "params_ok demo_params"
  by (simp add: params_ok_def demo_params_def maxPayload_def)

lemma demo_duplex_start: "duplex_start demo_conf demo_params demo_conf demo_params demo_duplex"
proof -
  have "handshake_send open_io True True demo_conf demo_params empty_dir =
      Inr (run_writer demo_conf [syn_frame demo_params], one_fs [syn_frame demo_params])"
    by (simp add: handshake_send_def newSegWriter_def openCur_def fs_create_def empty_dir_def Let_def seg_append_def
        file_write_def file_sync_def fs_write_def fs_sync_def syncNow_def run_defs one_fs_def open_io_def demo_conf_def demo_rc_def fun_eq_iff)
  then have "syn_pipe demo_conf demo_params False (one_pipe [syn_frame demo_params] (newSegReader False) [])"
    unfolding syn_pipe_def
    by (intro exI [of _ open_io]) (simp add: one_pipe_def open_io_def clean_def)
  then show ?thesis using demo_params_ok
    by (auto simp: duplex_start_def demo_duplex_def demo_conf_def Let_def)
qed


text \<open>Both ends read the SYN; the left end writes four bytes and closes; the right end reads and acknowledges.\<close>

definition demo_transfer :: "(bool \<times> end_action) list" where
  "demo_transfer = map (Pair True) [XSyn, XSyn] @ map (Pair False) [XSyn, XSyn] @
     map (Pair True) [XWrite [104, 105, 33, 33], XWindow, XData, XFin] @
     map (Pair False) [XPoll, XPoll, XDispatch, XRead 9, XDue, XAck, XAcked, XPoll, XDispatch] @
     map (Pair True) [XPoll, XPoll, XDispatch, XReap]"

text \<open>The left end fills the window of eight bytes.\<close>

definition demo_blocked :: "(bool \<times> end_action) list" where
  "demo_blocked = map (Pair True) [XSyn, XSyn, XWrite [1, 2, 3, 4, 5, 6, 7, 8, 9], XWindow, XData, XWindow, XData]"

lemma demo_frames [simp]:
  "frame_ok (emit_frame t p c) \<longleftrightarrow> length p \<le> maxPayload" "frame_typ (emit_frame t p c) = t"
  "frame_payload (emit_frame t p c) = p"
  "frame_ok (syn_frame q)" "frame_typ (syn_frame q) = frameSYN" "length (encode (syn_frame q)) = 48"
  "length (encode (emit_frame t p c)) = 26 + length p"
  "syn_accepts (Inr (syn_frame demo_params)) = Some True"
  by (simp_all add: emit_frame_def frame_ok_def syn_frame_def maxPayload_def length_encode
      syn_accepts_def syn_result_def handshake_peer_def protocolVersion_def demo_params_def)

lemmas run_simps = demo_duplex_def new_end_def newConn_def one_emit write_emit_def
  send_room_def chunk_size_def maxPayload_def sendAck_def maybeAck_due_def sendAck_note_def dispatch_reap_def
  Let_def deliver_def frame_types recv_returned_def recv_dispatch_def dispatch_def
  read_look_def write_begin_def write_look_def waitSendWindow_def

lemma demo_fields [simp]:
  "syn_window demo_params = 8" "syn_maxFrame demo_params = 4" "sw_cur (run_writer rc gs) = 0"
  "reap ack (run_writer rc gs, fs) = (run_writer rc gs, fs)"
  "(one_pipe gs r got)\<lparr> p_w := run_writer demo_conf gs, p_fs := one_fs gs \<rparr> = one_pipe gs r got"
  by (simp_all add: demo_params_def run_writer_def reap_def one_pipe_def)

lemma demo_transfer_run:
  "\<exists>d. reach (duplex_start demo_conf demo_params demo_conf demo_params) duplex_step d \<and>
     ep_in (d_b d) = [104, 105, 33, 33] \<and> ep_write (d_a d) = WRet 4 None \<and> ep_buf (d_a d) = [104, 105, 33, 33] \<and>
     fst (read_look 1 (ep_conn (d_b d))) = REOF \<and> k_peerAck (ep_conn (d_a d)) = 4 \<and> k_sentData (ep_conn (d_a d)) = 4"
proof -
  have "\<exists>d. play demo_transfer demo_duplex = Some d \<and>
     ep_in (d_b d) = [104, 105, 33, 33] \<and> ep_write (d_a d) = WRet 4 None \<and> ep_buf (d_a d) = [104, 105, 33, 33] \<and>
     fst (read_look 1 (ep_conn (d_b d))) = REOF \<and> k_peerAck (ep_conn (d_a d)) = 4 \<and> k_sentData (ep_conn (d_a d)) = 4"
    by (simp add: run_simps demo_transfer_def)
  then show ?thesis using play_reach [OF _ reach_start [of "duplex_start demo_conf demo_params demo_conf demo_params", OF demo_duplex_start]] by blast
qed

lemma demo_blocked_run:
  "\<exists>d. reach (duplex_start demo_conf demo_params demo_conf demo_params) duplex_step d \<and> ep_live (d_a d) \<and>
     send_room (ep_conn (d_a d)) = 0 \<and> length (data_of (p_sent (d_ab d))) = 8 \<and> k_sentData (ep_conn (d_a d)) = 8 \<and>
     ep_write (d_a d) = WWait [9] 8"
proof -
  have "\<exists>d. play demo_blocked demo_duplex = Some d \<and> ep_live (d_a d) \<and>
     send_room (ep_conn (d_a d)) = 0 \<and> length (data_of (p_sent (d_ab d))) = 8 \<and> k_sentData (ep_conn (d_a d)) = 8 \<and>
     ep_write (d_a d) = WWait [9] 8"
    by (simp add: run_simps demo_blocked_def data_of_def)
  then show ?thesis using play_reach [OF _ reach_start [of "duplex_start demo_conf demo_params demo_conf demo_params", OF demo_duplex_start]] by blast
qed

section \<open>Properties\<close>

lemma duplex_reach:
  assumes "reach (duplex_start rcA pA rcB pB) duplex_step d"
  shows "ends_inv (d_a d) (d_b d) (d_ab d) (d_ba d)" "ends_inv (d_b d) (d_a d) (d_ba d) (d_ab d)"
    "write_inv (d_a d) (d_ab d)" "write_inv (d_b d) (d_ba d)" "noted_inv (d_b d) (d_ba d)" "heard_inv (d_a d) (d_ba d)"
  using duplex_machine.reach_inv [OF assms] ends_inv_sym by (simp_all add: duplex_inv_def)

lemma ends_stream:
  assumes "ends_inv a b ab ba" "write_inv a ab"
  shows "prefix (ep_in b) (ep_out a @ take (write_count (ep_write a)) (ep_buf a))"
proof -
  have "end_inv b ba ab" using assms(1) by (simp add: ends_inv_def)
  from append_prefixD [OF read_prefix [OF this]] show ?thesis using assms(2) by (simp add: write_inv_def)
qed

text \<open>
  C7. A filesystem connection is a byte stream. Assume that the file system appends a write whole
  or not at all, and that a segment that is reopened is found again. Then in every interleaving of
  the goroutines of both ends, with partial views of the files, what the calls of \<open>Read\<close> on one end
  have returned is a prefix of what the calls of \<open>Write\<close> on the other end have counted as written,
  in order and without loss or repetition, in both directions; and on either end a call of \<open>Write\<close>
  that returned without an error counted its whole buffer.
\<close>

theorem duplex_stream:
  "reach (duplex_start rcA pA rcB pB) duplex_step d \<Longrightarrow>
   prefix (ep_in (d_b d)) (ep_out (d_a d) @ take (write_count (ep_write (d_a d))) (ep_buf (d_a d))) \<and>
   prefix (ep_in (d_a d)) (ep_out (d_b d) @ take (write_count (ep_write (d_b d))) (ep_buf (d_b d))) \<and>
   (\<forall>k. ep_write (d_a d) = WRet k None \<longrightarrow> k = length (ep_buf (d_a d))) \<and>
   (\<forall>k. ep_write (d_b d) = WRet k None \<longrightarrow> k = length (ep_buf (d_b d)))"
proof (intro conjI allI impI)
  assume "reach (duplex_start rcA pA rcB pB) duplex_step d"
  note inv = duplex_reach [OF this]
  show "prefix (ep_in (d_b d)) (ep_out (d_a d) @ take (write_count (ep_write (d_a d))) (ep_buf (d_a d)))"
    "prefix (ep_in (d_a d)) (ep_out (d_b d) @ take (write_count (ep_write (d_b d))) (ep_buf (d_b d)))"
    by (rule ends_stream [OF inv(1,3)], rule ends_stream [OF inv(2,4)])
  show "k = length (ep_buf (d_a d))" if "ep_write (d_a d) = WRet k None" for k
    using inv(3) that by (simp add: write_inv_def write_pcs)
  show "k = length (ep_buf (d_b d))" if "ep_write (d_b d) = WRet k None" for k
    using inv(4) that by (simp add: write_inv_def write_pcs)
qed

theorem duplex_stream_witness:
  "\<exists>d. reach (duplex_start demo_conf demo_params demo_conf demo_params) duplex_step d \<and>
     ep_in (d_b d) = [104, 105, 33, 33] \<and> ep_write (d_a d) = WRet 4 None \<and>
     prefix (ep_in (d_b d)) (ep_out (d_a d) @ take (write_count (ep_write (d_a d))) (ep_buf (d_a d)))"
  using demo_transfer_run duplex_stream by blast

lemma ends_flow:
  assumes e: "ends_inv a b ab ba"
  shows "unat (k_sentData (ep_conn a)) - unat (k_peerAck (ep_conn a)) \<le> unat (syn_window (k_params (ep_conn a)))"
    "unat (k_peerAck (ep_conn a)) \<le> length (ep_in b)" "length (ep_in b) \<le> unat (k_sentData (ep_conn a))"
    "length (k_recvBuf (ep_conn b)) \<le> unat (syn_window (k_params (ep_conn a)))"
proof -
  have s: "send_inv a ab" and p: "peer_inv (length (ep_in b)) a" and r: "end_inv b ba ab"
    using e by (simp_all add: ends_inv_def end_inv_def)
  have "length (ep_in b) + length (k_recvBuf (ep_conn b)) \<le> length (data_of (p_sent ab))"
    using prefix_length_le [OF read_prefix [OF r]] by simp
  moreover have "length (data_of (p_sent ab)) \<le> unat (k_sentData (ep_conn a))"
    "unat (k_sentData (ep_conn a)) \<le> unat (k_peerAck (ep_conn a)) + unat (syn_window (k_params (ep_conn a)))"
    using s by (simp_all add: send_inv_def)
  moreover show "unat (k_peerAck (ep_conn a)) \<le> length (ep_in b)" using p by (simp add: peer_inv_def)
  ultimately show "unat (k_sentData (ep_conn a)) - unat (k_peerAck (ep_conn a)) \<le> unat (syn_window (k_params (ep_conn a)))"
    "length (ep_in b) \<le> unat (k_sentData (ep_conn a))"
    "length (k_recvBuf (ep_conn b)) \<le> unat (syn_window (k_params (ep_conn a)))" by linarith+
qed

text \<open>
  C6. Flow control holds in both directions. Assume that the file system appends a write whole or
  not at all, and that a segment that is reopened is found again. Then in every run the data an
  end has in flight stays within its window, an end never believes that its peer has consumed
  more than the calls of \<open>Read\<close> there have returned, and so the receive buffer of the peer never
  exceeds the sender's window.
\<close>

theorem duplex_flow_control:
  "reach (duplex_start rcA pA rcB pB) duplex_step d \<Longrightarrow>
   unat (k_sentData (ep_conn (d_a d))) - unat (k_peerAck (ep_conn (d_a d))) \<le> unat (syn_window (k_params (ep_conn (d_a d)))) \<and>
   unat (k_peerAck (ep_conn (d_a d))) \<le> length (ep_in (d_b d)) \<and>
   length (ep_in (d_b d)) \<le> unat (k_sentData (ep_conn (d_a d))) \<and>
   length (k_recvBuf (ep_conn (d_b d))) \<le> unat (syn_window (k_params (ep_conn (d_a d)))) \<and>
   unat (k_sentData (ep_conn (d_b d))) - unat (k_peerAck (ep_conn (d_b d))) \<le> unat (syn_window (k_params (ep_conn (d_b d)))) \<and>
   unat (k_peerAck (ep_conn (d_b d))) \<le> length (ep_in (d_a d)) \<and>
   length (ep_in (d_a d)) \<le> unat (k_sentData (ep_conn (d_b d))) \<and>
   length (k_recvBuf (ep_conn (d_a d))) \<le> unat (syn_window (k_params (ep_conn (d_b d))))"
  using ends_flow [OF duplex_reach(1)] ends_flow [OF duplex_reach(2)] by (intro conjI)

theorem duplex_flow_control_witness:
  "\<exists>d. reach (duplex_start demo_conf demo_params demo_conf demo_params) duplex_step d \<and>
     k_sentData (ep_conn (d_a d)) = 8 \<and> ep_write (d_a d) = WWait [9] 8 \<and>
     length (k_recvBuf (ep_conn (d_b d))) \<le> unat (syn_window (k_params (ep_conn (d_a d))))"
  using demo_blocked_run duplex_flow_control by blast

text \<open>
  C19. The end of the stream is never reported early: when a call of \<open>Read\<close> reports the end, the
  peer has sent its FIN, and every byte it appended before the FIN has been returned by the calls
  of \<open>Read\<close>.
\<close>

theorem duplex_eof:
  "reach (duplex_start rcA pA rcB pB) duplex_step d \<Longrightarrow> fst (read_look n (ep_conn (d_b d))) = REOF \<Longrightarrow>
   \<exists>pre fin post. p_sent (d_ab d) = pre @ fin # post \<and> frame_typ fin = frameFIN \<and> prefix (data_of pre) (ep_in (d_b d))"
proof -
  assume reach: "reach (duplex_start rcA pA rcB pB) duplex_step d" and eof: "fst (read_look n (ep_conn (d_b d))) = REOF"
  have r: "recv_inv (d_b d) (d_ab d)" and l: "pipe_link (d_b d) (d_ab d)"
    using duplex_reach(1) [OF reach] by (simp_all add: ends_inv_def end_inv_def)
  note p = pipe_link_prefix [OF l]
  let ?d = "dispatched (ep_recv (d_b d)) (p_got (d_ab d))"
  have e: "k_recvBuf (ep_conn (d_b d)) = []" "k_recvEOF (ep_conn (d_b d))"
    using eof by (auto simp: read_look_def Let_def split: if_splits option.splits)
  then have "ep_in (d_b d) = data_of ?d \<and> (\<exists>f \<in> set ?d. frame_typ f = frameFIN)"
    using r by (auto simp: recv_inv_def split: if_splits)
  then obtain fin where fin: "fin \<in> set ?d" "frame_typ fin = frameFIN" and i: "ep_in (d_b d) = data_of ?d" by blast
  then obtain pre ys where d: "?d = pre @ fin # ys" by (meson split_list)
  obtain zs where "p_sent (d_ab d) = ?d @ zs" using prefix_order.trans [OF dispatched_prefix p] by (auto simp: prefix_def)
  then have "p_sent (d_ab d) = pre @ fin # (ys @ zs)" using d by simp
  moreover have "prefix (data_of pre) (ep_in (d_b d))" unfolding i d by simp
  ultimately show ?thesis using fin(2) by blast
qed

theorem duplex_eof_witness:
  "\<exists>d pre fin post. reach (duplex_start demo_conf demo_params demo_conf demo_params) duplex_step d \<and>
     ep_in (d_b d) = [104, 105, 33, 33] \<and> p_sent (d_ab d) = pre @ fin # post \<and> frame_typ fin = frameFIN \<and>
     prefix (data_of pre) (ep_in (d_b d))"
proof -
  obtain d where d: "reach (duplex_start demo_conf demo_params demo_conf demo_params) duplex_step d"
    "ep_in (d_b d) = [104, 105, 33, 33]" "fst (read_look 1 (ep_conn (d_b d))) = REOF" using demo_transfer_run by blast
  from duplex_eof [OF d(1,3)] d(1,2) show ?thesis by (intro exI [of _ d]) simp
qed

text \<open>
  C18. Flow control cannot deadlock: when no append of data has failed and an end has no room left
  to send, the peer has data it has not read yet, or its maintenance loop owes an acknowledgement
  that its next tick sends, or frames of the peer are waiting to be handled by this end.
\<close>

theorem duplex_no_deadlock:
  "reach (duplex_start rcA pA rcB pB) duplex_step d \<Longrightarrow> ep_live (d_a d) \<Longrightarrow>
   length (data_of (p_sent (d_ab d))) = unat (k_sentData (ep_conn (d_a d))) \<Longrightarrow> send_room (ep_conn (d_a d)) \<le> 0 \<Longrightarrow>
   ep_in (d_b d) \<noteq> data_of (p_sent (d_ab d)) \<or> maint_due (k_recvData (ep_conn (d_b d))) (ep_conn (d_b d)) \<or>
   dispatched (ep_recv (d_a d)) (p_got (d_ba d)) \<noteq> p_sent (d_ba d)"
proof (rule ccontr)
  let ?a = "ep_conn (d_a d)" and ?b = "ep_conn (d_b d)"
  assume reach: "reach (duplex_start rcA pA rcB pB) duplex_step d" and live: "ep_live (d_a d)"
    and sent: "length (data_of (p_sent (d_ab d))) = unat (k_sentData ?a)" and room: "send_room ?a \<le> 0"
    and "\<not> (ep_in (d_b d) \<noteq> data_of (p_sent (d_ab d)) \<or> maint_due (k_recvData ?b) ?b \<or>
       dispatched (ep_recv (d_a d)) (p_got (d_ba d)) \<noteq> p_sent (d_ba d))"
  then have all: "ep_in (d_b d) = data_of (p_sent (d_ab d))" and due: "k_recvData ?b \<le> k_lastAckSent ?b"
    and disp: "dispatched (ep_recv (d_a d)) (p_got (d_ba d)) = p_sent (d_ba d)" by (simp_all add: maint_due_def not_less)
  note inv = duplex_reach [OF reach]
  have s: "send_inv (d_a d) (d_ab d)" "recv_inv (d_b d) (d_ab d)" using inv(1) by (simp_all add: ends_inv_def end_inv_def)
  have "k_recvData ?b = k_sentData ?a" using s(2) all sent by (simp add: recv_inv_def)
  then have le: "k_sentData ?a \<le> k_lastAckSent ?b" using due by simp
  have "k_sentData ?a \<le> k_peerAck ?a"
  proof (cases "k_lastAckSent ?b = 0")
    case False
    then obtain f where "f \<in> set (p_sent (d_ba d))" "frame_typ f = frameACK" "frame_payload f = encodeUint64 (k_lastAckSent ?b)"
      using inv(5) by (auto simp: noted_inv_def ack_sent_def)
    then have "k_lastAckSent ?b \<le> k_peerAck ?a" using inv(6) live disp by (simp add: heard_inv_def)
    then show ?thesis using le by simp
  qed (use le in simp)
  then have "unat (k_sentData ?a) \<le> unat (k_peerAck ?a)" by (simp add: word_le_nat_alt)
  moreover have "0 < unat (syn_window (k_params ?a))" using s(1) by (simp add: send_inv_def params_ok_def)
  moreover have "send_room ?a = int (unat (k_peerAck ?a) + unat (syn_window (k_params ?a)) - unat (k_sentData ?a))"
    using s(1) ack_below_sent [OF inv(1)] by (intro send_room_window) (simp_all add: send_inv_def params_ok_def)
  ultimately show False using room of_nat_0_less_iff [where 'a = int] by (metis add_gr_0 add_diff_assoc2 not_le)
qed

theorem duplex_no_deadlock_witness:
  "\<exists>d. reach (duplex_start demo_conf demo_params demo_conf demo_params) duplex_step d \<and>
     send_room (ep_conn (d_a d)) = 0 \<and> ep_write (d_a d) = WWait [9] 8 \<and>
     (ep_in (d_b d) \<noteq> data_of (p_sent (d_ab d)) \<or> maint_due (k_recvData (ep_conn (d_b d))) (ep_conn (d_b d)) \<or>
      dispatched (ep_recv (d_a d)) (p_got (d_ba d)) \<noteq> p_sent (d_ba d))"
proof -
  obtain d where d: "reach (duplex_start demo_conf demo_params demo_conf demo_params) duplex_step d" "ep_live (d_a d)"
    "send_room (ep_conn (d_a d)) = 0" "length (data_of (p_sent (d_ab d))) = 8" "k_sentData (ep_conn (d_a d)) = 8"
    "ep_write (d_a d) = WWait [9] 8" using demo_blocked_run by blast
  have "length (data_of (p_sent (d_ab d))) = unat (k_sentData (ep_conn (d_a d)))" "send_room (ep_conn (d_a d)) \<le> 0"
    using d(3-5) by simp_all
  from duplex_no_deadlock [OF d(1,2) this] d(1,3,6) show ?thesis by (intro exI [of _ d] conjI)
qed

end
