(* ===== verification/Fstun_Listen.thy ===== *)
theory Fstun_Listen
  imports Fstun_Conn "HOL-Library.AList" "HOL-Library.Multiset"
begin

text \<open>
  The acceptor (\<open>transport/fstun/listen.go\<close>, \<open>inbox.go\<close>, \<open>doorbell.go\<close>) and the announcement of an
  initiator (\<open>dial.go\<close>): the layout of the tree below the root, the inbox of arrival markers, the
  doorbell, the scans that engage tunnels, and what removes files.

  The file system is a tree of directories and files with their modification times, addressed by
  cleaned absolute paths. An operation that lists or stats takes the view of the tree the host
  shows it, which on a network file system may differ from the tree; removals act on the tree and
  may fail, a removal of a directory also half-way.
  Modification times of the directories above a changed entry are left alone: the program reads
  those of a tunnel's own directories and files only.
\<close>

section \<open>Files\<close>

type_synonym path = "string list"

datatype node = File int | Dir int "(string \<times> node) list"

primrec mtime :: "node \<Rightarrow> int" where
  "mtime (File t) = t"
| "mtime (Dir t es) = t"

primrec isDir :: "node \<Rightarrow> bool" where
  "isDir (File t) \<longleftrightarrow> False"
| "isDir (Dir t es) \<longleftrightarrow> True"

fun stat :: "node \<Rightarrow> path \<Rightarrow> node option" where
  "stat n [] = Some n"
| "stat (File t) (x # xs) = None"
| "stat (Dir t es) (x # xs) = (case map_of es x of None \<Rightarrow> None | Some m \<Rightarrow> stat m xs)"

text \<open>\<open>os.ReadDir\<close>; \<open>None\<close> is its error.\<close>

definition readDir :: "node \<Rightarrow> path \<Rightarrow> (string \<times> node) list option" where
  "readDir n p = (case stat n p of Some (Dir t es) \<Rightarrow> Some es | _ \<Rightarrow> None)"

text \<open>\<open>os.RemoveAll\<close>; the root of the file system itself cannot be removed, only emptied.\<close>

fun removeAll :: "path \<Rightarrow> node \<Rightarrow> node" where
  "removeAll p (File t) = File t"
| "removeAll [] (Dir t es) = Dir t []"
| "removeAll [x] (Dir t es) = Dir t (AList.delete x es)"
| "removeAll (x # y # ys) (Dir t es) = Dir t (map (\<lambda>(z, m). (z, if z = x then removeAll (y # ys) m else m)) es)"

text \<open>\<open>os.Remove\<close> takes a file or an empty directory.\<close>

definition removeFile :: "path \<Rightarrow> node \<Rightarrow> node" where
  "removeFile p n =
     (case stat n p of
        Some (File t) \<Rightarrow> removeAll p n
      | Some (Dir t []) \<Rightarrow> if p = [] then n else removeAll p n
      | _ \<Rightarrow> n)"

text \<open>
  What the operating system makes of removals: \<open>None\<close> is success; otherwise the call fails, a
  \<open>RemoveAll\<close> after it has removed the given places below the path.
\<close>

type_synonym rm_io = "path \<Rightarrow> path list option"

definition rmAll :: "rm_io \<Rightarrow> path \<Rightarrow> node \<Rightarrow> node" where
  "rmAll rm p n = (case rm p of None \<Rightarrow> removeAll p n | Some qs \<Rightarrow> fold (\<lambda>q. removeAll (p @ q)) qs n)"

definition rmFile :: "rm_io \<Rightarrow> path \<Rightarrow> node \<Rightarrow> node" where
  "rmFile rm p n = (case rm p of None \<Rightarrow> removeFile p n | Some _ \<Rightarrow> n)"

text \<open>A change at a path, with the directories on the way made as \<open>os.MkdirAll\<close> does.\<close>

fun edit :: "int \<Rightarrow> path \<Rightarrow> (node option \<Rightarrow> node) \<Rightarrow> node option \<Rightarrow> node" where
  "edit now [] f n = f n"
| "edit now (x # xs) f None = Dir now [(x, edit now xs f None)]"
| "edit now (x # xs) f (Some (Dir t es)) = Dir t (AList.update x (edit now xs f (map_of es x)) es)"
| "edit now (x # xs) f (Some (File t)) = File t"

text \<open>\<open>filepath.Join\<close> of an absolute path with more components: \<open>..\<close> goes up, blank and \<open>.\<close> stay.\<close>

fun clean_onto :: "path \<Rightarrow> string list \<Rightarrow> path" where
  "clean_onto p [] = p"
| "clean_onto p (x # xs) =
     clean_onto (if x = [] \<or> x = ''.'' then p else if x = ''..'' then butlast p else p @ [x]) xs"

definition pathJoin :: "path \<Rightarrow> string list \<Rightarrow> path" where
  "pathJoin p xs = clean_onto p xs"

section \<open>Layout\<close>

definition inboxDirName :: string where "inboxDirName = ''inbox''"
definition hashPrefixLen :: nat where "hashPrefixLen = 2"
definition doorbellName :: string where "doorbellName = ''.doorbell''"

definition connPath :: "path \<Rightarrow> string \<Rightarrow> path" where
  "connPath root cid =
     (if length cid \<le> hashPrefixLen then pathJoin root [cid]
      else pathJoin root [take hashPrefixLen cid, drop hashPrefixLen cid])"

definition inboxMarkerPath :: "path \<Rightarrow> string \<Rightarrow> path" where
  "inboxMarkerPath root cid = pathJoin root [inboxDirName, cid]"

text \<open>
  The identifier of a connection is the hexadecimal form of 16 random bytes; \<open>None\<close> stands for a
  random source that fails.
\<close>

definition hexEncode :: "byte list \<Rightarrow> string" where
  "hexEncode bs = concat (map (\<lambda>b. [hex_digit (unat (b div 16)), hex_digit (unat (b mod 16))]) bs)"

definition newConnID :: "byte list option \<Rightarrow> string option" where
  "newConnID rnd = map_option hexEncode rnd"

section \<open>Announcing\<close>

text \<open>
  What the file operations of an announcement report. Creating a file needs its directory, and a
  directory in its place is in the way.
\<close>

record announce_io =
  an_mkdir :: bool
  an_open :: bool
  an_bell :: bool
  an_chtimes :: bool

definition creatable :: "node \<Rightarrow> path \<Rightarrow> bool" where
  "creatable n p =
     (case stat n p of
        Some m \<Rightarrow> \<not> isDir m
      | None \<Rightarrow> (case stat n (butlast p) of Some d \<Rightarrow> isDir d | None \<Rightarrow> False))"

definition writeInboxMarker :: "announce_io \<Rightarrow> int \<Rightarrow> path \<Rightarrow> string \<Rightarrow> node \<Rightarrow> node \<times> bool" where
  "writeInboxMarker io now root cid n =
     (if \<not> an_mkdir io then (n, False)
      else let n1 = edit now (pathJoin root [inboxDirName]) (\<lambda>d. case d of Some m \<Rightarrow> m | None \<Rightarrow> Dir now []) (Some n)
           in if \<not> an_open io \<or> \<not> creatable n1 (inboxMarkerPath root cid) then (n1, False)
              else (edit now (inboxMarkerPath root cid) (\<lambda>_. File now) (Some n1), True))"

definition ringDoorbell :: "announce_io \<Rightarrow> int \<Rightarrow> path \<Rightarrow> node \<Rightarrow> node \<times> bool" where
  "ringDoorbell io now root n =
     (let db = pathJoin root [doorbellName]
      in if \<not> an_bell io \<or> \<not> creatable n db then (n, False)
         else let n1 = edit now db (\<lambda>f. case f of Some m \<Rightarrow> m | None \<Rightarrow> File now) (Some n)
              in if \<not> an_chtimes io then (n1, False)
                 else (edit now db (\<lambda>_. File now) (Some n1), True))"

text \<open>The part of \<open>handshake\<close> between the SYN and the wait: only the initiator announces itself.\<close>

definition announce :: "announce_io \<Rightarrow> role \<Rightarrow> int \<Rightarrow> int \<Rightarrow> path \<Rightarrow> string \<Rightarrow> node \<Rightarrow> node" where
  "announce io r now1 now2 root cid n =
     (if r = RoleInitiator then
        let (n1, ok) = writeInboxMarker io now1 root cid n
        in if ok then fst (ringDoorbell io now2 root n1) else n1
      else n)"

text \<open>What \<open>Dial\<close> does when the handshake has failed.\<close>

definition dial_cleanup :: "rm_io \<Rightarrow> path \<Rightarrow> string \<Rightarrow> node \<Rightarrow> node" where
  "dial_cleanup rm root cid n = rmFile rm (inboxMarkerPath root cid) (rmAll rm (connPath root cid) n)"

section \<open>The doorbell\<close>

record doorbellState =
  db_mtimeNanos :: int
  db_seen :: bool

definition db_changed :: "node \<Rightarrow> path \<Rightarrow> doorbellState \<Rightarrow> bool \<times> doorbellState" where
  "db_changed view root s =
     (case stat view (pathJoin root [doorbellName]) of
        None \<Rightarrow> (False, s)
      | Some fi \<Rightarrow>
          let m = mtime fi
          in if \<not> db_seen s \<or> m \<noteq> db_mtimeNanos s then (True, \<lparr> db_mtimeNanos = m, db_seen = True \<rparr>) else (False, s))"

definition slowScanInterval :: int where "slowScanInterval = 30 * second"
definition doorbellRescans :: nat where "doorbellRescans = 3"

definition doorbellInterval :: "resolvedConfig \<Rightarrow> int" where
  "doorbellInterval rc = (if 0 < rc_pollInterval rc then rc_pollInterval rc else 25 * millisecond)"

text \<open>The fast case of \<open>watchLoop\<close>: whether it scans, and the state it keeps.\<close>

definition fast_tick :: "node \<Rightarrow> path \<Rightarrow> doorbellState \<times> nat \<Rightarrow> bool \<times> doorbellState \<times> nat" where
  "fast_tick view root = (\<lambda>(db, rescans).
     let (ch, db') = db_changed view root db;
         r = (if ch then doorbellRescans else rescans)
     in if 0 < r then (True, db', r - 1) else (False, db', r))"

section \<open>Scans\<close>

text \<open>
  The acceptor's state: the tree, the identifiers it has begun accepting, the goroutines that run
  \<open>accept\<close> and \<open>reapWhenDone\<close>, the pipes \<open>Accept\<close> has returned, and whether it is closed.
\<close>

datatype accept_pc = Handshaking | Offering
datatype reap_pc = Watching | Removed

record listener =
  li_root :: path
  li_tree :: node
  li_seen :: "string set"
  li_accept :: "(string \<times> accept_pc) list"
  li_reap :: "(string \<times> reap_pc) list"
  li_returned :: "string list"
  li_closed :: bool

text \<open>
  \<open>Listen\<close> fails for a configuration that does not resolve and when the root cannot be made;
  otherwise it has a fresh listener.
\<close>

definition new_listener :: "path \<Rightarrow> int \<Rightarrow> node \<Rightarrow> listener" where
  "new_listener root now n =
     \<lparr> li_root = root, li_tree = edit now root (\<lambda>m. case m of None \<Rightarrow> Dir now [] | Some d \<Rightarrow> d) (Some n),
       li_seen = {}, li_accept = [], li_reap = [], li_returned = [], li_closed = False \<rparr>"

definition Listen :: "(resolvedConfig \<times> synParams) option \<Rightarrow> bool \<Rightarrow> path \<Rightarrow> int \<Rightarrow> node \<Rightarrow> listener option" where
  "Listen resolved mkdir_ok root now n =
     (case resolved of
        None \<Rightarrow> None
      | Some _ \<Rightarrow> if \<not> mkdir_ok then None else Some (new_listener root now n))"

text \<open>Whether the SYN segment of an initiator is visible, and the start of \<open>accept\<close> in a goroutine.\<close>

definition syn_visible :: "node \<Rightarrow> path \<Rightarrow> string \<Rightarrow> bool" where
  "syn_visible view root cid \<longleftrightarrow> stat view (pathJoin (connPath root cid) [''c2s'', segName 0]) \<noteq> None"

definition engage :: "string \<Rightarrow> listener \<Rightarrow> listener" where
  "engage cid l = l\<lparr> li_seen := insert cid (li_seen l), li_accept := li_accept l @ [(cid, Handshaking)] \<rparr>"

definition drop_marker :: "rm_io \<Rightarrow> string \<Rightarrow> listener \<Rightarrow> listener" where
  "drop_marker rm cid l = l\<lparr> li_tree := rmFile rm (pathJoin (li_root l) [inboxDirName, cid]) (li_tree l) \<rparr>"

definition scan_entry :: "rm_io \<Rightarrow> node \<Rightarrow> string \<times> node \<Rightarrow> listener \<Rightarrow> listener" where
  "scan_entry rm view = (\<lambda>(cid, e) l.
     if isDir e then l
     else if cid \<in> li_seen l then drop_marker rm cid l
     else if \<not> syn_visible view (li_root l) cid then l
     else drop_marker rm cid (engage cid l))"

definition scanInbox :: "rm_io \<Rightarrow> node \<Rightarrow> listener \<Rightarrow> listener" where
  "scanInbox rm view l =
     (case readDir view (pathJoin (li_root l) [inboxDirName]) of
        None \<Rightarrow> l
      | Some es \<Rightarrow> fold (scan_entry rm view) es l)"

text \<open>The directories of the work tree that \<open>startupScan\<close> and \<open>ageSweep\<close> visit, as pairs of names.\<close>

definition fanout_skipped :: "string \<times> node \<Rightarrow> bool" where
  "fanout_skipped = (\<lambda>(fo, e). \<not> isDir e \<or> fo = inboxDirName \<or> hasPrefix fo ''.'')"

definition fanout_dirs :: "node \<Rightarrow> path \<Rightarrow> string \<times> node \<Rightarrow> (string \<times> string) list" where
  "fanout_dirs view root x =
     (if fanout_skipped x then []
      else case readDir view (pathJoin root [fst x]) of
             None \<Rightarrow> []
           | Some rs \<Rightarrow> map (\<lambda>y. (fst x, fst y)) (filter (\<lambda>y. isDir (snd y)) rs))"

definition work_dirs :: "node \<Rightarrow> path \<Rightarrow> (string \<times> string) list" where
  "work_dirs view root =
     (case readDir view root of
        None \<Rightarrow> []
      | Some fos \<Rightarrow> concat (map (fanout_dirs view root) fos))"

definition startup_entry :: "node \<Rightarrow> string \<times> string \<Rightarrow> listener \<Rightarrow> listener" where
  "startup_entry view = (\<lambda>(fo, re) l.
     let cid = fo @ re
     in if \<not> syn_visible view (li_root l) cid then l
        else if cid \<in> li_seen l then l
        else engage cid l)"

definition startupScan :: "node \<Rightarrow> listener \<Rightarrow> listener" where
  "startupScan view l = fold (startup_entry view) (work_dirs view (li_root l)) l"

section \<open>Accepting and reaping\<close>

definition forget :: "string \<Rightarrow> listener \<Rightarrow> listener" where
  "forget cid l = l\<lparr> li_seen := li_seen l - {cid} \<rparr>"

text \<open>\<open>accept\<close> after its handshake, which failed or made a pipe.\<close>

definition accept_done :: "bool \<Rightarrow> string \<Rightarrow> listener \<Rightarrow> listener" where
  "accept_done ok cid l =
     (let l' = l\<lparr> li_accept := remove1 (cid, Handshaking) (li_accept l) \<rparr>
      in if \<not> ok then forget cid l'
         else l'\<lparr> li_accept := li_accept l' @ [(cid, Offering)], li_reap := li_reap l' @ [(cid, Watching)] \<rparr>)"

text \<open>\<open>Accept\<close> meets the goroutine that offers a pipe, or the listener is closed and the pipe with it.\<close>

definition Accept :: "string \<Rightarrow> listener \<Rightarrow> listener" where
  "Accept cid l = l\<lparr> li_accept := remove1 (cid, Offering) (li_accept l), li_returned := li_returned l @ [cid] \<rparr>"

definition accept_cancelled :: "string \<Rightarrow> listener \<Rightarrow> listener" where
  "accept_cancelled cid l = l\<lparr> li_accept := remove1 (cid, Offering) (li_accept l) \<rparr>"

text \<open>\<open>reapWhenDone\<close>: the pipe is terminal and its files go, then the identifier; or the listener is closed.\<close>

definition reap_files :: "rm_io \<Rightarrow> string \<Rightarrow> listener \<Rightarrow> listener" where
  "reap_files rm cid l =
     l\<lparr> li_tree := rmFile rm (inboxMarkerPath (li_root l) cid) (rmAll rm (connPath (li_root l) cid) (li_tree l)),
        li_reap := remove1 (cid, Watching) (li_reap l) @ [(cid, Removed)] \<rparr>"

definition reap_forget :: "string \<Rightarrow> listener \<Rightarrow> listener" where
  "reap_forget cid l = forget cid (l\<lparr> li_reap := remove1 (cid, Removed) (li_reap l) \<rparr>)"

definition reap_cancelled :: "string \<Rightarrow> listener \<Rightarrow> listener" where
  "reap_cancelled cid l = l\<lparr> li_reap := remove1 (cid, Watching) (li_reap l) \<rparr>"

definition listener_Close :: "listener \<Rightarrow> listener" where
  "listener_Close l = l\<lparr> li_closed := True \<rparr>"

section \<open>The age sweep\<close>

definition zeroTime :: int where
  "zeroTime = - 62135596800 * second"

definition newer :: "int \<Rightarrow> int \<Rightarrow> int" where
  "newer newest t = (if t > newest then t else newest)"

definition dir_activity :: "node \<Rightarrow> path \<Rightarrow> int \<Rightarrow> int" where
  "dir_activity view d newest =
     (let n1 = (case stat view d of None \<Rightarrow> newest | Some fi \<Rightarrow> newer newest (mtime fi))
      in case readDir view d of
           None \<Rightarrow> n1
         | Some es \<Rightarrow> fold (\<lambda>(x, e) n. newer n (mtime e)) es n1)"

definition subtreeLastActivity :: "node \<Rightarrow> path \<Rightarrow> int" where
  "subtreeLastActivity view connDir =
     (let n0 = (case stat view connDir of None \<Rightarrow> zeroTime | Some fi \<Rightarrow> newer zeroTime (mtime fi))
      in dir_activity view (pathJoin connDir [''s2c''])
           (dir_activity view (pathJoin connDir [''c2s'']) n0))"

definition sweep_marker :: "rm_io \<Rightarrow> int \<Rightarrow> string \<times> node \<Rightarrow> listener \<Rightarrow> listener" where
  "sweep_marker rm cutoff = (\<lambda>(cid, e) l.
     if isDir e then l
     else if cid \<in> li_seen l then l
     else if mtime e < cutoff then drop_marker rm cid l
     else l)"

definition sweep_tree :: "rm_io \<Rightarrow> node \<Rightarrow> int \<Rightarrow> string \<times> string \<Rightarrow> listener \<Rightarrow> listener" where
  "sweep_tree rm view cutoff = (\<lambda>(fo, re) l.
     if fo @ re \<in> li_seen l then l
     else let connDir = pathJoin (pathJoin (li_root l) [fo]) [re]
          in if subtreeLastActivity view connDir > cutoff then l
             else l\<lparr> li_tree := rmAll rm connDir (li_tree l) \<rparr>)"

definition ageSweep :: "rm_io \<Rightarrow> node \<Rightarrow> int \<Rightarrow> int \<Rightarrow> listener \<Rightarrow> listener" where
  "ageSweep rm view now threshold l =
     (let cutoff = now - threshold;
          l1 = (case readDir view (pathJoin (li_root l) [inboxDirName]) of
                  None \<Rightarrow> l
                | Some es \<Rightarrow> fold (sweep_marker rm cutoff) es l)
      in fold (sweep_tree rm view cutoff) (work_dirs view (li_root l)) l1)"

section \<open>The watch loop\<close>

text \<open>
  \<open>watchLoop\<close> before its loop, and one round of it: the tickers pick the round. Without an age sweep
  interval there is no ticker for the sweep, and its channel is never ready.
\<close>

datatype tick = SlowTick | AgeTick | FastTick

definition watch_start :: "node \<Rightarrow> listener \<Rightarrow> listener \<times> doorbellState \<times> nat" where
  "watch_start view l =
     (startupScan view l, snd (db_changed view (li_root l) \<lparr> db_mtimeNanos = 0, db_seen = False \<rparr>), 0)"

definition watch_tick :: "resolvedConfig \<Rightarrow> rm_io \<Rightarrow> node \<Rightarrow> int \<Rightarrow> tick \<Rightarrow> listener \<times> doorbellState \<times> nat \<Rightarrow> listener \<times> doorbellState \<times> nat" where
  "watch_tick rc rm view now t = (\<lambda>(l, db, rescans).
     case t of
       SlowTick \<Rightarrow> (scanInbox rm view l, db, rescans)
     | AgeTick \<Rightarrow>
         (if 0 < rc_ageSweepInterval rc then ageSweep rm view now (rc_ageSweepThreshold rc) l else l, db, rescans)
     | FastTick \<Rightarrow>
         let (scan, db', rescans') = fast_tick view (li_root l) (db, rescans)
         in (if scan then scanInbox rm view l else l, db', rescans'))"

section \<open>Laws of the file tree\<close>

lemma map_of_map_snd: "map_of (map (\<lambda>(z, m). (z, f z m)) es) x = map_option (f x) (map_of es x)"
  by (induction es) auto

lemma stat_removeAll_other: "p \<parallel> q \<Longrightarrow> stat (removeAll p n) q = stat n q"
proof (induction p n arbitrary: q rule: removeAll.induct)
  case (3 x t es)
  then obtain y ys where "q = y # ys" "y \<noteq> x" by (cases q) auto
  then show ?case by (simp add: AList.delete_conv' fun_upd_apply)
next
  case (4 x y ys t es)
  then obtain z zs where q: "q = z # zs" by (cases q) auto
  show ?case
  proof (cases "z = x")
    case True
    then have "(y # ys) \<parallel> zs" using 4(2) q by (simp add: parallel_def)
    then show ?thesis using 4(1) True q
      by (auto simp: map_of_map_snd [where f = "\<lambda>z m. if z = x then removeAll (y # ys) m else m"] dest: map_of_SomeD split: option.split)
  next
    case False
    then show ?thesis using q
      by (simp add: map_of_map_snd [where f = "\<lambda>z m. if z = x then removeAll (y # ys) m else m"] split: option.split)
  qed
qed auto

lemma stat_removeAll: "p \<noteq> [] \<Longrightarrow> stat (removeAll p n) (p @ q) = None"
proof (induction p n rule: removeAll.induct)
  case (1 p t)
  then show ?case by (cases p) auto
next
  case (3 x t es)
  then show ?case by (simp add: AList.delete_conv')
next
  case (4 x y ys t es)
  then show ?case
    by (auto simp: map_of_map_snd [where f = "\<lambda>z m. if z = x then removeAll (y # ys) m else m"] dest: map_of_SomeD split: option.split)
qed simp

lemma removeFile_cases: "removeFile p n = n \<or> removeFile p n = removeAll p n"
  by (auto simp: removeFile_def split: option.split node.split list.split)

lemma stat_removeFile_other: "p \<parallel> q \<Longrightarrow> stat (removeFile p n) q = stat n q"
  using removeFile_cases [of p n] stat_removeAll_other by metis

lemma stat_removeFile: "p \<noteq> [] \<Longrightarrow> stat n p = Some (File t) \<Longrightarrow> stat (removeFile p n) p = None"
  using stat_removeAll [of p n "[]"] by (simp add: removeFile_def)

lemma stat_removeAll_None: "stat n q = None \<Longrightarrow> stat (removeAll p n) q = None"
proof (induction p n arbitrary: q rule: removeAll.induct)
  case (2 t es)
  then show ?case by (cases q) simp_all
next
  case (3 x t es)
  then show ?case by (cases q) (auto simp: AList.delete_conv' fun_upd_apply split: option.splits)
next
  case (4 x y ys t es)
  note m = map_of_map_snd [where f = "\<lambda>z m. if z = x then removeAll (y # ys) m else m"]
  show ?case
  proof (cases q)
    case (Cons z zs)
    show ?thesis
    proof (cases "map_of es z")
      case (Some k)
      then have "stat k zs = None" using 4(2) Cons by simp
      moreover from this have "z = x \<Longrightarrow> stat (removeAll (y # ys) k) zs = None"
        using 4(1) map_of_SomeD [OF Some] by blast
      ultimately show ?thesis using Cons Some by (simp add: m)
    qed (simp add: Cons m)
  qed (use 4 in simp)
qed simp

text \<open>Whatever a removal makes of its path, it leaves the rest alone and creates nothing.\<close>

lemma stat_rmAll_other: "p \<parallel> q \<Longrightarrow> stat (rmAll rm p n) q = stat n q"
proof -
  assume pq: "p \<parallel> q"
  have "p @ r \<parallel> q" for r using Sublist.parallel_append [OF pq, of r "[]"] by simp
  then have "stat (fold (\<lambda>r. removeAll (p @ r)) rs n) q = stat n q" for rs
    by (induction rs arbitrary: n) (simp_all add: stat_removeAll_other)
  then show ?thesis using stat_removeAll_other [OF pq] by (simp add: rmAll_def split: option.split)
qed

lemma stat_rmAll_None: "stat n q = None \<Longrightarrow> stat (rmAll rm p n) q = None"
proof -
  assume n: "stat n q = None"
  then have "stat (fold (\<lambda>r. removeAll (p @ r)) rs n) q = None" for rs
    by (induction rs arbitrary: n) (simp_all add: stat_removeAll_None)
  then show ?thesis using stat_removeAll_None [OF n] by (simp add: rmAll_def split: option.split)
qed

lemma stat_rmAll: "p \<noteq> [] \<Longrightarrow> rm p = None \<Longrightarrow> stat (rmAll rm p n) (p @ q) = None"
  by (simp add: rmAll_def stat_removeAll)

lemma stat_rmFile_other: "p \<parallel> q \<Longrightarrow> stat (rmFile rm p n) q = stat n q"
  by (simp add: rmFile_def stat_removeFile_other split: option.split)

lemma stat_rmFile_None: "stat n q = None \<Longrightarrow> stat (rmFile rm p n) q = None"
  using removeFile_cases [of p n] stat_removeAll_None [of n q p] by (auto simp: rmFile_def split: option.split)

text \<open>A path along which nothing but directories is in the way.\<close>

fun open_path :: "path \<Rightarrow> node option \<Rightarrow> bool" where
  "open_path [] n \<longleftrightarrow> True"
| "open_path (x # xs) None \<longleftrightarrow> True"
| "open_path (x # xs) (Some (Dir t es)) \<longleftrightarrow> open_path xs (map_of es x)"
| "open_path (x # xs) (Some (File t)) \<longleftrightarrow> False"

lemma open_path_None [simp]: "open_path p None"
  by (cases p) simp_all

lemma stat_edit: "open_path p n \<Longrightarrow> \<exists>m. stat (edit now p f n) p = Some (f m)"
  by (induction now p f n rule: edit.induct) (auto simp: AList.update_conv')

lemma stat_edit_other: "p \<parallel> q \<Longrightarrow> stat (edit now p f (Some n)) q = stat n q"
proof (induction p arbitrary: q n)
  case (Cons x xs)
  then obtain y ys where q: "q = y # ys" by (cases q) auto
  show ?case
  proof (cases n)
    case (Dir t es)
    show ?thesis
    proof (cases "y = x")
      case True
      then have p: "xs \<parallel> ys" using Cons.prems q by (simp add: parallel_def)
      then obtain z zs w ws where xy: "xs = z # zs" "ys = w # ws" by (cases xs; cases ys) auto
      show ?thesis
      proof (cases "map_of es x")
        case None
        have "stat (edit now xs f None) ys = None"
          using p
        proof (induction xs arbitrary: ys)
          case (Cons z zs)
          then show ?case by (cases ys) (auto simp: parallel_def)
        qed auto
        then show ?thesis using None True q Dir by (simp add: AList.update_conv')
      next
        case (Some m)
        then show ?thesis using Cons.IH [OF p, of m] True q Dir by (simp add: AList.update_conv')
      qed
    next
      case False
      then show ?thesis using q Dir by (simp add: AList.update_conv' split: option.split)
    qed
  qed simp
qed auto

section \<open>Identifiers and paths\<close>

definition hex_chars :: string where "hex_chars = ''0123456789abcdef''"

definition hex_id :: "string \<Rightarrow> bool" where
  "hex_id s \<longleftrightarrow> length s = 32 \<and> set s \<subseteq> set hex_chars"

lemma hex_digit_set: "d < 16 \<Longrightarrow> hex_digit d \<in> set hex_chars"
proof -
  have "list_all (\<lambda>d. hex_digit d \<in> set hex_chars) [0..<16]" by code_simp
  then show "d < 16 \<Longrightarrow> hex_digit d \<in> set hex_chars" unfolding list_all_iff by simp
qed

lemma hexEncode_hex: "length bs = 16 \<Longrightarrow> hex_id (hexEncode bs)"
proof -
  have "length (hexEncode bs) = 2 * length bs \<and> set (hexEncode bs) \<subseteq> set hex_chars" for bs
  proof (induction bs)
    case (Cons b bs)
    have "unat (b div 16) < 16" "unat (b mod 16) < 16"
      using unsigned_less [of b, where 'a = nat] by (simp_all add: unat_div unat_mod)
    then show ?case using Cons hex_digit_set by (simp add: hexEncode_def)
  qed (simp add: hexEncode_def)
  then show "length bs = 16 \<Longrightarrow> hex_id (hexEncode bs)" by (simp add: hex_id_def)
qed

lemma newConnID_hex: "length bs = 16 \<Longrightarrow> newConnID (Some bs) = Some cid \<Longrightarrow> hex_id cid"
  using hexEncode_hex by (auto simp: newConnID_def)

definition name_ok :: "string \<Rightarrow> bool" where
  "name_ok x \<longleftrightarrow> x \<noteq> [] \<and> x \<noteq> ''.'' \<and> x \<noteq> ''..''"

lemma pathJoin_ok: "list_all name_ok xs \<Longrightarrow> pathJoin p xs = p @ xs"
  unfolding pathJoin_def by (induction xs arbitrary: p) (auto simp: name_ok_def)

lemma hex_no_dot: "hex_id s \<Longrightarrow> CHR ''.'' \<notin> set s"
  proof -
  have "CHR ''.'' \<notin> set hex_chars" by code_simp
  then show "hex_id s \<Longrightarrow> CHR ''.'' \<notin> set s" by (auto simp: hex_id_def)
qed

lemma hex_parts: "hex_id s \<Longrightarrow> name_ok (take 2 s) \<and> name_ok (drop 2 s) \<and> name_ok s"
  using hex_no_dot [of s] in_set_takeD [of _ 2 s] in_set_dropD [of _ 2 s]
  by (auto simp: name_ok_def hex_id_def)


lemma connPath_hex: "hex_id cid \<Longrightarrow> connPath root cid = root @ [take 2 cid, drop 2 cid]"
  using hex_parts [of cid] pathJoin_ok [of "[take 2 cid, drop 2 cid]" root]
  by (simp add: connPath_def hashPrefixLen_def hex_id_def)

lemma inbox_ok: "name_ok inboxDirName" "name_ok doorbellName"
  by (simp_all add: name_ok_def inboxDirName_def doorbellName_def)

lemma marker_ok: "name_ok x \<Longrightarrow> pathJoin root [inboxDirName, x] = root @ [inboxDirName, x]"
  using inbox_ok pathJoin_ok [of "[inboxDirName, x]" root] by simp

lemma hex_not_inbox: "hex_id cid \<Longrightarrow> take 2 cid \<noteq> inboxDirName" "hex_id cid \<Longrightarrow> take 2 cid \<noteq> doorbellName"
  by (auto simp: hex_id_def inboxDirName_def doorbellName_def dest: arg_cong [of _ _ length])

lemma parallel_append: "xs @ ys \<parallel> xs @ zs \<longleftrightarrow> ys \<parallel> zs"
  by (simp add: parallel_def)

lemma two_parallel: "(a, b) \<noteq> (c, d) \<Longrightarrow> [a, b] \<parallel> c # d # q"
  by (auto simp: parallel_def)

lemma tunnel_paths:
  assumes "hex_id cid"
  shows "(fo, re) \<noteq> (take 2 cid, drop 2 cid) \<Longrightarrow> root @ [fo, re] \<parallel> connPath root cid @ q"
    "root @ [inboxDirName, x] \<parallel> connPath root cid @ q" "root @ [doorbellName] \<parallel> connPath root cid @ q"
    "root @ [inboxDirName] \<parallel> connPath root cid @ q"
  using hex_not_inbox [OF assms] two_parallel
  by (auto simp: connPath_hex [OF assms] parallel_append parallel_def)

text \<open>The names a directory can hold.\<close>

fun names_ok :: "node \<Rightarrow> bool" where
  "names_ok (File t) \<longleftrightarrow> True"
| "names_ok (Dir t es) \<longleftrightarrow> (\<forall>(x, m) \<in> set es. name_ok x \<and> names_ok m)"

lemma names_ok_stat: "names_ok n \<Longrightarrow> stat n p = Some m \<Longrightarrow> names_ok m"
  by (induction n p rule: stat.induct) (auto split: option.splits dest!: map_of_SomeD)

lemma names_ok_readDir:
  assumes "names_ok n" "readDir n p = Some es" "(x, e) \<in> set es"
  shows "name_ok x"
proof -
  from assms(2) obtain t where "stat n p = Some (Dir t es)" by (auto simp: readDir_def split: option.splits node.splits)
  from names_ok_stat [OF assms(1) this] assms(3) show ?thesis by auto
qed

lemma work_dirs_ok:
  assumes "names_ok view" "(fo, re) \<in> set (work_dirs view root)"
  shows "name_ok fo \<and> name_ok re"
proof -
  from assms(2) obtain fos e rs d where "readDir view root = Some fos" "(fo, e) \<in> set fos"
    "readDir view (pathJoin root [fo]) = Some rs" "(re, d) \<in> set rs"
    by (auto simp: work_dirs_def fanout_dirs_def split: option.splits if_split_asm) metis
  then show ?thesis using names_ok_readDir [OF assms(1)] by blast
qed

section \<open>Scans are exact\<close>

lemma engage_simps [simp]:
  "li_root (engage cid l) = li_root l" "li_tree (engage cid l) = li_tree l" "li_seen (engage cid l) = insert cid (li_seen l)"
  "li_accept (engage cid l) = li_accept l @ [(cid, Handshaking)]" "li_reap (engage cid l) = li_reap l"
  "li_closed (engage cid l) = li_closed l"
  "li_root (drop_marker rm cid l) = li_root l" "li_seen (drop_marker rm cid l) = li_seen l"
  "li_accept (drop_marker rm cid l) = li_accept l" "li_reap (drop_marker rm cid l) = li_reap l" "li_closed (drop_marker rm cid l) = li_closed l"
  by (simp_all add: engage_def drop_marker_def)

definition arrivals :: "node \<Rightarrow> listener \<Rightarrow> (string \<times> node) list \<Rightarrow> string list" where
  "arrivals view l es = map fst (filter (\<lambda>(x, e). \<not> isDir e \<and> x \<notin> li_seen l \<and> syn_visible view (li_root l) x) es)"

lemma scan_entry_root [simp]: "li_root (scan_entry rm view x l) = li_root l"
  by (cases x) (simp add: scan_entry_def)

lemma scan_fold:
  "distinct (map fst es) \<Longrightarrow>
   li_seen (fold (scan_entry rm view) es l) = li_seen l \<union> set (arrivals view l es) \<and>
   li_accept (fold (scan_entry rm view) es l) = li_accept l @ map (\<lambda>x. (x, Handshaking)) (arrivals view l es) \<and>
   li_reap (fold (scan_entry rm view) es l) = li_reap l"
proof (induction es arbitrary: l)
  case (Cons a es)
  obtain x e where a: "a = (x, e)" by fastforce
  let ?l = "scan_entry rm view a l"
  have new: "li_seen ?l = li_seen l \<union> set (arrivals view l [a])"
    "li_accept ?l = li_accept l @ map (\<lambda>x. (x, Handshaking)) (arrivals view l [a])" "li_reap ?l = li_reap l"
    by (auto simp: a scan_entry_def arrivals_def)
  have "arrivals view ?l es = arrivals view l es"
  proof -
    have "filter (\<lambda>(y, e). \<not> isDir e \<and> y \<notin> li_seen ?l \<and> syn_visible view (li_root ?l) y) es =
        filter (\<lambda>(y, e). \<not> isDir e \<and> y \<notin> li_seen l \<and> syn_visible view (li_root l) y) es"
      using Cons.prems by (intro filter_cong refl) (force simp: a scan_entry_def)
    then show ?thesis by (simp add: arrivals_def)
  qed
  moreover have "arrivals view l (a # es) = arrivals view l [a] @ arrivals view l es" by (simp add: arrivals_def)
  ultimately show ?case using Cons.IH [of ?l] Cons.prems new by (simp add: Un_assoc)
qed (simp add: arrivals_def)

section \<open>Every interleaving of the acceptor's goroutines\<close>

text \<open>
  The steps of the watch loop, entry by entry, of the goroutines of \<open>accept\<close> and \<open>reapWhenDone\<close>,
  of callers of \<open>Accept\<close> and \<open>Close\<close>, and of initiators, who change the tree as they like.
\<close>

inductive listen_step :: "listener \<Rightarrow> listener \<Rightarrow> bool" where
  ls_scan: "listen_step l (scan_entry rm view x l)"
| ls_startup: "listen_step l (startup_entry view y l)"
| ls_handshake: "(cid, Handshaking) \<in> set (li_accept l) \<Longrightarrow> listen_step l (accept_done ok cid l)"
| ls_accept: "(cid, Offering) \<in> set (li_accept l) \<Longrightarrow> listen_step l (Accept cid l)"
| ls_cancel: "li_closed l \<Longrightarrow> (cid, Offering) \<in> set (li_accept l) \<Longrightarrow> listen_step l (accept_cancelled cid l)"
| ls_dead: "(cid, Watching) \<in> set (li_reap l) \<Longrightarrow> listen_step l (reap_files rm cid l)"
| ls_forget: "(cid, Removed) \<in> set (li_reap l) \<Longrightarrow> listen_step l (reap_forget cid l)"
| ls_left: "li_closed l \<Longrightarrow> (cid, Watching) \<in> set (li_reap l) \<Longrightarrow> listen_step l (reap_cancelled cid l)"
| ls_marker: "listen_step l (sweep_marker rm cutoff x l)"
| ls_tree: "listen_step l (sweep_tree rm view cutoff y l)"
| ls_close: "listen_step l (listener_Close l)"
| ls_peer: "listen_step l (l\<lparr> li_tree := t \<rparr>)"

text \<open>The identifiers with a handshake in progress or a tunnel that is being served.\<close>

definition engaged :: "listener \<Rightarrow> string list" where
  "engaged l = map fst (filter (\<lambda>x. snd x = Handshaking) (li_accept l)) @ map fst (li_reap l)"

definition listen_inv :: "listener \<Rightarrow> bool" where
  "listen_inv l \<longleftrightarrow> distinct (engaged l) \<and> set (engaged l) \<subseteq> li_seen l \<and> (\<not> li_closed l \<longrightarrow> set (engaged l) = li_seen l)"

lemma listen_inv_keep:
  "listen_inv l \<Longrightarrow> engaged l' = engaged l \<Longrightarrow> li_seen l' = li_seen l \<Longrightarrow> (li_closed l \<longrightarrow> li_closed l') \<Longrightarrow> listen_inv l'"
  by (auto simp: listen_inv_def)

lemma listen_inv_engage:
  "listen_inv l \<Longrightarrow> cid \<notin> li_seen l \<Longrightarrow> listen_inv (engage cid l)"
  by (auto simp: listen_inv_def engaged_def)

lemma drop_marker_inv: "listen_inv (drop_marker rm cid l) = listen_inv l"
  by (simp add: listen_inv_def engaged_def)

lemma listen_inv_forget:
  assumes "listen_inv l" "mset (engaged l) = add_mset cid (mset (engaged l'))" "li_seen l' = li_seen l - {cid}" "li_closed l' = li_closed l"
  shows "listen_inv l'"
proof -
  have d: "distinct (cid # engaged l')" using assms(1,2)
    by (metis listen_inv_def mset.simps(2) mset_eq_imp_distinct_iff)
  have "set (engaged l) = insert cid (set (engaged l'))" using assms(2) by (metis mset.simps(2) list.simps(15) mset_eq_setD)
  then show ?thesis using assms(1,3,4) d by (auto simp: listen_inv_def)
qed

lemma listen_inv_swap:
  assumes "listen_inv l" "mset (engaged l') = mset (engaged l)" "li_seen l' = li_seen l" "li_closed l' = li_closed l"
  shows "listen_inv l'"
  using assms mset_eq_setD [OF assms(2)] mset_eq_imp_distinct_iff [OF assms(2)] by (simp add: listen_inv_def)

lemma mset_split: "x \<in> set xs \<Longrightarrow> \<exists>A. mset xs = add_mset x A"
  by (metis insert_DiffM set_mset_mset)

lemma engaged_mset:
  "mset (engaged l) = image_mset fst (filter_mset (\<lambda>x. snd x = Handshaking) (mset (li_accept l))) + image_mset fst (mset (li_reap l))"
  by (simp add: engaged_def mset_filter)

lemma listen_inv_step:
  assumes "listen_inv l" "listen_step l l'"
  shows "listen_inv l'"
  using assms(2)
proof cases
  case (ls_scan rm view x)
  then show ?thesis using assms(1)
    by (cases x) (auto simp: scan_entry_def drop_marker_inv intro: listen_inv_engage)
next
  case (ls_startup view y)
  then show ?thesis using assms(1) by (cases y) (auto simp: startup_entry_def Let_def intro: listen_inv_engage)
next
  case (ls_handshake cid ok)
  obtain A where m: "mset (li_accept l) = add_mset (cid, Handshaking) A" using mset_split [OF ls_handshake(2)] by blast
  show ?thesis
  proof (cases ok)
    case True
    then show ?thesis using ls_handshake(1) m
      by (intro listen_inv_swap [OF assms(1)]) (simp_all add: engaged_mset accept_done_def Let_def)
  next
    case False
    then show ?thesis using ls_handshake(1) m
      by (intro listen_inv_forget [OF assms(1), of cid]) (simp_all add: engaged_mset accept_done_def forget_def Let_def)
  qed
next
  case (ls_accept cid)
  obtain A where m: "mset (li_accept l) = add_mset (cid, Offering) A" using mset_split [OF ls_accept(2)] by blast
  then show ?thesis using ls_accept(1)
    by (intro listen_inv_swap [OF assms(1)]) (simp_all add: engaged_mset Accept_def)
next
  case (ls_cancel cid)
  obtain A where m: "mset (li_accept l) = add_mset (cid, Offering) A" using mset_split [OF ls_cancel(3)] by blast
  then show ?thesis using ls_cancel(1)
    by (intro listen_inv_swap [OF assms(1)]) (simp_all add: engaged_mset accept_cancelled_def)
next
  case (ls_dead cid)
  obtain A where m: "mset (li_reap l) = add_mset (cid, Watching) A" using mset_split [OF ls_dead(2)] by blast
  then show ?thesis using ls_dead(1)
    by (intro listen_inv_swap [OF assms(1)]) (simp_all add: engaged_mset reap_files_def)
next
  case (ls_forget cid)
  obtain A where m: "mset (li_reap l) = add_mset (cid, Removed) A" using mset_split [OF ls_forget(2)] by blast
  then show ?thesis using ls_forget(1)
    by (intro listen_inv_forget [OF assms(1), of cid]) (simp_all add: engaged_mset reap_forget_def forget_def)
next
  case (ls_left cid)
  obtain A where "mset (li_reap l) = add_mset (cid, Watching) A" using mset_split [OF ls_left(3)] by blast
  then have "mset (engaged l) = add_mset cid (mset (engaged l'))" by (simp add: engaged_mset reap_cancelled_def ls_left(1))
  then have "distinct (engaged l')" "set (engaged l') \<subseteq> set (engaged l)"
    using assms(1) by (metis distinct.simps(2) listen_inv_def mset.simps(2) mset_eq_imp_distinct_iff,
        metis mset.simps(2) mset_eq_setD set_subset_Cons)
  then show ?thesis using assms(1) ls_left by (auto simp: listen_inv_def reap_cancelled_def)
next
  case (ls_marker rm cutoff x)
  then show ?thesis using assms(1) by (cases x) (auto simp: sweep_marker_def drop_marker_inv)
next
  case (ls_tree rm view cutoff y)
  then show ?thesis using assms(1)
    by (cases y) (auto simp: sweep_tree_def Let_def intro!: listen_inv_keep [OF assms(1)] simp: engaged_def)
next
  case ls_close
  then show ?thesis by (auto simp: listener_Close_def engaged_def intro!: listen_inv_keep [OF assms(1)])
next
  case (ls_peer t)
  then show ?thesis by (auto simp: engaged_def intro!: listen_inv_keep [OF assms(1)])
qed

definition listen_start :: "path \<Rightarrow> listener \<Rightarrow> bool" where
  "listen_start root l \<longleftrightarrow> (\<exists>resolved mkdir_ok now n. Listen resolved mkdir_ok root now n = Some l)"

lemma new_listener_start: "listen_start root (new_listener root now n)"
proof -
  have "Listen (Some x) True root now n = Some (new_listener root now n)" for x by (simp add: Listen_def)
  then show ?thesis unfolding listen_start_def by blast
qed

interpretation listen_machine: invariant_machine "listen_start root" listen_step listen_inv for root
proof unfold_locales
  show "listen_start root l \<Longrightarrow> listen_inv l" for l
    by (auto simp: listen_start_def listen_inv_def engaged_def Listen_def new_listener_def split: option.splits if_splits)
qed (rule listen_inv_step)

section \<open>The sweep\<close>

lemma fold_keeps: "(\<And>x s. x \<in> set xs \<Longrightarrow> P (f x s) = P s) \<Longrightarrow> P (fold f xs s) = P s"
  by (induction xs arbitrary: s) auto

lemma sweep_marker_simps [simp]:
  "li_seen (sweep_marker rm cutoff x l) = li_seen l" "li_root (sweep_marker rm cutoff x l) = li_root l"
  by (cases x; simp add: sweep_marker_def)+

lemma sweep_tree_simps [simp]:
  "li_seen (sweep_tree rm view cutoff x l) = li_seen l" "li_root (sweep_tree rm view cutoff x l) = li_root l"
  by (cases x; simp add: sweep_tree_def Let_def)+

lemma sweep_marker_stat:
  assumes "name_ok (fst x)" "hex_id cid"
  shows "stat (li_tree (sweep_marker rm cutoff x l)) (connPath (li_root l) cid @ q) = stat (li_tree l) (connPath (li_root l) cid @ q)"
  using assms stat_rmFile_other [OF tunnel_paths(2) [OF assms(2)]]
  by (cases x) (simp add: sweep_marker_def drop_marker_def marker_ok)

lemma connDir_ok: "name_ok fo \<Longrightarrow> name_ok re \<Longrightarrow> pathJoin (pathJoin root [fo]) [re] = root @ [fo, re]"
  using pathJoin_ok [of "[fo]" root] pathJoin_ok [of "[re]" "root @ [fo]"] by simp

lemma sweep_tree_stat:
  assumes "name_ok fo" "name_ok re" "hex_id cid"
    "cid \<in> li_seen l \<or> cutoff < subtreeLastActivity view (connPath (li_root l) cid)"
  shows "stat (li_tree (sweep_tree rm view cutoff (fo, re) l)) (connPath (li_root l) cid @ q) = stat (li_tree l) (connPath (li_root l) cid @ q)"
proof (cases "(fo, re) = (take 2 cid, drop 2 cid)")
  case True
  then have "fo @ re = cid" "connPath (li_root l) cid = li_root l @ [fo, re]" using connPath_hex [OF assms(3)] by simp_all
  then show ?thesis using assms(4) by (auto simp: sweep_tree_def connDir_ok [OF assms(1,2)] Let_def)
next
  case False
  from stat_rmAll_other [OF tunnel_paths(1) [OF assms(3) False]] show ?thesis
    by (simp add: sweep_tree_def connDir_ok [OF assms(1,2)] Let_def)
qed

lemma sweep_markers_stat:
  assumes "\<forall>x \<in> set es. name_ok (fst x)" "hex_id cid"
  shows "stat (li_tree (fold (sweep_marker rm cutoff) es l)) (connPath (li_root l) cid @ q) = stat (li_tree l) (connPath (li_root l) cid @ q)"
  using assms(1)
proof (induction es arbitrary: l)
  case (Cons x es)
  then show ?case using sweep_marker_stat [OF _ assms(2)] by (metis fold_simps(2) list.set_intros sweep_marker_simps(2))
qed simp

lemma sweep_trees_stat:
  assumes "\<forall>d \<in> set ds. name_ok (fst d) \<and> name_ok (snd d)" "hex_id cid"
    "cid \<in> li_seen l \<or> cutoff < subtreeLastActivity view (connPath (li_root l) cid)"
  shows "stat (li_tree (fold (sweep_tree rm view cutoff) ds l)) (connPath (li_root l) cid @ q) = stat (li_tree l) (connPath (li_root l) cid @ q)"
  using assms(1,3)
proof (induction ds arbitrary: l)
  case (Cons d ds)
  then have "name_ok (fst d)" "name_ok (snd d)" by simp_all
  from sweep_tree_stat [OF this assms(2) Cons.prems(2)] Cons.IH [of "sweep_tree rm view cutoff d l"] Cons.prems
  show ?case by simp
qed simp

text \<open>What happens to one directory of the work tree while the sweep goes over others.\<close>

lemma sweep_tree_None: "stat (li_tree l) p = None \<Longrightarrow> stat (li_tree (sweep_tree rm view cutoff d l)) p = None"
  by (cases d) (simp add: sweep_tree_def stat_rmAll_None Let_def)

lemma sweep_fold_gone:
  "stat (li_tree l) p = None \<Longrightarrow> stat (li_tree (fold (sweep_tree rm view cutoff) ds l)) p = None"
  by (induction ds arbitrary: l) (simp_all add: sweep_tree_None)

lemma sweep_fold_removes:
  assumes "\<forall>d \<in> set ds. name_ok (fst d) \<and> name_ok (snd d)" "(a, b) \<in> set ds" "a @ b \<notin> li_seen l"
    "subtreeLastActivity view (li_root l @ [a, b]) \<le> cutoff" "rm (li_root l @ [a, b]) = None"
  shows "stat (li_tree (fold (sweep_tree rm view cutoff) ds l)) (li_root l @ [a, b] @ q) = None"
  using assms
proof (induction ds arbitrary: l)
  case (Cons d ds)
  show ?case
  proof (cases "d = (a, b)")
    case True
    have ok: "name_ok a" "name_ok b" using Cons.prems(1) True by auto
    have "stat (li_tree (sweep_tree rm view cutoff d l)) (li_root l @ [a, b] @ q) = None"
      using Cons.prems(3,4,5) True stat_rmAll [of "li_root l @ [a, b]" rm "li_tree l" q]
      by (simp add: sweep_tree_def connDir_ok [OF ok] Let_def)
    then show ?thesis using sweep_fold_gone [of "sweep_tree rm view cutoff d l"] by simp
  next
    case False
    then show ?thesis using Cons.IH [of "sweep_tree rm view cutoff d l"] Cons.prems by simp
  qed
qed simp

text \<open>What happens to a marker: the sweep of the work tree does not reach the inbox.\<close>

lemma work_dirs_not_inbox: "(fo, re) \<in> set (work_dirs view root) \<Longrightarrow> fo \<noteq> inboxDirName"
  by (auto simp: work_dirs_def fanout_dirs_def fanout_skipped_def split: option.splits if_split_asm)

lemma sweep_trees_marker:
  assumes "\<forall>d \<in> set ds. name_ok (fst d) \<and> name_ok (snd d) \<and> fst d \<noteq> inboxDirName"
  shows "stat (li_tree (fold (sweep_tree rm view cutoff) ds l)) (li_root l @ inboxDirName # q) = stat (li_tree l) (li_root l @ inboxDirName # q)"
  using assms
proof (induction ds arbitrary: l)
  case (Cons d ds)
  obtain fo re where d: "d = (fo, re)" by fastforce
  have ok: "name_ok fo" "name_ok re" "fo \<noteq> inboxDirName" using Cons.prems d by auto
  have "li_root l @ [fo, re] \<parallel> li_root l @ inboxDirName # q" using ok(3) by (auto simp: parallel_append parallel_def)
  then have "stat (li_tree (sweep_tree rm view cutoff d l)) (li_root l @ inboxDirName # q) = stat (li_tree l) (li_root l @ inboxDirName # q)"
    by (simp add: d sweep_tree_def connDir_ok [OF ok(1,2)] stat_rmAll_other Let_def)
  then show ?case using Cons.IH [of "sweep_tree rm view cutoff d l"] Cons.prems by simp
qed simp

lemma sweep_marker_at:
  assumes "name_ok x" "name_ok (fst y)"
  shows "fst y \<noteq> x \<or> x \<in> li_seen l \<or> isDir (snd y) \<or> cutoff \<le> mtime (snd y) \<Longrightarrow>
      stat (li_tree (sweep_marker rm cutoff y l)) (li_root l @ inboxDirName # x # q) = stat (li_tree l) (li_root l @ inboxDirName # x # q)"
    "stat (li_tree l) p = None \<Longrightarrow> stat (li_tree (sweep_marker rm cutoff y l)) p = None"
proof -
  obtain z e where y: "y = (z, e)" by fastforce
  have "z \<noteq> x \<Longrightarrow> li_root l @ [inboxDirName, z] \<parallel> li_root l @ inboxDirName # x # q"
    by (auto simp: parallel_append parallel_def)
  then show "stat (li_tree (sweep_marker rm cutoff y l)) (li_root l @ inboxDirName # x # q) = stat (li_tree l) (li_root l @ inboxDirName # x # q)"
    if "fst y \<noteq> x \<or> x \<in> li_seen l \<or> isDir (snd y) \<or> cutoff \<le> mtime (snd y)"
    using that assms(2) by (cases "z = x") (auto simp: y sweep_marker_def drop_marker_def marker_ok stat_rmFile_other)
  show "stat (li_tree l) p = None \<Longrightarrow> stat (li_tree (sweep_marker rm cutoff y l)) p = None"
    by (simp add: y sweep_marker_def drop_marker_def stat_rmFile_None)
qed

lemma sweep_markers_keep:
  assumes "\<forall>y \<in> set es. name_ok (fst y)" "name_ok x"
    "\<forall>e. (x, e) \<in> set es \<longrightarrow> x \<in> li_seen l \<or> isDir e \<or> cutoff \<le> mtime e"
  shows "stat (li_tree (fold (sweep_marker rm cutoff) es l)) (li_root l @ inboxDirName # x # q) = stat (li_tree l) (li_root l @ inboxDirName # x # q)"
  using assms(1,3)
proof (induction es arbitrary: l)
  case (Cons y es)
  have "fst y \<noteq> x \<or> x \<in> li_seen l \<or> isDir (snd y) \<or> cutoff \<le> mtime (snd y)" using Cons.prems(2) by (cases y) auto
  from sweep_marker_at(1) [OF assms(2) _ this] Cons.IH [of "sweep_marker rm cutoff y l"] Cons.prems show ?case by simp
qed simp

lemma sweep_markers_gone:
  "stat (li_tree l) p = None \<Longrightarrow> \<forall>y \<in> set es. name_ok (fst y) \<Longrightarrow> stat (li_tree (fold (sweep_marker rm cutoff) es l)) p = None"
proof (induction es arbitrary: l)
  case (Cons y es)
  then show ?case using sweep_marker_at(2) [of "fst y" y] by simp
qed simp

lemma sweep_markers_remove:
  assumes "\<forall>y \<in> set es. name_ok (fst y)" "(x, e) \<in> set es" "x \<notin> li_seen l" "\<not> isDir e" "mtime e < cutoff"
    "rm (li_root l @ [inboxDirName, x]) = None" "\<And>t fs. stat (li_tree l) (li_root l @ [inboxDirName, x]) \<noteq> Some (Dir t fs)"
  shows "stat (li_tree (fold (sweep_marker rm cutoff) es l)) (li_root l @ [inboxDirName, x]) = None"
  using assms
proof (induction es arbitrary: l)
  case (Cons y es)
  let ?p = "li_root l @ [inboxDirName, x]"
  have ok: "name_ok x" "name_ok (fst y)" using Cons.prems(1,2) by auto
  consider "stat (li_tree l) ?p = None" | t where "stat (li_tree l) ?p = Some (File t)" "y = (x, e)"
    | t where "stat (li_tree l) ?p = Some (File t)" "y \<noteq> (x, e)"
    using Cons.prems(7) by (metis node.exhaust not_None_eq)
  then show ?case
  proof cases
    case 1
    from sweep_markers_gone [OF this Cons.prems(1)] show ?thesis .
  next
    case (2 t)
    then have "stat (li_tree (sweep_marker rm cutoff y l)) ?p = None"
      using Cons.prems(3-6) ok stat_removeFile [of ?p "li_tree l" t]
      by (simp add: sweep_marker_def drop_marker_def marker_ok rmFile_def)
    then show ?thesis using sweep_markers_gone [of "sweep_marker rm cutoff y l" ?p es] Cons.prems(1) by simp
  next
    case (3 t)
    have "stat (li_tree (sweep_marker rm cutoff y l)) ?p \<noteq> Some (Dir u fs)" for u fs
    proof (cases "fst y = x \<and> x \<notin> li_seen l \<and> \<not> isDir (snd y) \<and> mtime (snd y) < cutoff")
      case True
      then have "stat (li_tree (sweep_marker rm cutoff y l)) ?p = None"
        using Cons.prems(6) ok stat_removeFile [of ?p "li_tree l" t] 3(1)
        by (cases y) (simp add: sweep_marker_def drop_marker_def marker_ok rmFile_def)
      then show ?thesis by simp
    next
      case False
      then show ?thesis using sweep_marker_at(1) [OF ok, of l cutoff rm "[]"] 3(1) by auto
    qed
    then show ?thesis using Cons.IH [of "sweep_marker rm cutoff y l"] Cons.prems(1-6) 3(2) by auto
  qed
qed simp

section \<open>Arrivals\<close>

lemma scanInbox_reach: "reach start listen_step l \<Longrightarrow> reach start listen_step (scanInbox rm view l)"
proof -
  assume "reach start listen_step l"
  then have "reach start listen_step (fold (scan_entry rm view) es l)" for es
    by (induction es arbitrary: l) (auto intro: reach_step ls_scan)
  then show ?thesis using \<open>reach start listen_step l\<close> by (simp add: scanInbox_def split: option.split)
qed

lemma scan_entry_mono: "li_seen l \<subseteq> li_seen (scan_entry rm view x l)"
  by (cases x) (auto simp: scan_entry_def)

lemma scan_fold_mono: "li_seen l \<subseteq> li_seen (fold (scan_entry rm view) es l)"
  by (induction es arbitrary: l) (auto dest: subsetD [OF scan_entry_mono])

lemma scan_fold_seen:
  assumes "(cid, e) \<in> set es" "\<not> isDir e" "syn_visible view (li_root l) cid"
  shows "cid \<in> li_seen (fold (scan_entry rm view) es l)"
  using assms
proof (induction es arbitrary: l)
  case (Cons a es)
  show ?case
  proof (cases "a = (cid, e)")
    case True
    then have "cid \<in> li_seen (scan_entry rm view a l)" using Cons.prems by (simp add: scan_entry_def)
    then show ?thesis using scan_fold_mono by fastforce
  next
    case False
    then show ?thesis using Cons by simp
  qed
qed simp

lemma scan_fold_started:
  "cid \<in> li_seen (fold (scan_entry rm view) es l) \<Longrightarrow> cid \<in> li_seen l \<or> (cid, Handshaking) \<in> set (li_accept (fold (scan_entry rm view) es l))"
proof (induction es rule: rev_induct)
  case (snoc a es)
  then show ?case by (cases a) (auto simp: scan_entry_def split: if_splits)
qed simp

lemma stat_open: "stat n p = Some m \<Longrightarrow> open_path p (Some n)"
  by (induction n p rule: stat.induct) (auto split: option.splits)

lemma stat_dir_open: "stat n p = Some m \<Longrightarrow> isDir m \<Longrightarrow> open_path (p @ [x]) (Some n)"
proof (induction n p rule: stat.induct)
  case (1 n)
  then show ?case by (cases n) auto
qed (auto split: option.splits)

lemma creatable_open: "creatable n p \<Longrightarrow> open_path p (Some n)"
  using stat_open [of n p] stat_dir_open [of n "butlast p" _ "last p"]
  by (cases "p = []") (auto simp: creatable_def split: option.splits)

lemma stat_parent: "stat k (a @ [b]) = Some x \<Longrightarrow> \<exists>u fs. stat k a = Some (Dir u fs) \<and> map_of fs b = Some x"
proof (induction k a rule: stat.induct)
  case (1 k)
  then show ?case by (cases k) (auto split: option.splits)
qed (auto split: option.splits)

lemma stat_creatable: "creatable n p \<Longrightarrow> stat (edit now p (\<lambda>_. m) (Some n)) p = Some m"
  using stat_edit [OF creatable_open, where f = "\<lambda>_. m"] by blast

lemma root_paths:
  "root @ [doorbellName] \<parallel> root @ [inboxDirName] @ q"
  "pathJoin root [doorbellName] = root @ [doorbellName]" "pathJoin root [inboxDirName] = root @ [inboxDirName]"
proof -
  show "root @ [doorbellName] \<parallel> root @ [inboxDirName] @ q"
    by (simp add: parallel_append) (simp add: parallel_def inboxDirName_def doorbellName_def)
qed (simp_all add: pathJoin_def inboxDirName_def doorbellName_def)

text \<open>A marker that was written, and a doorbell that was rung.\<close>

lemma marker_written:
  assumes "writeInboxMarker io now root cid n = (n', True)" "hex_id cid"
  shows "\<exists>fs. readDir n' (root @ [inboxDirName]) = Some fs \<and> (cid, File now) \<in> set fs"
    "stat n' (connPath root cid @ q) = stat n (connPath root cid @ q)"
proof -
  let ?f = "\<lambda>d. case d of Some m \<Rightarrow> m | None \<Rightarrow> Dir now []"
  have p: "inboxMarkerPath root cid = root @ [inboxDirName, cid]" using marker_ok hex_parts [OF assms(2)] by (simp add: inboxMarkerPath_def)
  obtain n1 where n1: "n1 = edit now (root @ [inboxDirName]) ?f (Some n)" "creatable n1 (root @ [inboxDirName, cid])"
      "n' = edit now (root @ [inboxDirName, cid]) (\<lambda>_. File now) (Some n1)"
    using assms(1) by (auto simp: writeInboxMarker_def p root_paths Let_def split: if_splits)
  have "stat n' ((root @ [inboxDirName]) @ [cid]) = Some (File now)" using stat_creatable [OF n1(2)] n1(3) by simp
  from stat_parent [OF this] show "\<exists>fs. readDir n' (root @ [inboxDirName]) = Some fs \<and> (cid, File now) \<in> set fs"
    by (auto simp: readDir_def dest: map_of_SomeD)
  show "stat n' (connPath root cid @ q) = stat n (connPath root cid @ q)"
    unfolding n1(3) n1(1) using stat_edit_other [OF tunnel_paths(2) [OF assms(2)]] stat_edit_other [OF tunnel_paths(4) [OF assms(2)]] by simp
qed

lemma doorbell_rung:
  assumes "ringDoorbell io now root n = (n', True)"
  shows "stat n' (root @ [doorbellName]) = Some (File now)"
    "root @ [doorbellName] \<parallel> p \<Longrightarrow> stat n' p = stat n p"
proof -
  let ?f = "\<lambda>d. case d of Some m \<Rightarrow> m | None \<Rightarrow> File now"
  obtain n1 where n1: "n1 = edit now (root @ [doorbellName]) ?f (Some n)" "creatable n (root @ [doorbellName])"
      "n' = edit now (root @ [doorbellName]) (\<lambda>_. File now) (Some n1)"
    using assms by (auto simp: ringDoorbell_def root_paths Let_def split: if_splits)
  have "open_path (root @ [doorbellName]) (Some n1)"
    using stat_edit [OF creatable_open [OF n1(2)], of now ?f] n1(1) stat_open by metis
  from stat_edit [OF this, where f = "\<lambda>_. File now"] show "stat n' (root @ [doorbellName]) = Some (File now)" unfolding n1(3) by blast
  show "root @ [doorbellName] \<parallel> p \<Longrightarrow> stat n' p = stat n p" unfolding n1(3) n1(1) by (simp add: stat_edit_other)
qed

lemma announced:
  assumes "hex_id cid" "writeInboxMarker io now1 root cid n = (n1, True)" "ringDoorbell io now2 root n1 = (n2, True)"
  shows "announce io RoleInitiator now1 now2 root cid n = n2"
    "\<exists>fs. readDir n2 (root @ [inboxDirName]) = Some fs \<and> (cid, File now1) \<in> set fs"
    "stat n2 (connPath root cid @ q) = stat n (connPath root cid @ q)"
proof -
  show "announce io RoleInitiator now1 now2 root cid n = n2" by (simp add: announce_def assms)
  have "stat n2 (root @ [inboxDirName]) = stat n1 (root @ [inboxDirName])"
    using doorbell_rung(2) [OF assms(3) root_paths(1) [of root "[]"]] by simp
  then show "\<exists>fs. readDir n2 (root @ [inboxDirName]) = Some fs \<and> (cid, File now1) \<in> set fs"
    using marker_written(1) [OF assms(2,1)] by (simp add: readDir_def)
  show "stat n2 (connPath root cid @ q) = stat n (connPath root cid @ q)"
    using doorbell_rung(2) [OF assms(3) tunnel_paths(3) [OF assms(1)]] marker_written(2) [OF assms(2,1)] by simp
qed

text \<open>A round of the watch loop is a sequence of steps of the acceptor.\<close>

lemma fold_steps: "(\<And>x l. listen_step l (f x l)) \<Longrightarrow> listen_step\<^sup>*\<^sup>* l (fold f xs l)"
  by (induction xs arbitrary: l) (auto intro: converse_rtranclp_into_rtranclp)

lemma scanInbox_steps: "listen_step\<^sup>*\<^sup>* l (scanInbox rm view l)"
  by (auto simp: scanInbox_def intro: fold_steps ls_scan split: option.split)

lemma ageSweep_steps: "listen_step\<^sup>*\<^sup>* l (ageSweep rm view now threshold l)"
proof -
  let ?c = "now - threshold"
  obtain l1 where "ageSweep rm view now threshold l = fold (sweep_tree rm view ?c) (work_dirs view (li_root l)) l1" "listen_step\<^sup>*\<^sup>* l l1"
  proof (cases "readDir view (pathJoin (li_root l) [inboxDirName])")
    case None
    then show ?thesis by (intro that [of l]) (simp_all add: ageSweep_def)
  next
    case (Some es)
    then show ?thesis by (intro that [of "fold (sweep_marker rm ?c) es l"]) (simp_all add: ageSweep_def Let_def fold_steps ls_marker)
  qed
  then show ?thesis using fold_steps [of "sweep_tree rm view ?c", OF ls_tree] by (metis rtranclp_trans)
qed

lemma watch_tick_steps: "listen_step\<^sup>*\<^sup>* (fst w) (fst (watch_tick rc rm view now t w))"
  by (cases w) (auto simp: watch_tick_def scanInbox_steps ageSweep_steps split: tick.split prod.split)

lemma watch_start_steps: "listen_step\<^sup>*\<^sup>* l (fst (watch_start view l))"
  by (simp add: watch_start_def startupScan_def fold_steps ls_startup)

definition rm_fine :: rm_io where
  "rm_fine = (\<lambda>_. None)"

definition demo_id :: string where
  "demo_id = replicate 32 (CHR ''a'')"

definition demo_tree :: node where
  "demo_tree = Dir 0 [(''srv'', Dir 0
     [(''inbox'', Dir 0 [(demo_id, File 5)]), (''.doorbell'', File 5),
      (''aa'', Dir 0 [(drop 2 demo_id, Dir 1 [(''c2s'', Dir 2 [(segName 0, File 3)])])])])]"

definition demo_listener :: listener where
  "demo_listener = scanInbox rm_fine demo_tree (new_listener [''srv''] 0 demo_tree)"

text \<open>
  The clean-up of a failed dial touches no other tunnel, and where the removal succeeds nothing of
  its own is left.
\<close>

lemma dial_cleanup_exact:
  assumes "hex_id cid"
  shows "rm (connPath root cid) = None \<Longrightarrow> stat (dial_cleanup rm root cid n) (connPath root cid @ q) = None"
    "hex_id other \<Longrightarrow> other \<noteq> cid \<Longrightarrow> stat (dial_cleanup rm root cid n) (connPath root other @ q) = stat n (connPath root other @ q)"
proof -
  have ok: "inboxMarkerPath root cid = root @ [inboxDirName, cid]"
    using marker_ok hex_parts [OF assms(1)] by (simp add: inboxMarkerPath_def)
  show "stat (dial_cleanup rm root cid n) (connPath root other @ q) = stat n (connPath root other @ q)" if "hex_id other" "other \<noteq> cid"
  proof -
    have "(take 2 cid, drop 2 cid) \<noteq> (take 2 other, drop 2 other)" using that(2) by (metis append_take_drop_id prod.inject)
    then have "connPath root cid \<parallel> connPath root other @ q"
      using tunnel_paths(1) [OF that(1)] connPath_hex [OF assms(1)] by simp
    then show ?thesis
      using stat_rmFile_other [OF tunnel_paths(2) [OF that(1)]] stat_rmAll_other by (simp add: dial_cleanup_def ok)
  qed
  have "connPath root cid \<noteq> []" by (simp add: connPath_hex [OF assms(1)])
  then show "rm (connPath root cid) = None \<Longrightarrow> stat (dial_cleanup rm root cid n) (connPath root cid @ q) = None"
    using stat_rmFile_other [OF tunnel_paths(2) [OF assms(1)]] stat_rmAll by (simp add: dial_cleanup_def ok)
qed

text \<open>A ring that is noticed is followed by as many scans as the source promises, and no more.\<close>

lemma fast_tick_rescans:
  assumes "db_changed view root db = (False, db)"
  shows "fast_tick view root (db, r) = (0 < r, db, r - 1)"
  using assms by (simp add: fast_tick_def)

section \<open>Properties\<close>

text \<open>
  C4. A tunnel is never accepted twice at a time: in every interleaving of the watch loop, the
  goroutines of \<open>accept\<close> and \<open>reapWhenDone\<close>, callers of \<open>Accept\<close> and \<open>Close\<close>, and initiators who
  change the files as they like, under any stale view of the directories, no identifier has two
  handshakes or served tunnels, and until the acceptor is closed the set of seen identifiers is
  exactly the set of those engaged, so that a finished one can come again.
\<close>

theorem accept_once:
  "reach (listen_start root) listen_step l \<Longrightarrow>
   distinct (engaged l) \<and> set (engaged l) \<subseteq> li_seen l \<and> (\<not> li_closed l \<longrightarrow> li_seen l = set (engaged l))"
  using listen_machine.reach_inv by (auto simp: listen_inv_def)

lemma demo_scan: "engaged demo_listener = [demo_id]" "li_seen demo_listener = {demo_id}" "li_root demo_listener = [''srv'']"
  "\<not> li_closed demo_listener"
  by code_simp+

lemma demo_listener_reach: "reach (listen_start [''srv'']) listen_step demo_listener"
  unfolding demo_listener_def
  by (intro scanInbox_reach reach_start new_listener_start)

theorem accept_once_witness:
  "engaged demo_listener = [demo_id] \<and> distinct (engaged demo_listener) \<and> li_seen demo_listener = set (engaged demo_listener)"
  using accept_once [OF demo_listener_reach] demo_scan by simp

text \<open>
  C20. The age sweep removes crash residue and nothing of a live tunnel. Age and activity are what
  the view of the directories shows, which may lag behind; with whatever view and whatever outcome
  of the removals, no file of a tunnel that is engaged or whose newest activity in that view lies
  within the threshold is touched, and no marker of an engaged tunnel, nor one that is not listed
  or whose time lies within the threshold. Every directory of the work tree the view shows that
  belongs to no engaged tunnel and has had no activity since is removed with everything in it, and
  so is every older marker file of a tunnel that is not engaged, where the removal succeeds.
\<close>

theorem age_sweep:
  assumes "names_ok view"
  shows "(\<forall>cid q. hex_id cid \<longrightarrow>
      cid \<in> li_seen l \<or> now - threshold < subtreeLastActivity view (connPath (li_root l) cid) \<longrightarrow>
      stat (li_tree (ageSweep rm view now threshold l)) (connPath (li_root l) cid @ q) = stat (li_tree l) (connPath (li_root l) cid @ q)) \<and>
    (\<forall>fo re q. (fo, re) \<in> set (work_dirs view (li_root l)) \<longrightarrow> fo @ re \<notin> li_seen l \<longrightarrow>
      subtreeLastActivity view (li_root l @ [fo, re]) \<le> now - threshold \<longrightarrow> rm (li_root l @ [fo, re]) = None \<longrightarrow>
      stat (li_tree (ageSweep rm view now threshold l)) (li_root l @ [fo, re] @ q) = None) \<and>
    (\<forall>x q. name_ok x \<longrightarrow>
      (\<forall>es e. readDir view (li_root l @ [inboxDirName]) = Some es \<longrightarrow> (x, e) \<in> set es \<longrightarrow>
         x \<in> li_seen l \<or> isDir e \<or> now - threshold \<le> mtime e) \<longrightarrow>
      stat (li_tree (ageSweep rm view now threshold l)) (li_root l @ [inboxDirName, x] @ q) = stat (li_tree l) (li_root l @ [inboxDirName, x] @ q)) \<and>
    (\<forall>es x e t. readDir view (li_root l @ [inboxDirName]) = Some es \<longrightarrow> (x, e) \<in> set es \<longrightarrow> x \<notin> li_seen l \<longrightarrow>
      \<not> isDir e \<longrightarrow> mtime e < now - threshold \<longrightarrow> rm (li_root l @ [inboxDirName, x]) = None \<longrightarrow>
      stat (li_tree l) (li_root l @ [inboxDirName, x]) = Some (File t) \<longrightarrow>
      stat (li_tree (ageSweep rm view now threshold l)) (li_root l @ [inboxDirName, x]) = None)"
proof (intro conjI allI impI)
  let ?c = "now - threshold" and ?ds = "work_dirs view (li_root l)" and ?l' = "ageSweep rm view now threshold l"
  let ?inbox = "readDir view (li_root l @ [inboxDirName])"
  define es where "es = (case ?inbox of None \<Rightarrow> [] | Some es \<Rightarrow> es)"
  have es: "\<forall>x \<in> set es. name_ok (fst x)" by (cases ?inbox) (auto simp: es_def dest: names_ok_readDir [OF assms])
  let ?m = "fold (sweep_marker rm ?c) es l"
  have sw: "?l' = fold (sweep_tree rm view ?c) ?ds ?m"
    by (simp add: ageSweep_def es_def root_paths(3) Let_def split: option.split)
  have ds: "\<forall>d \<in> set ?ds. name_ok (fst d) \<and> name_ok (snd d) \<and> fst d \<noteq> inboxDirName"
    using work_dirs_ok [OF assms] work_dirs_not_inbox by auto
  have m: "li_seen ?m = li_seen l" "li_root ?m = li_root l" by (rule fold_keeps, simp)+
  have box: "stat (li_tree ?l') (li_root l @ inboxDirName # q) = stat (li_tree ?m) (li_root l @ inboxDirName # q)" for q
    unfolding sw using sweep_trees_marker [OF ds, of rm view ?c ?m q] m by simp
  show "stat (li_tree ?l') (connPath (li_root l) cid @ q) = stat (li_tree l) (connPath (li_root l) cid @ q)"
    if h: "hex_id cid" "cid \<in> li_seen l \<or> ?c < subtreeLastActivity view (connPath (li_root l) cid)" for cid q
    unfolding sw using sweep_markers_stat [OF es h(1)] sweep_trees_stat [of ?ds, OF _ h(1)] ds h(2) m by metis
  show "stat (li_tree ?l') (li_root l @ [fo, re] @ q) = None"
    if "(fo, re) \<in> set ?ds" "fo @ re \<notin> li_seen l" "subtreeLastActivity view (li_root l @ [fo, re]) \<le> ?c"
      "rm (li_root l @ [fo, re]) = None" for fo re q
    unfolding sw using sweep_fold_removes [OF _ that(1), of ?m view ?c rm q] ds that(2-4) m by simp
  show "stat (li_tree ?l') (li_root l @ [inboxDirName, x] @ q) = stat (li_tree l) (li_root l @ [inboxDirName, x] @ q)"
    if "name_ok x" "\<forall>es e. ?inbox = Some es \<longrightarrow> (x, e) \<in> set es \<longrightarrow> x \<in> li_seen l \<or> isDir e \<or> ?c \<le> mtime e" for x q
    using box [of "x # q"] sweep_markers_keep [OF es that(1), of l ?c rm q] that(2) by (auto simp: es_def split: option.splits)
  show "stat (li_tree ?l') (li_root l @ [inboxDirName, x]) = None"
    if "?inbox = Some es'" "(x, e) \<in> set es'" "x \<notin> li_seen l" "\<not> isDir e" "mtime e < ?c"
      "rm (li_root l @ [inboxDirName, x]) = None" "stat (li_tree l) (li_root l @ [inboxDirName, x]) = Some (File t)" for es' x e t
  proof -
    have "stat (li_tree ?m) (li_root l @ [inboxDirName, x]) = None"
      by (rule sweep_markers_remove [where e = e and rm = rm]) (use es that in \<open>simp_all add: es_def\<close>)
    then show ?thesis using box [of "[x]"] by simp
  qed
qed

text \<open>A tree with one engaged tunnel and the remains of another, swept long after both fell silent.\<close>

definition stale_tree :: node where
  "stale_tree = Dir 0 [(''srv'', Dir 0
     [(''aa'', Dir 0 [(drop 2 demo_id, Dir 1 [(''c2s'', Dir 2 [(segName 0, File 3)])])]),
      (''bb'', Dir 0 [(''left'', Dir 1 [(''c2s'', Dir 2 [(segName 0, File 3)])])]),
      (''inbox'', Dir 0 [(''old'', File 4), (''new'', File 995)])])]"

theorem age_sweep_witness:
  "stat (li_tree (ageSweep rm_fine stale_tree 1000 10 (demo_listener\<lparr> li_tree := stale_tree \<rparr>))) ([''srv'', ''aa'', drop 2 demo_id] @ [''c2s'', segName 0]) = Some (File 3) \<and>
   stat (li_tree (ageSweep rm_fine stale_tree 1000 10 (demo_listener\<lparr> li_tree := stale_tree \<rparr>))) [''srv'', ''bb'', ''left'', ''c2s''] = None \<and>
   stat (li_tree (ageSweep rm_fine stale_tree 1000 10 (demo_listener\<lparr> li_tree := stale_tree \<rparr>))) [''srv'', ''inbox'', ''old''] = None"
proof -
  let ?l = "demo_listener\<lparr> li_tree := stale_tree \<rparr>"
  have v: "names_ok stale_tree" by code_simp
  have i: "hex_id demo_id" "demo_id \<in> li_seen ?l" "connPath (li_root ?l) demo_id = [''srv'', ''aa'', drop 2 demo_id]"
    "stat (li_tree ?l) ([''srv'', ''aa'', drop 2 demo_id] @ [''c2s'', segName 0]) = Some (File 3)" by code_simp+
  have w: "(''bb'', ''left'') \<in> set (work_dirs stale_tree (li_root ?l))" "''bb'' @ ''left'' \<notin> li_seen ?l"
    "subtreeLastActivity stale_tree (li_root ?l @ [''bb'', ''left'']) \<le> 1000 - 10" "li_root ?l = [''srv'']" by code_simp+
  have o: "readDir stale_tree (li_root ?l @ [inboxDirName]) = Some [(''old'', File 4), (''new'', File 995)]" "''old'' \<notin> li_seen ?l"
    "stat (li_tree ?l) (li_root ?l @ [inboxDirName, ''old'']) = Some (File 4)" by code_simp+
  have f: "rm_fine p = None" for p by (simp add: rm_fine_def)
  note A = age_sweep [OF v, of ?l 1000 10 rm_fine]
  note keep = conjunct1 [OF A, rule_format, OF i(1) disjI1 [OF i(2)], of "[''c2s'', segName 0]"]
  note gone = conjunct1 [OF conjunct2 [OF A], rule_format, OF w(1-3) f, of "[''c2s'']"]
  have mark: "stat (li_tree (ageSweep rm_fine stale_tree 1000 10 ?l)) (li_root ?l @ [inboxDirName, ''old'']) = None"
    by (rule conjunct2 [OF conjunct2 [OF conjunct2 [OF A]], rule_format, OF o(1) _ o(2) _ _ f o(3), of "File 4"]) simp_all
  show ?thesis using keep [unfolded i(3), unfolded i(4)] gone [unfolded w(4)] mark [unfolded w(4)] by (simp add: inboxDirName_def)
qed

text \<open>
  C21. An arrival is noticed and engaged: after an initiator whose SYN is in place has dropped its
  marker and rung the doorbell with a time the acceptor has not seen, the next look at the
  doorbell starts a scan, and a scan that sees the tree as it is engages the tunnel.
\<close>

theorem arrival_engaged:
  assumes "hex_id cid" "stat n (connPath (li_root l) cid @ [''c2s'', segName 0]) \<noteq> None" "cid \<notin> li_seen l"
    "writeInboxMarker io now1 (li_root l) cid n = (n1, True)" "ringDoorbell io now2 (li_root l) n1 = (n2, True)"
    "db_seen db \<longrightarrow> db_mtimeNanos db \<noteq> now2"
  shows "announce io RoleInitiator now1 now2 (li_root l) cid n = n2 \<and>
    (let (l', db', r') = watch_tick rc rm n2 now FastTick (l\<lparr> li_tree := n2 \<rparr>, db, r)
     in cid \<in> li_seen l' \<and> (cid, Handshaking) \<in> set (li_accept l') \<and> db_mtimeNanos db' = now2 \<and> r' = 2)"
proof -
  note a = announced [OF assms(1,4,5)]
  have tick: "fast_tick n2 (li_root l) (db, r) = (True, \<lparr> db_mtimeNanos = now2, db_seen = True \<rparr>, 2)"
    using doorbell_rung(1) [OF assms(5)] assms(6) by (auto simp: fast_tick_def db_changed_def root_paths doorbellRescans_def)
  obtain fs where fs: "readDir n2 (li_root l @ [inboxDirName]) = Some fs" "(cid, File now1) \<in> set fs" using a(2) by blast
  have "name_ok ''c2s''" "name_ok (segName 0)" by code_simp+
  then have "pathJoin (connPath (li_root l) cid) [''c2s'', segName 0] = connPath (li_root l) cid @ [''c2s'', segName 0]"
    by (intro pathJoin_ok) simp
  then have v: "syn_visible n2 (li_root l) cid" using a(3) assms(2) by (simp add: syn_visible_def)
  let ?l = "l\<lparr> li_tree := n2 \<rparr>"
  have s: "scanInbox rm n2 ?l = fold (scan_entry rm n2) fs ?l" using fs(1) by (simp add: scanInbox_def root_paths)
  have "cid \<in> li_seen (fold (scan_entry rm n2) fs ?l)" using fs(2) v by (intro scan_fold_seen [of _ "File now1"]) simp_all
  with scan_fold_started [OF this] assms(3) tick s a(1) show ?thesis by (simp add: watch_tick_def)
qed

definition quiet_tree :: node where
  "quiet_tree = Dir 0 [(''srv'', Dir 0 [(''aa'', Dir 0 [(drop 2 demo_id, Dir 1 [(''c2s'', Dir 2 [(segName 0, File 3)])])])])]"

definition fine_io :: announce_io where
  "fine_io = \<lparr> an_mkdir = True, an_open = True, an_bell = True, an_chtimes = True \<rparr>"

theorem arrival_engaged_witness:
  "demo_id \<in> li_seen (fst (watch_tick demo_rc rm_fine (announce fine_io RoleInitiator 5 6 [''srv''] demo_id quiet_tree) 7 FastTick
     ((new_listener [''srv''] 0 quiet_tree)\<lparr> li_tree := announce fine_io RoleInitiator 5 6 [''srv''] demo_id quiet_tree \<rparr>,
      \<lparr> db_mtimeNanos = 0, db_seen = True \<rparr>, 0)))"
proof -
  let ?l = "new_listener [''srv''] 0 quiet_tree"
  have r: "li_root ?l = [''srv'']" by (simp add: new_listener_def)
  have 1: "hex_id demo_id" "stat quiet_tree (connPath (li_root ?l) demo_id @ [''c2s'', segName 0]) \<noteq> None" by code_simp+
  have 2: "demo_id \<notin> li_seen ?l" by (simp add: new_listener_def)
  obtain n1 where n1: "writeInboxMarker fine_io 5 (li_root ?l) demo_id quiet_tree = (n1, True)"
    "snd (ringDoorbell fine_io 6 (li_root ?l) n1)"
  proof
    show "writeInboxMarker fine_io 5 (li_root ?l) demo_id quiet_tree = (fst (writeInboxMarker fine_io 5 [''srv''] demo_id quiet_tree), True)" by code_simp
    show "snd (ringDoorbell fine_io 6 (li_root ?l) (fst (writeInboxMarker fine_io 5 [''srv''] demo_id quiet_tree)))" by code_simp
  qed
  obtain n2 where n2: "ringDoorbell fine_io 6 (li_root ?l) n1 = (n2, True)" using n1(2) by (metis prod.collapse)
  have 3: "db_seen \<lparr> db_mtimeNanos = 0, db_seen = True \<rparr> \<longrightarrow> db_mtimeNanos \<lparr> db_mtimeNanos = 0, db_seen = True \<rparr> \<noteq> 6" by simp
  from arrival_engaged [OF 1 2 n1(1) n2 3, of demo_rc rm_fine 7 0] show ?thesis unfolding r by (auto split: prod.splits)
qed

text \<open>
  C40. Identifiers read from the inbox are not checked: a marker whose name is two characters
  followed by two dots has the root itself as its tunnel, and when such a tunnel ends and the
  removal succeeds, everything below the root goes, other tunnels, inbox and doorbell included.
\<close>

theorem marker_traversal:
  "li_root l \<noteq> [] \<Longrightarrow> a \<noteq> CHR ''.'' \<or> b \<noteq> CHR ''.'' \<Longrightarrow> rm (li_root l) = None \<Longrightarrow>
   connPath (li_root l) [a, b, CHR ''.'', CHR ''.''] = li_root l \<and>
   stat (li_tree (reap_files rm [a, b, CHR ''.'', CHR ''.''] l)) (li_root l @ q) = None"
proof -
  assume r: "li_root l \<noteq> []" and ab: "a \<noteq> CHR ''.'' \<or> b \<noteq> CHR ''.''" and ok: "rm (li_root l) = None"
  let ?x = "[a, b, CHR ''.'', CHR ''.'']"
  have c: "connPath (li_root l) ?x = li_root l"
    using ab by (auto simp: connPath_def hashPrefixLen_def pathJoin_def)
  have "stat (li_tree (reap_files rm ?x l)) (li_root l @ q) = None"
    using stat_rmFile_None [OF stat_rmAll [OF r, of rm "li_tree l" q], OF ok] by (simp add: reap_files_def c)
  then show ?thesis using c by simp
qed

theorem marker_traversal_witness:
  "stat (li_tree (reap_files rm_fine ''ab..'' demo_listener)) [''srv'', ''aa'', drop 2 demo_id, ''c2s''] = None \<and>
   stat (li_tree demo_listener) [''srv'', ''aa'', drop 2 demo_id, ''c2s''] \<noteq> None"
proof -
  have "stat (li_tree (reap_files rm_fine ''ab..'' demo_listener)) (li_root demo_listener @ [''aa'', drop 2 demo_id, ''c2s'']) = None"
    by (rule conjunct2 [OF marker_traversal]) (simp_all add: demo_scan rm_fine_def)
  moreover have "stat (li_tree demo_listener) [''srv'', ''aa'', drop 2 demo_id, ''c2s''] \<noteq> None" by code_simp
  ultimately show ?thesis by (simp add: demo_scan)
qed

end
