(* ===== verification/Fstun_Dial.thy ===== *)
theory Fstun_Dial
  imports Fstun_Listen Fstun_Duplex
begin

text \<open>
  Dialling (\<open>Dial\<close>, \<open>handshake\<close> and \<open>waitSYN\<close> of \<open>transport/fstun/dial.go\<close>): the whole of a dial, from
  the configuration to a connection or an error, with the file tree it leaves. The send direction
  is the inode store of the segment log; the tree holds the directories and files all tunnels
  share. What the operating system, the clock and the random source answer are arguments.
\<close>

section \<open>Waiting for the peer\<close>

text \<open>
  One round of \<open>waitSYN\<close>: what \<open>next\<close> returned, if it does return, the time read after it, and whether
  the wait between two polls ended because the context did. \<open>None\<close> is a wait that goes on after the
  rounds given, or that is stuck in a call of \<open>next\<close>, which can happen (see \<open>roll_loop_diverges\<close>).
\<close>

record syn_try =
  st_next :: "(next_error + frame) option"
  st_now :: int
  st_cancel :: bool

fun waitSYN :: "int \<Rightarrow> syn_try list \<Rightarrow> (syn_error + synParams) option" where
  "waitSYN until [] = None"
| "waitSYN until (t # ts) =
     (case st_next t of
        None \<Rightarrow> None
      | Some x \<Rightarrow>
          (case syn_result x of
             Some r \<Rightarrow> Some r
           | None \<Rightarrow>
               if until < st_now t then Some (Inl SynTimeout)
               else if st_cancel t then Some (Inl SynCancelled)
               else waitSYN until ts))"

section \<open>The handshake\<close>

record handshake_io =
  hi_mkdir :: bool
  hi_open :: bool
  hi_seg :: seg_io
  hi_now :: int
  hi_announce :: announce_io
  hi_now1 :: int
  hi_now2 :: int
  hi_start :: int
  hi_tries :: "syn_try list"
  hi_made :: int

text \<open>What opening the send direction does to the tree: its directory and its first segment.\<close>

definition send_files :: "handshake_io \<Rightarrow> path \<Rightarrow> string \<Rightarrow> role \<Rightarrow> node \<Rightarrow> node" where
  "send_files io root cid r n =
     (let dir = pathJoin (connPath root cid) [sendDir r]
      in if \<not> hi_mkdir io then n
         else let n1 = edit (hi_now io) dir (\<lambda>d. case d of Some m \<Rightarrow> m | None \<Rightarrow> Dir (hi_now io) []) (Some n)
              in if \<not> hi_open io then n1
                 else edit (hi_now io) (pathJoin dir [segName 0]) (\<lambda>_. File (hi_now io)) (Some n1))"

datatype fstun_error = NoConfig | NoRandom | SendDirection seg_error | PeerSyn syn_error

text \<open>
  \<open>handshake\<close>: the segment writer with the SYN in it and the new connection, or the error; on an
  error the writer and the reader are closed, so nothing of them is returned.
\<close>

definition handshake :: "handshake_io \<Rightarrow> resolvedConfig \<Rightarrow> synParams \<Rightarrow> path \<Rightarrow> string \<Rightarrow> role \<Rightarrow> fsdir \<Rightarrow> node \<Rightarrow>
    (fstun_error + wstate \<times> conn) option \<times> node" where
  "handshake io rc params root cid r fs n =
     (let n1 = send_files io root cid r n
      in case handshake_send (hi_seg io) (hi_mkdir io) (hi_open io) rc params fs of
           Inl e \<Rightarrow> (Some (Inl (SendDirection e)), n1)
         | Inr ws \<Rightarrow>
             (let n2 = announce (hi_announce io) r (hi_now1 io) (hi_now2 io) root cid n1
              in (case waitSYN (hi_start io + rc_handshakeTimeout rc) (hi_tries io) of
                    None \<Rightarrow> None
                  | Some (Inl e) \<Rightarrow> Some (Inl (PeerSyn e))
                  | Some (Inr peer) \<Rightarrow>
                      (case handshake_peer peer of
                         Some e \<Rightarrow> Some (Inl (PeerSyn e))
                       | None \<Rightarrow> Some (Inr (ws, newConn params 1 (hi_made io)))), n2)))"

definition fstun_Dial :: "rm_io \<Rightarrow> (resolvedConfig \<times> synParams) option \<Rightarrow> byte list option \<Rightarrow> handshake_io \<Rightarrow> path \<Rightarrow> fsdir \<Rightarrow> node \<Rightarrow>
    (fstun_error + wstate \<times> conn) option \<times> node" where
  "fstun_Dial rm resolved rnd io root fs n =
     (case resolved of
        None \<Rightarrow> (Some (Inl NoConfig), n)
      | Some (rc, params) \<Rightarrow>
          (case newConnID rnd of
             None \<Rightarrow> (Some (Inl NoRandom), n)
           | Some cid \<Rightarrow>
               (case handshake io rc params root cid RoleInitiator fs n of
                  (Some (Inl e), n') \<Rightarrow> (Some (Inl e), dial_cleanup rm root cid n')
                | (res, n') \<Rightarrow> (res, n'))))"

section \<open>What a dial touches\<close>

text \<open>A wait whose clock passes the deadline ends, if its calls of \<open>next\<close> do.\<close>

lemma waitSYN_ends: "t \<in> set ts \<Longrightarrow> until < st_now t \<Longrightarrow> \<forall>u \<in> set ts. st_next u \<noteq> None \<Longrightarrow> waitSYN until ts \<noteq> None"
  by (induction ts) (auto split: option.splits)

text \<open>Only parameters the peer sent in a SYN come out of it.\<close>

lemma waitSYN_peer:
  "waitSYN until ts = Some (Inr p) \<Longrightarrow>
   \<exists>t f. t \<in> set ts \<and> st_next t = Some (Inr f) \<and> frame_typ f = frameSYN \<and> decodeSynParams (frame_payload f) = Some p"
proof (induction ts)
  case (Cons t ts)
  show ?case
  proof (cases "st_next t")
    case None
    then show ?thesis using Cons by simp
  next
    case x: (Some x)
    show ?thesis
    proof (cases "syn_result x")
      case None
      then show ?thesis using Cons x by (auto split: if_splits)
    next
      case (Some r)
      then show ?thesis using Cons.prems x by (auto simp: syn_result_def split: sum.splits if_splits option.splits)
    qed
  qed
qed simp

lemma announce_other:
  assumes "root @ [inboxDirName] \<parallel> p" "inboxMarkerPath root cid \<parallel> p" "root @ [doorbellName] \<parallel> p"
  shows "stat (announce io r now1 now2 root cid n) p = stat n p"
  using assms by (auto simp: announce_def writeInboxMarker_def ringDoorbell_def root_paths Let_def stat_edit_other split: prod.splits if_splits)

lemma send_files_other:
  assumes "connPath root cid \<parallel> p" "name_ok (sendDir r)" "name_ok (segName 0)"
  shows "stat (send_files io root cid r n) p = stat n p"
proof -
  have "connPath root cid @ q \<parallel> p" for q using assms(1) 
    by (auto simp: parallel_def prefix_append dest: append_prefixD)
  moreover have "pathJoin (connPath root cid) [sendDir r] = connPath root cid @ [sendDir r]"
    "pathJoin (connPath root cid @ [sendDir r]) [segName 0] = connPath root cid @ [sendDir r, segName 0]"
    using assms pathJoin_ok [of "[sendDir r]"] pathJoin_ok [of "[segName 0]"] by simp_all
  ultimately show ?thesis by (simp add: send_files_def Let_def stat_edit_other)
qed

lemma names_of_send: "name_ok (sendDir r)" "name_ok (segName 0)"
proof -
  show "name_ok (sendDir r)" by (cases r) (simp_all add: sendDir_def name_ok_def)
  show "name_ok (segName 0)" by code_simp
qed

text \<open>A handshake changes the files of its own tunnel, its marker and the doorbell only.\<close>

lemma handshake_other:
  assumes "hex_id other" "hex_id cid" "other \<noteq> cid"
  shows "stat (snd (handshake io rc params root cid r fs n)) (connPath root other @ q) = stat n (connPath root other @ q)"
proof -
  have m: "inboxMarkerPath root cid = root @ [inboxDirName, cid]"
    using marker_ok hex_parts [OF assms(2)] by (simp add: inboxMarkerPath_def)
  have "(take 2 cid, drop 2 cid) \<noteq> (take 2 other, drop 2 other)" using assms(3) by (metis append_take_drop_id prod.inject)
  then have "connPath root cid \<parallel> connPath root other @ q"
    using tunnel_paths(1) [OF assms(1)] connPath_hex [OF assms(2)] by simp
  from send_files_other [OF this names_of_send] announce_other [OF tunnel_paths(4) [OF assms(1)] _ tunnel_paths(3) [OF assms(1)]]
    tunnel_paths(2) [OF assms(1), of root cid q] m
  show ?thesis by (auto simp: handshake_def Let_def split: sum.splits)
qed

text \<open>The place of the marker holds a file or nothing afterwards, if nothing was there before.\<close>

lemma edit_keeps_absent:
  "stat n (p @ x # q) = None \<Longrightarrow>
   stat (edit now p (\<lambda>d. case d of Some m \<Rightarrow> m | None \<Rightarrow> Dir now []) (Some n)) (p @ x # q) = None"
proof (induction p arbitrary: n)
  case (Cons y p)
  have fresh: "stat (edit now p (\<lambda>d. case d of Some m \<Rightarrow> m | None \<Rightarrow> Dir now []) None) (p @ x # q) = None" for p
    by (induction p) simp_all
  show ?case
  proof (cases n)
    case (Dir t es)
    then show ?thesis using Cons fresh by (cases "map_of es y") (auto simp: AList.update_conv')
  qed simp
qed simp

lemma announce_marker:
  assumes "hex_id cid" "stat n (inboxMarkerPath root cid) = None"
  shows "\<not> (\<exists>t es. stat (announce io r now1 now2 root cid n) (inboxMarkerPath root cid) = Some (Dir t es))"
proof -
  let ?m = "inboxMarkerPath root cid"
  let ?n1 = "edit now1 (root @ [inboxDirName]) (\<lambda>d. case d of Some m \<Rightarrow> m | None \<Rightarrow> Dir now1 []) (Some n)"
  have m: "?m = root @ [inboxDirName, cid]" using marker_ok hex_parts [OF assms(1)] by (simp add: inboxMarkerPath_def)
  have absent: "stat ?n1 ?m = None" using edit_keeps_absent [of n "root @ [inboxDirName]" cid "[]"] assms(2) m by simp
  have written: "stat (edit now1 ?m (\<lambda>_. File now1) (Some ?n1)) ?m = Some (File now1)" if "creatable ?n1 ?m"
    using stat_creatable [OF that] by simp
  have bell: "stat (fst (ringDoorbell io now2 root n')) ?m = stat n' ?m" for n'
    using root_paths(1) [of root "[cid]"] by (simp add: m ringDoorbell_def root_paths(2,3) Let_def stat_edit_other)
  show ?thesis using assms(2) absent written bell
    by (auto simp: announce_def writeInboxMarker_def root_paths(2,3) Let_def split: prod.splits if_splits)
qed

lemma removeFile_gone: "\<not> (\<exists>t es. stat n p = Some (Dir t es)) \<Longrightarrow> p \<noteq> [] \<Longrightarrow> stat (removeFile p n) p = None"
  using stat_removeAll [of p n "[]"] by (cases "stat n p") (auto simp: removeFile_def split: node.splits)

lemma handshake_marker:
  assumes "hex_id cid" "stat n (inboxMarkerPath root cid) = None"
  shows "\<not> (\<exists>t es. stat (snd (handshake io rc params root cid r fs n)) (inboxMarkerPath root cid) = Some (Dir t es))"
proof -
  have m: "inboxMarkerPath root cid = root @ [inboxDirName, cid]"
    using marker_ok hex_parts [OF assms(1)] by (simp add: inboxMarkerPath_def)
  have "connPath root cid \<parallel> inboxMarkerPath root cid"
    using tunnel_paths(2) [OF assms(1), of root cid "[]"] by (simp add: m parallel_commute)
  from send_files_other [OF this names_of_send] assms(2)
  have s: "stat (send_files io root cid r n) (inboxMarkerPath root cid) = None" by metis
  with announce_marker [OF assms(1) s] show ?thesis by (simp add: handshake_def Let_def split: sum.splits)
qed

section \<open>Properties\<close>

text \<open>
  C22. A dial ends, and one that fails leaves nothing behind: once the clock has passed the
  handshake's timeout at one of the polls the dial has returned, provided that the calls of \<open>next\<close>
  the wait makes return (a log that leads in a circle keeps one for ever). When the dial fails, at
  whichever step, no file of its tunnel remains if their removal succeeds, nor does the marker it
  dropped in the inbox if that is removed; and whatever the removals do, the files of every other
  tunnel are as they were.
\<close>

theorem dial_ends_clean:
  assumes "length bs = 16"
  shows "((\<exists>t \<in> set (hi_tries io). hi_start io + rc_handshakeTimeout rc < st_now t) \<longrightarrow>
      (\<forall>t \<in> set (hi_tries io). st_next t \<noteq> None) \<longrightarrow>
      fst (fstun_Dial rm (Some (rc, params)) (Some bs) io root fs n) \<noteq> None) \<and>
    (\<forall>e n'. fstun_Dial rm (Some (rc, params)) (Some bs) io root fs n = (Some (Inl e), n') \<longrightarrow>
      (\<forall>q. rm (connPath root (hexEncode bs)) = None \<longrightarrow> stat n' (connPath root (hexEncode bs) @ q) = None) \<and>
      (rm (inboxMarkerPath root (hexEncode bs)) = None \<longrightarrow> stat n (inboxMarkerPath root (hexEncode bs)) = None \<longrightarrow>
        stat n' (inboxMarkerPath root (hexEncode bs)) = None) \<and>
      (\<forall>other q. hex_id other \<longrightarrow> other \<noteq> hexEncode bs \<longrightarrow>
        stat n' (connPath root other @ q) = stat n (connPath root other @ q)))"
proof (intro conjI allI impI)
  let ?cid = "hexEncode bs"
  let ?h = "handshake io rc params root ?cid RoleInitiator fs n"
  note cid = hexEncode_hex [OF assms]
  have dial: "fstun_Dial rm (Some (rc, params)) (Some bs) io root fs n =
      (case ?h of (Some (Inl e), n') \<Rightarrow> (Some (Inl e), dial_cleanup rm root ?cid n') | (res, n') \<Rightarrow> (res, n'))"
    by (simp add: fstun_Dial_def newConnID_def)
  show "fst (fstun_Dial rm (Some (rc, params)) (Some bs) io root fs n) \<noteq> None"
    if "\<exists>t \<in> set (hi_tries io). hi_start io + rc_handshakeTimeout rc < st_now t" "\<forall>t \<in> set (hi_tries io). st_next t \<noteq> None"
  proof -
    from that waitSYN_ends have "waitSYN (hi_start io + rc_handshakeTimeout rc) (hi_tries io) \<noteq> None" by blast
    then have "fst ?h \<noteq> None" by (auto simp: handshake_def Let_def split: sum.splits option.splits)
    then show ?thesis unfolding dial by (auto split: prod.splits option.splits sum.splits)
  qed
  fix e n'
  assume "fstun_Dial rm (Some (rc, params)) (Some bs) io root fs n = (Some (Inl e), n')"
  then have n': "n' = dial_cleanup rm root ?cid (snd ?h)" unfolding dial by (auto split: prod.splits option.splits sum.splits)
  have m: "inboxMarkerPath root ?cid = root @ [inboxDirName, ?cid]"
    using marker_ok hex_parts [OF cid] by (simp add: inboxMarkerPath_def)
  show "stat n' (connPath root ?cid @ q) = None" if "rm (connPath root ?cid) = None" for q
    unfolding n' by (rule dial_cleanup_exact(1), rule cid, rule that)
  show "stat n' (connPath root other @ q) = stat n (connPath root other @ q)" if "hex_id other" "other \<noteq> ?cid" for other q
    unfolding n' using dial_cleanup_exact(2) [OF cid that] handshake_other [OF that(1) cid that(2)] by simp
  assume ok: "rm (inboxMarkerPath root ?cid) = None" and "stat n (inboxMarkerPath root ?cid) = None"
  from handshake_marker [OF cid this(2)] stat_rmAll_other [of "connPath root ?cid" "inboxMarkerPath root ?cid"]
    tunnel_paths(2) [OF cid, of root ?cid "[]"]
  have "stat (removeFile (inboxMarkerPath root ?cid) (rmAll rm (connPath root ?cid) (snd ?h))) (inboxMarkerPath root ?cid) = None"
    by (intro removeFile_gone) (simp_all add: m parallel_commute)
  then show "stat n' (inboxMarkerPath root ?cid) = None" unfolding n' dial_cleanup_def rmFile_def ok by simp
qed

text \<open>A peer that never answers, and a tunnel that is already there.\<close>

definition mute_io :: handshake_io where
  "mute_io = \<lparr> hi_mkdir = True, hi_open = True, hi_seg = \<lparr> io_roll = WOk, io_open = True, io_write = WOk \<rparr>, hi_now = 4,
     hi_announce = fine_io, hi_now1 = 5, hi_now2 = 6, hi_start = 7,
     hi_tries = [\<lparr> st_next = Some (Inl ENotExist), st_now = 8, st_cancel = False \<rparr>,
                 \<lparr> st_next = Some (Inl EIncomplete), st_now = 17, st_cancel = False \<rparr>], hi_made = 18 \<rparr>"

definition mute_params :: synParams where
  "mute_params = \<lparr> syn_version = 1, syn_segmentSize = 1000, syn_window = 8, syn_maxFrame = 4 \<rparr>"

theorem dial_ends_clean_witness:
  "\<exists>e n'. fstun_Dial rm_fine (Some (demo_rc, mute_params)) (Some (replicate 16 0)) mute_io [''srv''] empty_dir quiet_tree = (Some (Inl e), n') \<and>
     stat n' (connPath [''srv''] (hexEncode (replicate 16 0)) @ []) = None \<and>
     stat n' (inboxMarkerPath [''srv''] (hexEncode (replicate 16 0))) = None \<and>
     stat n' (connPath [''srv''] demo_id @ [''c2s'', segName 0]) = Some (File 3)"
proof -
  let ?cid = "hexEncode (replicate 16 0)"
  let ?h = "handshake mute_io demo_rc mute_params [''srv''] ?cid RoleInitiator empty_dir quiet_tree"
  have t: "length (replicate 16 (0 :: byte)) = 16" by simp
  have "\<exists>e. fst ?h = Some (Inl e)"
    by (auto simp: handshake_def mute_io_def demo_rc_def syn_result_def Let_def split: sum.splits)
  then obtain e n' where d: "fstun_Dial rm_fine (Some (demo_rc, mute_params)) (Some (replicate 16 0)) mute_io [''srv''] empty_dir quiet_tree =
      (Some (Inl e), n')"
    by (cases ?h) (auto simp: fstun_Dial_def newConnID_def)
  have i: "hex_id demo_id" "demo_id \<noteq> ?cid" "stat quiet_tree (inboxMarkerPath [''srv''] ?cid) = None"
    "stat quiet_tree (connPath [''srv''] demo_id @ [''c2s'', segName 0]) = Some (File 3)" by code_simp+
  have f: "rm_fine p = None" for p by (simp add: rm_fine_def)
  note c = conjunct2 [OF dial_ends_clean [OF t, of mute_io demo_rc rm_fine mute_params "[''srv'']" empty_dir quiet_tree], rule_format, OF d]
  show ?thesis using d conjunct1 [OF c, rule_format, OF f, of "[]"] conjunct1 [OF conjunct2 [OF c], rule_format, OF f i(3)]
      conjunct2 [OF conjunct2 [OF c], rule_format, OF i(1,2), of "[''c2s'', segName 0]"] i(4) by metis
qed

end
