(* ===== verification/Go_Net.thy ===== *)
theory Go_Net
  imports Go_Strings
begin

text \<open>
  The parts of Go's \<open>net\<close> package the broker relies on: parsing and printing of IP
  addresses, the address classes its egress control tests, \<open>ParseCIDR\<close> and
  \<open>IPNet.Contains\<close>, \<open>SplitHostPort\<close> and \<open>JoinHostPort\<close>. An address is a byte list, of
  length 16 as \<open>ParseIP\<close> returns it or of length 4; \<open>None\<close> is a nil address or an error.
\<close>

section \<open>Splitting\<close>

fun splitOn :: "char \<Rightarrow> string \<Rightarrow> string list" where
  "splitOn d [] = [[]]"
| "splitOn d (c # cs) =
     (if c = d then [] # splitOn d cs
      else case splitOn d cs of [] \<Rightarrow> [[c]] | w # ws \<Rightarrow> (c # w) # ws)"

text \<open>\<open>strings.Cut\<close> at the first, and the same at the last, occurrence of a character.\<close>

definition cutAt :: "char \<Rightarrow> string \<Rightarrow> (string \<times> string) option" where
  "cutAt d s = (if d \<in> set s then Some (takeWhile (\<lambda>c. c \<noteq> d) s, tl (dropWhile (\<lambda>c. c \<noteq> d) s))
                else None)"

definition cutLast :: "char \<Rightarrow> string \<Rightarrow> (string \<times> string) option" where
  "cutLast d s = map_option (\<lambda>(b, a). (rev a, rev b)) (cutAt d (rev s))"

lemma cutAt_some: "d \<notin> set a \<Longrightarrow> cutAt d (a @ d # b) = Some (a, b)"
  by (induction a) (auto simp: cutAt_def)

lemma cutAt_split: "cutAt d s = Some (a, b) \<Longrightarrow> s = a @ d # b \<and> d \<notin> set a"
proof -
  assume c: "cutAt d s = Some (a, b)"
  then have d: "d \<in> set s" and a: "a = takeWhile (\<lambda>c. c \<noteq> d) s" and b: "b = tl (dropWhile (\<lambda>c. c \<noteq> d) s)"
    by (auto simp: cutAt_def split: if_splits)
  have "dropWhile (\<lambda>c. c \<noteq> d) s \<noteq> []" using d by (auto simp: dropWhile_eq_Nil_conv)
  moreover from this have "hd (dropWhile (\<lambda>c. c \<noteq> d) s) = d" using hd_dropWhile [of "\<lambda>c. c \<noteq> d" s] by simp
  ultimately have "dropWhile (\<lambda>c. c \<noteq> d) s = d # b" unfolding b by (metis list.collapse)
  then show ?thesis using a takeWhile_dropWhile_id [of "\<lambda>c. c \<noteq> d" s] by (auto dest: set_takeWhileD)
qed

lemma cutLast_some: "d \<notin> set b \<Longrightarrow> cutLast d (a @ d # b) = Some (a, b)"
  using cutAt_some [of d "rev b" "rev a"] by (simp add: cutLast_def)

section \<open>IP addresses\<close>

type_synonym ip = "byte list"

text \<open>\<open>parseIPv4Fields\<close>: four decimal octets without leading zeros.\<close>

definition parseOctet :: "string \<Rightarrow> byte option" where
  "parseOctet s =
     (if s = [] \<or> \<not> list_all (\<lambda>c. digit_val c \<noteq> None) s \<or> (hd s = CHR ''0'' \<and> tl s \<noteq> [])
         \<or> dec_value s > 255
      then None else Some (word_of_nat (dec_value s)))"

definition parseIPv4 :: "string \<Rightarrow> byte list option" where
  "parseIPv4 s =
     (let os = map parseOctet (splitOn (CHR ''.'') s)
      in if length os = 4 \<and> None \<notin> set os then Some (map the os) else None)"

definition hex_val :: "char \<Rightarrow> nat option" where
  "hex_val c = (let n = (of_char c :: nat)
     in if 48 \<le> n \<and> n \<le> 57 then Some (n - 48)
        else if 97 \<le> n \<and> n \<le> 102 then Some (n - 87)
        else if 65 \<le> n \<and> n \<le> 70 then Some (n - 55) else None)"

definition hex_value :: "string \<Rightarrow> nat" where
  "hex_value s = foldl (\<lambda>a c. a * 16 + (case hex_val c of Some d \<Rightarrow> d | None \<Rightarrow> 0)) 0 s"

text \<open>
  The loop of \<open>parseIPv6\<close>: the number of 16-bit groups still to read, the rest of the string,
  the bytes so far and the position of the ellipsis.
\<close>

fun parseIPv6_loop ::
  "nat \<Rightarrow> string \<Rightarrow> byte list \<Rightarrow> nat option \<Rightarrow> (byte list \<times> nat option \<times> string) option" where
  "parseIPv6_loop 0 s acc ell = Some (acc, ell, s)"
| "parseIPv6_loop (Suc n) s acc ell =
     (let h = takeWhile (\<lambda>c. hex_val c \<noteq> None) s; r = drop (length h) s
      in if h = [] \<or> length h > 4 then None
         else if r \<noteq> [] \<and> hd r = CHR ''.'' then
           (if ell = None \<and> length acc \<noteq> 12 \<or> length acc + 4 > 16 then None
            else map_option (\<lambda>b. (acc @ b, ell, [])) (parseIPv4 s))
         else
           let acc' = acc @ [word_of_nat (hex_value h div 256), word_of_nat (hex_value h mod 256)]
           in if r = [] then Some (acc', ell, [])
              else if hd r \<noteq> CHR '':'' \<or> tl r = [] then None
              else if hd (tl r) = CHR '':'' then
                (if ell \<noteq> None then None
                 else if tl (tl r) = [] then Some (acc', Some (length acc'), [])
                 else parseIPv6_loop n (tl (tl r)) acc' (Some (length acc')))
              else parseIPv6_loop n (tl r) acc' ell)"

definition parseIPv6_finish :: "byte list \<times> nat option \<times> string \<Rightarrow> byte list option" where
  "parseIPv6_finish = (\<lambda>(acc, ell, s).
     if s \<noteq> [] then None
     else if length acc < 16 then
       map_option (\<lambda>e. take e acc @ replicate (16 - length acc) 0 @ drop e acc) ell
     else if ell \<noteq> None then None else Some acc)"

text \<open>\<open>net.ParseIP\<close> rejects an address with a zone, so any percent sign makes it fail.\<close>

definition parseIPv6 :: "string \<Rightarrow> byte list option" where
  "parseIPv6 s =
     (if CHR ''%'' \<in> set s then None
      else if take 2 s = ''::'' then
        (if drop 2 s = [] then Some (replicate 16 0)
         else Option.bind (parseIPv6_loop 8 (drop 2 s) [] (Some 0)) parseIPv6_finish)
      else Option.bind (parseIPv6_loop 8 s [] None) parseIPv6_finish)"

definition v4InV6Prefix :: "byte list" where
  "v4InV6Prefix = replicate 10 0 @ [0xff, 0xff]"

text \<open>\<open>netip.ParseAddr\<close> without a zone: 4 bytes for a dotted address and 16 for the others.\<close>

definition parseAddr :: "string \<Rightarrow> byte list option" where
  "parseAddr s =
     (case find (\<lambda>c. c = CHR ''.'' \<or> c = CHR '':'' \<or> c = CHR ''%'') s of
        Some c \<Rightarrow> if c = CHR ''.'' then parseIPv4 s else if c = CHR '':'' then parseIPv6 s else None
      | None \<Rightarrow> None)"

definition as16 :: "byte list \<Rightarrow> ip" where
  "as16 a = (if length a = 4 then v4InV6Prefix @ a else a)"

definition parseIP :: "string \<Rightarrow> ip option" where
  "parseIP s = map_option as16 (parseAddr s)"

definition to4 :: "ip \<Rightarrow> byte list option" where
  "to4 a = (if length a = 4 then Some a
            else if length a = 16 \<and> take 12 a = v4InV6Prefix then Some (drop 12 a) else None)"

section \<open>Printing\<close>

fun appendHex :: "nat \<Rightarrow> string" where
  "appendHex n = (if n < 16 then [hex_digit n] else appendHex (n div 16) @ [hex_digit (n mod 16)])"

declare appendHex.simps [simp del]

definition groups6 :: "ip \<Rightarrow> nat list" where
  "groups6 a = map (\<lambda>i. unat (a ! (2 * i)) * 256 + unat (a ! (2 * i + 1))) [0..<8]"

text \<open>The first of the longest runs of at least two zero groups, as start and end.\<close>

definition zero_run :: "nat list \<Rightarrow> nat \<times> nat" where
  "zero_run g = foldl (\<lambda>(a, b) i.
     let l = length (takeWhile (\<lambda>x. x = 0) (drop i g))
     in if 2 \<le> l \<and> b - a < l then (i, i + l) else (a, b)) (255, 255) [0..<8]"

definition string6 :: "ip \<Rightarrow> string" where
  "string6 a =
     (let g = groups6 a; (z0, z1) = zero_run g;
          out = (\<lambda>xs. join (map appendHex xs) '':'')
      in if z0 \<ge> 8 then out g else out (take z0 g) @ ''::'' @ out (drop z1 g))"

definition ip_String :: "ip \<Rightarrow> string" where
  "ip_String a =
     (case to4 a of
        Some b \<Rightarrow> join (map (\<lambda>x. formatUint (unat x)) b) ''.''
      | None \<Rightarrow> string6 a)"

section \<open>Address classes\<close>

definition isLoopback :: "ip \<Rightarrow> bool" where
  "isLoopback a = (case to4 a of Some b \<Rightarrow> b ! 0 = 127 | None \<Rightarrow> a = replicate 15 0 @ [1])"

definition isLinkLocalUnicast :: "ip \<Rightarrow> bool" where
  "isLinkLocalUnicast a =
     (case to4 a of
        Some b \<Rightarrow> b ! 0 = 169 \<and> b ! 1 = 254
      | None \<Rightarrow> length a = 16 \<and> a ! 0 = 0xfe \<and> (a ! 1) AND 0xc0 = 0x80)"

definition isLinkLocalMulticast :: "ip \<Rightarrow> bool" where
  "isLinkLocalMulticast a =
     (case to4 a of
        Some b \<Rightarrow> b ! 0 = 224 \<and> b ! 1 = 0 \<and> b ! 2 = 0
      | None \<Rightarrow> length a = 16 \<and> a ! 0 = 0xff \<and> (a ! 1) AND 0x0f = 0x02)"

definition isUnspecified :: "ip \<Rightarrow> bool" where
  "isUnspecified a \<longleftrightarrow> to4 a = Some [0, 0, 0, 0] \<or> a = replicate 16 0"

section \<open>Networks\<close>

record ipnet =
  net_IP :: ip
  net_Mask :: "byte list"

definition cidrMask :: "nat \<Rightarrow> nat \<Rightarrow> byte list" where
  "cidrMask ones bits = map (\<lambda>i. if 8 * i + 8 \<le> ones then 0xff
     else if 8 * i < ones then NOT (push_bit (8 * i + 8 - ones) 1 - 1) else 0) [0..<bits div 8]"

definition maskWith :: "byte list \<Rightarrow> byte list \<Rightarrow> byte list" where
  "maskWith a m = map2 (\<lambda>x y. x AND y) a m"

text \<open>\<open>dtoi\<close> gives up at 0xFFFFFF.\<close>

definition parseCIDR :: "string \<Rightarrow> ipnet option" where
  "parseCIDR s =
     (case cutAt (CHR ''/'') s of
        None \<Rightarrow> None
      | Some (addr, msk) \<Rightarrow>
          (case parseAddr addr of
             None \<Rightarrow> None
           | Some a \<Rightarrow>
               if msk = [] \<or> \<not> list_all (\<lambda>c. digit_val c \<noteq> None) msk \<or>
                  dec_value msk > 8 * length a
               then None
               else let m = cidrMask (dec_value msk) (8 * length a)
                    in Some \<lparr> net_IP = maskWith a m, net_Mask = m \<rparr>))"

definition networkNumberAndMask :: "ipnet \<Rightarrow> (byte list \<times> byte list) option" where
  "networkNumberAndMask n =
     (case to4 (net_IP n) of
        Some a \<Rightarrow> if length (net_Mask n) = 4 then Some (a, net_Mask n)
                  else if length (net_Mask n) = 16 then Some (a, drop 12 (net_Mask n)) else None
      | None \<Rightarrow> if length (net_IP n) = 16 \<and> length (net_Mask n) = 16
                then Some (net_IP n, net_Mask n) else None)"

definition ipnet_contains :: "ipnet \<Rightarrow> ip \<Rightarrow> bool" where
  "ipnet_contains n a =
     (case networkNumberAndMask n of
        None \<Rightarrow> False
      | Some (nn, m) \<Rightarrow>
          let b = (case to4 a of Some x \<Rightarrow> x | None \<Rightarrow> a)
          in length b = length nn \<and> maskWith nn m = maskWith b m)"

section \<open>Host and port\<close>

definition splitHostPort :: "string \<Rightarrow> (string \<times> string) option" where
  "splitHostPort hp =
     (case cutLast (CHR '':'') hp of
        None \<Rightarrow> None
      | Some (pre, port) \<Rightarrow>
          if hd hp = CHR ''['' then
            (case cutAt (CHR '']'') hp of
               None \<Rightarrow> None
             | Some (h, rest) \<Rightarrow>
                 if pre \<noteq> h @ '']'' then None
                 else if CHR ''['' \<in> set (tl hp) \<or> CHR '']'' \<in> set rest then None
                 else Some (tl h, port))
          else if CHR '':'' \<in> set pre \<or> CHR ''['' \<in> set hp \<or> CHR '']'' \<in> set hp then None
          else Some (pre, port))"

definition joinHostPort :: "string \<Rightarrow> string \<Rightarrow> string" where
  "joinHostPort host port =
     (if CHR '':'' \<in> set host then ''['' @ host @ '']:'' @ port else host @ '':'' @ port)"

section \<open>IPv4 addresses print and parse\<close>

lemma splitOn_not_Nil [simp]: "splitOn d s \<noteq> []"
  by (cases s) (auto split: list.splits)

lemma splitOn_append: "d \<notin> set w \<Longrightarrow> splitOn d (w @ d # s) = w # splitOn d s"
  by (induction w) auto

lemma splitOn_single: "d \<notin> set w \<Longrightarrow> splitOn d w = [w]"
  by (induction w) auto

lemma splitOn_join: "ws \<noteq> [] \<Longrightarrow> (\<And>w. w \<in> set ws \<Longrightarrow> d \<notin> set w) \<Longrightarrow> splitOn d (join ws [d]) = ws"
  by (induction ws "[d]" rule: join.induct) (auto simp: splitOn_single splitOn_append)

lemma formatUint_hd: "n \<noteq> 0 \<Longrightarrow> hd (formatUint n) \<noteq> CHR ''0''"
proof (induction n rule: formatUint.induct)
  case (1 n)
  show ?case
  proof (cases "n < 10")
    case True
    have z: "digit_val (CHR ''0'') = Some 0" by (simp add: digit_val_def Let_def)
    have "digit n \<noteq> CHR ''0''"
      using arg_cong [of "digit n" "CHR ''0''" digit_val] digit_val_digit [OF True] z "1.prems" by auto
    then show ?thesis using True by (simp add: formatUint.simps [of n])
  next
    case False
    then show ?thesis using "1.IH" [OF False] by (simp add: formatUint.simps [of n])
  qed
qed

lemma digit_val_special [simp]:
  "digit_val (CHR ''.'') = None" "digit_val (CHR '':'') = None" "digit_val (CHR ''%'') = None"
  by (simp_all add: digit_val_def Let_def)

lemma formatUint_no_dot: "CHR ''.'' \<notin> set (formatUint n)"
  using formatUint_digits [of "CHR ''.''" n] by auto

lemma parseOctet_format [simp]: "parseOctet (formatUint (unat b)) = Some b"
proof -
  have "unat b \<le> 255" using unsigned_less [of b, where ?'a = nat] by simp
  moreover have "\<not> (hd (formatUint (unat b)) = CHR ''0'' \<and> tl (formatUint (unat b)) \<noteq> [])"
    using formatUint_hd [of "unat b"] by (cases "unat b = 0") (auto simp: formatUint.simps [of 0])
  ultimately show ?thesis
    using formatUint_digits [of _ "unat b"] by (auto simp: parseOctet_def list_all_iff)
qed

definition v4 :: "byte \<Rightarrow> byte \<Rightarrow> byte \<Rightarrow> byte \<Rightarrow> ip" where
  "v4 a b c d = v4InV6Prefix @ [a, b, c, d]"

lemma to4_v4 [simp]: "to4 (v4 a b c d) = Some [a, b, c, d]"
  by (simp add: to4_def v4_def v4InV6Prefix_def)

lemma ip_String_v4:
  "ip_String (v4 a b c d) = join (map (\<lambda>x. formatUint (unat x)) [a, b, c, d]) ''.''"
  by (simp add: ip_String_def)

lemma find_append: "(\<And>c. c \<in> set w \<Longrightarrow> \<not> P c) \<Longrightarrow> P d \<Longrightarrow> find P (w @ d # s) = Some d"
  by (induction w) auto

lemma find_dot:
  "find (\<lambda>c. c = CHR ''.'' \<or> c = CHR '':'' \<or> c = CHR ''%'') (formatUint n @ CHR ''.'' # s) = Some (CHR ''.'')"
  by (rule find_append) (auto dest: formatUint_digits)

text \<open>Printing an IPv4 address gives a string that parses back to it.\<close>

lemma parseIP_ip_String_v4: "parseIP (ip_String (v4 a b c d)) = Some (v4 a b c d)"
proof -
  let ?ws = "map (\<lambda>x. formatUint (unat x)) [a, b, c, d]"
  have "splitOn (CHR ''.'') (join ?ws ''.'') = ?ws"
    by (rule splitOn_join) (auto simp: formatUint_no_dot)
  then have "parseIPv4 (join ?ws ''.'') = Some [a, b, c, d]" by (simp add: parseIPv4_def)
  then show ?thesis
    unfolding ip_String_v4 by (simp add: parseIP_def parseAddr_def find_dot as16_def v4_def)
qed

lemma parseAddr_zone: "CHR ''%'' \<in> set s \<Longrightarrow> parseAddr s = None"
proof -
  assume z: "CHR ''%'' \<in> set s"
  have "\<exists>w \<in> set (splitOn (CHR ''.'') s). CHR ''%'' \<in> set w"
    using z by (induction s) (auto split: list.splits)
  then obtain w where w: "w \<in> set (splitOn (CHR ''.'') s)" "CHR ''%'' \<in> set w" by (rule bexE)
  have "\<not> list_all (\<lambda>c. digit_val c \<noteq> None) w"
    using w(2) digit_val_special(3) unfolding list_all_iff by (intro notI) (drule (1) bspec, simp)
  then have "parseOctet w = None" by (simp add: parseOctet_def)
  then have "None \<in> set (map parseOctet (splitOn (CHR ''.'') s))" using w(1) by force
  then have "parseIPv4 s = None" by (simp add: parseIPv4_def Let_def)
  moreover have "parseIPv6 s = None" using z by (simp add: parseIPv6_def)
  ultimately show ?thesis unfolding parseAddr_def by (simp split: option.split)
qed

lemma parseIP_zone: "CHR ''%'' \<in> set s \<Longrightarrow> parseIP s = None"
  by (simp add: parseIP_def parseAddr_zone)

end
