(* ===== verification/Go_Path.thy ===== *)
theory Go_Path
  imports Go_Net
begin

text \<open>
  The parts of Go's \<open>path/filepath\<close> the sources use on slash-separated paths: \<open>Clean\<close>, \<open>Join\<close> and
  \<open>Dir\<close>. The lemmas show that \<open>Dir\<close> of a cleaned path drops its last component.
\<close>

section \<open>Definitions\<close>

text \<open>Components are kept on a stack; \<open>..\<close> takes one off unless there is none or it is itself \<open>..\<close>.\<close>

fun clean_loop :: "bool \<Rightarrow> string list \<Rightarrow> string list \<Rightarrow> string list" where
  "clean_loop r acc [] = rev acc"
| "clean_loop r acc (c # cs) =
     (if c = [] \<or> c = ''.'' then clean_loop r acc cs
      else if c = ''..'' then
        (case acc of
           [] \<Rightarrow> clean_loop r (if r then [] else [''..'']) cs
         | a # as \<Rightarrow> clean_loop r (if a = ''..'' then ''..'' # acc else as) cs)
      else clean_loop r (c # acc) cs)"

definition render :: "bool \<Rightarrow> string list \<Rightarrow> string" where
  "render r cs = (if r then ''/'' @ join cs ''/'' else if cs = [] then ''.'' else join cs ''/'')"

definition filepathClean :: "string \<Rightarrow> string" where
  "filepathClean s = (let r = hasPrefix s ''/'' in render r (clean_loop r [] (splitOn (CHR ''/'') s)))"

definition filepathJoin :: "string list \<Rightarrow> string" where
  "filepathJoin es =
     (case dropWhile (\<lambda>e. e = []) es of [] \<Rightarrow> [] | xs \<Rightarrow> filepathClean (join xs ''/''))"

definition filepathDir :: "string \<Rightarrow> string" where
  "filepathDir s = filepathClean (rev (dropWhile (\<lambda>c. c \<noteq> CHR ''/'') (rev s)))"

section \<open>Cleaned paths\<close>

definition comp_ok :: "string \<Rightarrow> bool" where
  "comp_ok c \<longleftrightarrow> c \<noteq> [] \<and> c \<noteq> ''.'' \<and> CHR ''/'' \<notin> set c"

text \<open>In a cleaned path \<open>..\<close> occurs only at the front, and not at all in an absolute one.\<close>

definition path_norm :: "bool \<Rightarrow> string list \<Rightarrow> bool" where
  "path_norm r cs \<longleftrightarrow> list_all comp_ok cs \<and>
     (\<exists>k ds. cs = replicate k ''..'' @ ds \<and> ''..'' \<notin> set ds \<and> (r \<longrightarrow> k = 0))"

lemma path_norm_Nil [simp]: "path_norm r []"
  by (simp add: path_norm_def)

lemma path_norm_snoc:
  assumes "path_norm r cs" "comp_ok c" "c = ''..'' \<longrightarrow> \<not> r \<and> set cs \<subseteq> {''..''}"
  shows "path_norm r (cs @ [c])"
proof -
  obtain k ds where k: "cs = replicate k ''..'' @ ds" "''..'' \<notin> set ds" "r \<longrightarrow> k = 0" and ok: "list_all comp_ok cs"
    using assms(1) unfolding path_norm_def by blast
  show ?thesis
  proof (cases "c = ''..''")
    case True
    then have "ds = []" using assms(3) k(1,2) by (cases ds) auto
    then have eq: "cs @ [c] = replicate (Suc k) ''..'' @ []" using True k(1) by (simp add: replicate_append_same)
    have "list_all comp_ok (cs @ [c])" using ok assms(2) by simp
    moreover have "\<not> r" using assms(3) True by blast
    ultimately show ?thesis unfolding path_norm_def using eq by (metis empty_iff empty_set)
  next
    case False
    then have "cs @ [c] = replicate k ''..'' @ (ds @ [c])" "''..'' \<notin> set (ds @ [c])" using k(1,2) by auto
    then show ?thesis using ok assms(2) k(3) unfolding path_norm_def by (intro conjI exI [of _ k] exI [of _ "ds @ [c]"]) simp_all
  qed
qed

lemma path_norm_snocD:
  assumes "path_norm r (cs @ [c])"
  shows "path_norm r cs" "comp_ok c" "c = ''..'' \<Longrightarrow> \<not> r \<and> set cs \<subseteq> {''..''}"
proof -
  obtain k ds where k: "cs @ [c] = replicate k ''..'' @ ds" "''..'' \<notin> set ds" "r \<longrightarrow> k = 0" and ok: "list_all comp_ok (cs @ [c])"
    using assms unfolding path_norm_def by blast
  show "comp_ok c" using ok by simp
  show "path_norm r cs"
  proof (cases ds rule: rev_cases)
    case Nil
    then obtain j where "k = Suc j" using k(1) by (cases k) auto
    then have "cs = replicate j ''..'' @ []" using k(1) Nil by (simp add: replicate_append_same [symmetric])
    then show ?thesis using ok k(3) \<open>k = Suc j\<close> unfolding path_norm_def by (metis empty_iff empty_set list_all_append nat.distinct(1))
  next
    case (snoc es e)
    then have "cs = replicate k ''..'' @ es" "''..'' \<notin> set es" using k(1,2) by auto
    then show ?thesis using ok k(3) unfolding path_norm_def by (metis list_all_append)
  qed
  show "\<not> r \<and> set cs \<subseteq> {''..''}" if "c = ''..''"
  proof -
    have "ds = []" using k(1,2) that by (cases ds rule: rev_cases) auto
    then have "cs @ [c] = replicate k ''..''" using k(1) by simp
    then have "set (cs @ [c]) \<subseteq> {''..''}" "k \<noteq> 0" using arg_cong [of _ _ set] by (fastforce, cases k, auto)
    then show ?thesis using k(3) by auto
  qed
qed

lemma path_norm_butlast: "path_norm r cs \<Longrightarrow> path_norm r (butlast cs)"
  by (cases cs rule: rev_cases) (auto dest: path_norm_snocD(1))

lemma dots_ok: "comp_ok ''..''"
  by (simp add: comp_ok_def)

lemma clean_loop_norm:
  "path_norm r (rev acc) \<Longrightarrow> list_all (\<lambda>c. CHR ''/'' \<notin> set c) cs \<Longrightarrow> path_norm r (clean_loop r acc cs)"
proof (induction r acc cs rule: clean_loop.induct)
  case (2 r acc c cs)
  consider "c = [] \<or> c = ''.''" | "c = ''..''" "acc = []" | a as where "c = ''..''" "acc = a # as"
    | "c \<noteq> []" "c \<noteq> ''.''" "c \<noteq> ''..''" by (cases acc) auto
  then show ?case
  proof cases
    case 1
    then show ?thesis using 2 by auto
  next
    case 2
    then show ?thesis using "2.IH"(2) [OF _ 2] "2.prems" path_norm_snoc [of False "[]" "''..''"] dots_ok by (cases r) auto
  next
    case (3 a as)
    have n: "path_norm r (rev as @ [a])" using "2.prems"(1) 3(2) by simp
    have "path_norm r (rev as @ [a] @ [''..''])" if "a = ''..''"
      using path_norm_snoc [OF n dots_ok] path_norm_snocD(3) [OF n that] that by simp
    then show ?thesis using "2.IH"(3) [OF _ 3] "2.prems"(2) path_norm_snocD(1) [OF n] 3 by auto
  next
    case 4
    then have "comp_ok c" using "2.prems"(2) by (simp add: comp_ok_def)
    then show ?thesis using "2.IH"(4) 4 "2.prems" path_norm_snoc [of r "rev acc" c] by simp
  qed
qed simp

lemma clean_loop_id: "path_norm r (rev acc @ cs) \<Longrightarrow> clean_loop r acc (cs @ es) = clean_loop r (rev cs @ acc) es"
proof (induction cs arbitrary: acc)
  case (Cons c cs)
  have "path_norm r (rev acc @ [c])" using Cons.prems
  proof (induction cs rule: rev_induct)
    case (snoc x xs)
    then show ?case using path_norm_snocD(1) [of r "rev acc @ c # xs" x] by simp
  qed simp
  note s = path_norm_snocD [OF this]
  have IH: "clean_loop r (c # acc) (cs @ es) = clean_loop r (rev cs @ c # acc) es" using Cons by simp
  show ?case
  proof (cases "c = ''..''")
    case True
    then have "\<not> r" "set acc \<subseteq> {''..''}" using s(3) by auto
    then show ?thesis using True IH by (cases acc) auto
  next
    case False
    then show ?thesis using IH s(2) by (simp add: comp_ok_def)
  qed
qed simp

lemma splitOn_parts: "list_all (\<lambda>c. d \<notin> set c) (splitOn d s)"
  by (induction s) (auto split: list.split)

lemma filepathClean_norm: "\<exists>r cs. path_norm r cs \<and> filepathClean s = render r cs"
  using clean_loop_norm [of "hasPrefix s ''/''" "[]" "splitOn (CHR ''/'') s"] splitOn_parts
  by (auto simp: filepathClean_def Let_def)

section \<open>The directory of a cleaned path\<close>

lemma join_snoc: "cs \<noteq> [] \<Longrightarrow> join (cs @ [c]) sep = join cs sep @ sep @ c"
  by (induction cs sep rule: join.induct) auto

lemma dirPart_append: "CHR ''/'' \<notin> set c \<Longrightarrow> rev (dropWhile (\<lambda>c. c \<noteq> CHR ''/'') (rev (p @ [CHR ''/''] @ c))) = p @ [CHR ''/'']"
proof -
  assume "CHR ''/'' \<notin> set c"
  then have "\<forall>x \<in> set (rev c). x \<noteq> CHR ''/''" by auto
  then have "dropWhile (\<lambda>c. c \<noteq> CHR ''/'') (rev c @ CHR ''/'' # rev p) = CHR ''/'' # rev p"
    using dropWhile_append2 [of "rev c" "\<lambda>x. x \<noteq> CHR ''/''" "CHR ''/'' # rev p"] by simp
  then show ?thesis by simp
qed

lemma dirPart_none: "CHR ''/'' \<notin> set c \<Longrightarrow> rev (dropWhile (\<lambda>c. c \<noteq> CHR ''/'') (rev c)) = []"
  by (auto simp: dropWhile_eq_Nil_conv)

lemma comps_no_slash: "path_norm r cs \<Longrightarrow> c \<in> set cs \<Longrightarrow> CHR ''/'' \<notin> set c"
  by (auto simp: path_norm_def comp_ok_def list_all_iff)

lemma splitOn_trailing: "\<forall>c \<in> set cs. d \<notin> set c \<Longrightarrow> cs \<noteq> [] \<Longrightarrow> splitOn d (join cs [d] @ [d]) = cs @ [[]]"
  by (induction cs "[d]" rule: join.induct) (auto simp: splitOn_append)

lemma clean_trailing: "path_norm r cs \<Longrightarrow> clean_loop r [] (cs @ [[]]) = cs"
  using clean_loop_id [of r "[]" cs "[[]]"] by simp

lemma join_head: "path_norm r cs \<Longrightarrow> cs \<noteq> [] \<Longrightarrow> \<not> hasPrefix (join cs sep @ t) ''/''"
proof -
  assume n: "path_norm r cs" "cs \<noteq> []"
  then obtain c ds where "cs = c # ds" "comp_ok c" by (cases cs) (auto simp: path_norm_def)
  then obtain x xs where "c = x # xs" "x \<noteq> CHR ''/''" by (cases c) (auto simp: comp_ok_def)
  then have "join cs sep = x # tl (join cs sep)" using \<open>cs = c # ds\<close> by (cases ds) auto
  then show ?thesis using \<open>x \<noteq> CHR ''/''\<close> by (metis append_Cons hasPrefix_def length_Cons list.inject list.size(3) take_Suc_Cons)
qed

lemma filepathClean_dir:
  assumes "path_norm r cs" "cs \<noteq> []"
  shows "filepathClean ((if r then ''/'' else []) @ join cs ''/'' @ ''/'') = render r cs"
proof -
  have sp: "splitOn (CHR ''/'') (join cs ''/'' @ ''/'') = cs @ [[]]"
    using splitOn_trailing [of cs "CHR ''/''"] comps_no_slash [OF assms(1)] assms(2) by blast
  show ?thesis
  proof (cases r)
    case True
    then have "clean_loop True [] ([] # cs @ [[]]) = cs" using clean_trailing assms(1) by simp
    then show ?thesis using True sp by (simp add: filepathClean_def hasPrefix_def)
  next
    case False
    then have "clean_loop False [] (cs @ [[]]) = cs" using clean_trailing assms(1) by simp
    moreover have "\<not> hasPrefix (join cs ''/'' @ ''/'') ''/''" using join_head [OF assms] .
    ultimately show ?thesis using False sp by (simp add: filepathClean_def)
  qed
qed

lemma filepathClean_root: "filepathClean ''/'' = render True []" "filepathClean [] = render False []"
  by (simp_all add: filepathClean_def hasPrefix_def)

lemma filepathDir_render:
  assumes "path_norm r cs"
  shows "filepathDir (render r cs) = render r (butlast cs)"
proof (cases cs rule: rev_cases)
  case Nil
  then show ?thesis using filepathClean_root by (cases r) (simp_all add: filepathDir_def render_def)
next
  case (snoc ds c)
  have c: "CHR ''/'' \<notin> set c" using comps_no_slash [OF assms] snoc by simp
  have n: "path_norm r ds" using path_norm_snocD(1) assms snoc by simp
  show ?thesis
  proof (cases "ds = []")
    case True
    show ?thesis
    proof (cases r)
      case r: True
      have "filepathDir ([] @ [CHR ''/''] @ c) = render True []"
        unfolding filepathDir_def dirPart_append [OF c] using filepathClean_root(1) by simp
      then show ?thesis using True r snoc by (simp add: render_def)
    next
      case r: False
      have "filepathDir c = render False []" unfolding filepathDir_def dirPart_none [OF c] by (rule filepathClean_root(2))
      then show ?thesis using True r snoc by (simp add: render_def)
    qed
  next
    case False
    then have "render r cs = ((if r then ''/'' else []) @ join ds ''/'') @ [CHR ''/''] @ c"
      using snoc join_snoc [OF False] by (simp add: render_def)
    then have "filepathDir (render r cs) = filepathClean (((if r then ''/'' else []) @ join ds ''/'') @ [CHR ''/''])"
      using dirPart_append [OF c] unfolding filepathDir_def by metis
    then show ?thesis using filepathClean_dir [OF n False] snoc by simp
  qed
qed

end
