(* ===== verification/Fstun_Mode.thy ===== *)
theory Fstun_Mode
  imports Go_Path Fstun_Config
begin

text \<open>
  Detecting a network file system (\<open>transport/fstun/fsmode_linux.go\<close>): the search for an existing
  ancestor, and the table of file system types. What exists and what \<open>statfs\<close> answers are
  arguments. The loop is a partial function; it is shown to return for every path.
\<close>

section \<open>Definitions\<close>

definition networkFSMagic :: "uint32 set" where
  "networkFSMagic =
     {0x6969, 0xFF534D42, 0xFE534D42, 0x0BD00BD0, 0x00C36400, 0x01161970, 0x7461636F, 0x47504653,
      0x5346414F, 0x65735546, 0xFF534D41}"

partial_function (option) nearestExisting :: "(string \<Rightarrow> bool) \<Rightarrow> string \<Rightarrow> string option" where
  "nearestExisting present path =
     (if present path then Some path
      else let parent = filepathDir path
           in if parent = path then Some path else nearestExisting present parent)"

text \<open>\<open>statfs\<close> gives the 64-bit \<open>f_type\<close>, or \<open>None\<close> for an error; the outer \<open>None\<close> would be a loop that does not end.\<close>

definition detectNetworkFS :: "(string \<Rightarrow> bool) \<Rightarrow> (string \<Rightarrow> uint64 option) \<Rightarrow> string \<Rightarrow> bool option" where
  "detectNetworkFS present statfs path =
     map_option (\<lambda>p. case statfs p of None \<Rightarrow> False | Some t \<Rightarrow> (ucast t :: uint32) \<in> networkFSMagic)
       (nearestExisting present path)"

section \<open>The search ends\<close>

lemma nearest_step:
  "present p \<Longrightarrow> nearestExisting present p = Some p"
  "\<not> present p \<Longrightarrow> filepathDir p = p \<Longrightarrow> nearestExisting present p = Some p"
  "\<not> present p \<Longrightarrow> filepathDir p \<noteq> p \<Longrightarrow> nearestExisting present p = nearestExisting present (filepathDir p)"
  by (simp_all add: nearestExisting.simps [of present p])

text \<open>What the search finds: the first of the path and its ancestors that exists, or the last one.\<close>

definition nearest :: "(string \<Rightarrow> bool) \<Rightarrow> string \<Rightarrow> string \<Rightarrow> bool" where
  "nearest present path p \<longleftrightarrow>
     (\<exists>n. p = (filepathDir ^^ n) path \<and> (present p \<or> filepathDir p = p) \<and> (\<forall>m<n. \<not> present ((filepathDir ^^ m) path)))"

lemma nearest_here: "present p \<or> filepathDir p = p \<Longrightarrow> nearest present p p"
  unfolding nearest_def by (intro exI [of _ 0]) simp

lemma nearest_up:
  assumes "\<not> present path" "nearest present (filepathDir path) p"
  shows "nearest present path p"
proof -
  obtain n where n: "p = (filepathDir ^^ n) (filepathDir path)" "present p \<or> filepathDir p = p"
      "\<forall>m<n. \<not> present ((filepathDir ^^ m) (filepathDir path))"
    using assms(2) by (auto simp: nearest_def)
  have s: "(filepathDir ^^ Suc m) path = (filepathDir ^^ m) (filepathDir path)" for m by (simp only: funpow_Suc_right comp_apply)
  have "\<not> present ((filepathDir ^^ m) path)" if "m < Suc n" for m
    using that assms(1) n(3) s by (cases m) auto
  then show ?thesis unfolding nearest_def using n(1,2) s by metis
qed

lemma nearest_render:
  "path_norm r cs \<Longrightarrow> \<exists>p. nearestExisting present (render r cs) = Some p \<and> nearest present (render r cs) p"
proof (induction cs rule: length_induct)
  case (1 cs)
  let ?p = "render r cs"
  consider "present ?p \<or> filepathDir ?p = ?p" | "\<not> present ?p" "filepathDir ?p \<noteq> ?p" by blast
  then show ?case
  proof cases
    case 1
    then show ?thesis using nearest_step(1,2) [of present ?p] nearest_here [of present ?p] by blast
  next
    case 2
    have d: "filepathDir ?p = render r (butlast cs)" using filepathDir_render "1.prems" .
    then have "cs \<noteq> []" using 2(2) by auto
    then have "length (butlast cs) < length cs" by simp
    then obtain p where "nearestExisting present (filepathDir ?p) = Some p" "nearest present (filepathDir ?p) p"
      using "1.IH" path_norm_butlast [OF "1.prems"] unfolding d by blast
    then show ?thesis using nearest_step(3) [of present ?p] nearest_up [of present ?p] 2 by auto
  qed
qed

lemma nearest_returns: "\<exists>p. nearestExisting present path = Some p \<and> nearest present path p"
proof (cases "present path \<or> filepathDir path = path")
  case True
  then show ?thesis using nearest_step(1,2) [of present path] nearest_here [of present path] by blast
next
  case False
  obtain r cs where c: "path_norm r cs" "filepathDir path = render r cs"
    using filepathClean_norm unfolding filepathDir_def by blast
  then obtain p where "nearestExisting present (filepathDir path) = Some p" "nearest present (filepathDir path) p"
    using nearest_render [OF c(1)] by metis
  then show ?thesis using False nearest_step(3) [of present path] nearest_up [of present path] by auto
qed

section \<open>Properties\<close>

text \<open>
  C36. Detecting the file system always returns, whatever the path (relative, unclean or empty
  included) and whatever exists: it asks about the nearest ancestor that exists, or about the
  root or the current directory when nothing does; it answers no when the question fails, and
  otherwise looks the low 32 bits of the type up, so that a type that was sign-extended to 64
  bits is still recognised.
\<close>

theorem detect_network_fs:
  "\<exists>p. nearest present path p \<and>
     detectNetworkFS present statfs path = Some (\<exists>t. statfs p = Some t \<and> take_bit 32 (uint t) \<in> uint ` networkFSMagic)"
proof -
  obtain p where p: "nearestExisting present path = Some p" "nearest present path p" using nearest_returns by blast
  have "(ucast t :: uint32) \<in> networkFSMagic \<longleftrightarrow> take_bit 32 (uint t) \<in> uint ` networkFSMagic" for t :: uint64
  proof -
    have "uint (ucast t :: uint32) = take_bit 32 (uint t)" by (simp add: unsigned_ucast_eq unsigned_take_bit_eq)
    moreover have "inj (uint :: uint32 \<Rightarrow> int)" by (rule injI) (metis word_of_int_uint)
    ultimately show ?thesis using inj_image_mem_iff [of "uint :: uint32 \<Rightarrow> int" "ucast t" networkFSMagic] by simp
  qed
  then have "detectNetworkFS present statfs path = Some (\<exists>t. statfs p = Some t \<and> take_bit 32 (uint t) \<in> uint ` networkFSMagic)"
    using p(1) by (cases "statfs p") (simp_all add: detectNetworkFS_def)
  then show ?thesis using p(2) by blast
qed

end
