(* ===== verification/Ccb_Config.thy ===== *)
theory Ccb_Config
  imports Go_Net
begin

text \<open>
  The broker's configuration (\<open>server.go\<close>: \<open>Config\<close>, \<open>New\<close>, \<open>RegisterOn\<close>, \<open>authorize\<close>) and the
  carrier addresses it may contain (\<open>carrier.go\<close>: \<open>parseCarrierRef\<close>, \<open>detectCarrier\<close>).

  Security and TLS configurations belong to other packages; the sources only test whether they
  are present, so they are flags, and so is a token source. The authorizer and the token verifier
  are functions the embedding daemon supplies.
  Durations are integers counting nanoseconds.
\<close>

section \<open>Carrier addresses\<close>

record carrierRef =
  cr_scheme :: string
  cr_path :: string
  cr_url :: string
  cr_tls :: bool

definition parseCarrierRef :: "string \<Rightarrow> carrierRef option" where
  "parseCarrierRef addr0 =
     (let addr = trimSpace addr0
      in case cutPrefix addr ''fs:'' of
           Some p \<Rightarrow> Some \<lparr> cr_scheme = ''fs'', cr_path = p, cr_url = [], cr_tls = False \<rparr>
         | None \<Rightarrow>
             if hasPrefix addr ''wss://'' then
               Some \<lparr> cr_scheme = ''ws'', cr_path = [], cr_url = addr, cr_tls = True \<rparr>
             else if hasPrefix addr ''ws://'' then
               Some \<lparr> cr_scheme = ''ws'', cr_path = [], cr_url = addr, cr_tls = False \<rparr>
             else None)"

definition isCarrier :: "string \<Rightarrow> bool" where
  "isCarrier addr \<longleftrightarrow> parseCarrierRef addr \<noteq> None"

section \<open>Configuration\<close>

record upstreamConfig =
  up_BrokerAddr :: string
  up_Security :: bool
  up_HeartbeatInterval :: int
  up_ReadyFile :: string

record bconfig =
  c_PublicAddress :: string
  c_Security :: bool
  c_RequestTimeout :: int
  c_TargetIdleTimeout :: int
  c_Authorizer :: "(string \<Rightarrow> string \<Rightarrow> string \<Rightarrow> bool) option"
  c_ReconnectStore :: bool
  c_ReconnectAllowAnyIP :: bool
  c_ReconnectTTL :: int
  c_OutboundProxy :: bool
  c_OutboundTargetAllowlist :: "string list"
  c_OutboundNextHop :: string
  c_OutboundNextHopSecurity :: bool
  c_OutboundTTL :: int
  c_Upstream :: "upstreamConfig option"
  c_CarrierListen :: string
  c_CarrierTLS :: bool
  c_CarrierTokenVerify :: "(string \<Rightarrow> string option) option"
  c_CarrierClientTLS :: bool
  c_CarrierToken :: string
  c_CarrierTokenSource :: bool

definition proxyAddrSinful :: "bconfig \<Rightarrow> string" where
  "proxyAddrSinful cfg = ''<'' @ trim (c_PublicAddress cfg) ''<>'' @ ''>''"

text \<open>\<open>detectCarrier\<close>: the one carrier both inside-broker settings name, if any does.\<close>

definition detectCarrier :: "bconfig \<Rightarrow> unit + carrierRef option" where
  "detectCarrier cfg =
     (let refs = (case c_Upstream cfg of None \<Rightarrow> []
                  | Some u \<Rightarrow> (case parseCarrierRef (up_BrokerAddr u) of None \<Rightarrow> [] | Some r \<Rightarrow> [r]))
               @ (case parseCarrierRef (c_OutboundNextHop cfg) of None \<Rightarrow> [] | Some r \<Rightarrow> [r])
      in case refs of
           [] \<Rightarrow> Inr None
         | r # rs \<Rightarrow> if list_all (\<lambda>q. q = r) rs then Inr (Some r) else Inl ())"

datatype new_error =
    ErrPublicAddress | ErrSecurity | ErrCarriers | ErrNextHopSecurity | ErrRoutingLoop
  | ErrUpstream | ErrLoadReconnects

datatype outbound = TcpDirect | NextHop string int bool

text \<open>\<open>New\<close> up to loading the reconnect records: the defaults, the checks, and the transport.\<close>

definition with_defaults :: "bconfig \<Rightarrow> bconfig" where
  "with_defaults cfg = cfg\<lparr>
     c_RequestTimeout := (if c_RequestTimeout cfg = 0 then 60 * 10 ^ 9 else c_RequestTimeout cfg),
     c_TargetIdleTimeout := (if c_TargetIdleTimeout cfg = 0 then 3600 * 10 ^ 9 else c_TargetIdleTimeout cfg),
     c_ReconnectTTL := (if c_ReconnectTTL cfg = 0 then 24 * 3600 * 10 ^ 9 else c_ReconnectTTL cfg) \<rparr>"

definition choose_outbound :: "bconfig \<Rightarrow> carrierRef option \<Rightarrow> new_error + outbound" where
  "choose_outbound cfg cc =
     (if c_OutboundNextHop cfg \<noteq> [] then
        if \<not> c_OutboundNextHopSecurity cfg then Inl ErrNextHopSecurity
        else if \<not> isCarrier (c_OutboundNextHop cfg) \<and>
                (trim (c_OutboundNextHop cfg) ''<>'' = c_PublicAddress cfg \<or>
                 trim (c_OutboundNextHop cfg) ''<>'' = proxyAddrSinful cfg)
        then Inl ErrRoutingLoop
        else Inr (NextHop (c_OutboundNextHop cfg) (c_RequestTimeout cfg)
                    (cc \<noteq> None \<and> isCarrier (c_OutboundNextHop cfg)))
      else Inr TcpDirect)"

definition New_config :: "bconfig \<Rightarrow> new_error + (bconfig \<times> carrierRef option \<times> outbound)" where
  "New_config cfg0 =
     (if c_PublicAddress cfg0 = [] then Inl ErrPublicAddress
      else if \<not> c_Security cfg0 then Inl ErrSecurity
      else let cfg = with_defaults cfg0
      in case detectCarrier cfg of
           Inl _ \<Rightarrow> Inl ErrCarriers
         | Inr cc \<Rightarrow>
             (case choose_outbound cfg cc of
                Inl e \<Rightarrow> Inl e
              | Inr ob \<Rightarrow>
                  if (case c_Upstream cfg of None \<Rightarrow> False
                      | Some u \<Rightarrow> up_BrokerAddr u = [] \<or> \<not> up_Security u)
                  then Inl ErrUpstream
                  else Inr (cfg, cc, ob)))"

section \<open>Commands and authorization\<close>

datatype command =
    CommandRegister | CommandRequest | CommandReverseConnect | CommandProxyConnect
  | CommandGetTunnelAddress | CommandAlive

text \<open>\<open>RegisterOn\<close>: the commands with the levels that admit them; \<open>None\<close> is a raw handler.\<close>

definition RegisterOn :: "bconfig \<Rightarrow> (command \<times> string list option) list" where
  "RegisterOn cfg =
     [(CommandRegister, Some [''DAEMON'', ''ADVERTISE_STARTD'', ''ADVERTISE_SCHEDD'', ''ADVERTISE_MASTER'']),
      (CommandRequest, Some [''READ'']),
      (CommandReverseConnect, None)]
     @ (if c_OutboundProxy cfg then [(CommandProxyConnect, Some [''DAEMON''])] else [])
     @ (if c_Upstream cfg \<noteq> None then [(CommandGetTunnelAddress, Some [''DAEMON''])] else [])"

definition commandPerms :: "bconfig \<Rightarrow> command \<Rightarrow> string list" where
  "commandPerms cfg cmd = (case map_of (RegisterOn cfg) cmd of Some (Some ps) \<Rightarrow> ps | _ \<Rightarrow> [])"

text \<open>A connection as the handlers see it: its address and the identity it is authorized as.\<close>

record ccb_conn =
  cn_id :: nat
  cn_remoteAddr :: string
  cn_user :: string

definition authorize :: "bconfig \<Rightarrow> ccb_conn \<Rightarrow> command \<Rightarrow> bool" where
  "authorize cfg c cmd =
     (case c_Authorizer cfg of
        None \<Rightarrow> True
      | Some allow \<Rightarrow> list_ex (\<lambda>perm. allow perm (cn_remoteAddr c) (cn_user c)) (commandPerms cfg cmd))"

definition peerIP :: "string \<Rightarrow> ip option" where
  "peerIP remoteAddr =
     parseIP (case splitHostPort remoteAddr of Some (host, _) \<Rightarrow> host | None \<Rightarrow> remoteAddr)"

definition requesterIdentity :: "ccb_conn \<Rightarrow> string" where
  "requesterIdentity c = cn_user c @ '' at '' @ cn_remoteAddr c"

section \<open>Lemmas\<close>

lemma proxyAddrSinful_hd: "hd (proxyAddrSinful cfg) = CHR ''<''"
  by (simp add: proxyAddrSinful_def)

lemma trimmed_not_sinful: "trim s ''<>'' \<noteq> proxyAddrSinful cfg"
proof
  assume eq: "trim s ''<>'' = proxyAddrSinful cfg"
  then have "trim s ''<>'' \<noteq> []" by (simp add: proxyAddrSinful_def)
  then have "hd (trim s ''<>'') \<noteq> CHR ''<''" using trimWith_ends by (auto simp: trim_def)
  then show False using eq proxyAddrSinful_hd by simp
qed

lemma parseCarrierRef_scheme:
  "parseCarrierRef a = Some r \<Longrightarrow> cr_scheme r = ''fs'' \<or> cr_scheme r = ''ws''"
  by (auto simp: parseCarrierRef_def Let_def split: option.splits if_splits)

lemma New_config_inv:
  assumes "New_config cfg0 = Inr (cfg, cc, ob)"
  shows "c_PublicAddress cfg0 \<noteq> []" "c_Security cfg0" "cfg = with_defaults cfg0"
    "detectCarrier cfg = Inr cc" "choose_outbound cfg cc = Inr ob"
    "\<And>u. c_Upstream cfg = Some u \<Longrightarrow> up_BrokerAddr u \<noteq> [] \<and> up_Security u"
  using assms by (auto simp: New_config_def Let_def split: if_splits sum.splits option.splits)

lemma with_defaults_simps [simp]:
  "c_PublicAddress (with_defaults cfg) = c_PublicAddress cfg"
  "c_OutboundNextHop (with_defaults cfg) = c_OutboundNextHop cfg"
  "c_OutboundNextHopSecurity (with_defaults cfg) = c_OutboundNextHopSecurity cfg"
  "c_Upstream (with_defaults cfg) = c_Upstream cfg"
  "c_RequestTimeout (with_defaults cfg) \<noteq> 0" "c_ReconnectTTL (with_defaults cfg) \<noteq> 0"
  by (simp_all add: with_defaults_def)

lemma detectCarrier_unique:
  assumes "detectCarrier cfg = Inr cc" "c_Upstream cfg = Some u" "isCarrier (up_BrokerAddr u)"
  shows "cc = parseCarrierRef (up_BrokerAddr u)"
    and "isCarrier (c_OutboundNextHop cfg) \<Longrightarrow> parseCarrierRef (c_OutboundNextHop cfg) = cc"
  using assms by (auto simp: detectCarrier_def isCarrier_def Let_def split: option.splits if_splits)

section \<open>Properties\<close>

text \<open>
  A broker that forwards outbound connections never has itself as the next hop: \<open>New\<close>
  accepts a next hop that is not a carrier only with security for it and only if, without
  angle brackets, it differs from the public address. The second test of the source, against
  the bracketed address, can never succeed.
\<close>

theorem new_next_hop:
  "New_config cfg0 = Inr (cfg, cc, NextHop hop timeout via) \<Longrightarrow>
   hop = c_OutboundNextHop cfg0 \<and> c_OutboundNextHopSecurity cfg0 \<and> 
   (isCarrier hop \<or> trim hop ''<>'' \<noteq> c_PublicAddress cfg0) \<and> trim hop ''<>'' \<noteq> proxyAddrSinful cfg \<and>
   (via \<longleftrightarrow> isCarrier hop)"
proof -
  assume n: "New_config cfg0 = Inr (cfg, cc, NextHop hop timeout via)"
  note i = New_config_inv [OF n]
  have h: "hop = c_OutboundNextHop cfg0" and s: "c_OutboundNextHopSecurity cfg0"
    and l: "isCarrier hop \<or> trim hop ''<>'' \<noteq> c_PublicAddress cfg0"
    and v: "via = (cc \<noteq> None \<and> isCarrier hop)"
    using i(5) unfolding i(3) by (auto simp: choose_outbound_def split: if_splits)
  have "cc \<noteq> None" if "isCarrier hop"
  proof -
    from that h obtain r where "parseCarrierRef (c_OutboundNextHop cfg0) = Some r"
      by (auto simp: isCarrier_def)
    then show ?thesis using i(4) unfolding i(3)
      by (auto simp: detectCarrier_def Let_def split: option.splits if_splits dest: sym)
  qed
  then show ?thesis using h s l v trimmed_not_sinful by blast
qed

definition example_bconfig :: bconfig where
  "example_bconfig = \<lparr> c_PublicAddress = ''ccb.example:9618'', c_Security = True, c_RequestTimeout = 0,
     c_TargetIdleTimeout = 0, c_Authorizer = None, c_ReconnectStore = True,
     c_ReconnectAllowAnyIP = False, c_ReconnectTTL = 0, c_OutboundProxy = True,
     c_OutboundTargetAllowlist = [], c_OutboundNextHop = ''<exit.example:9618>'',
     c_OutboundNextHopSecurity = True, c_OutboundTTL = 0, c_Upstream = None, c_CarrierListen = [],
     c_CarrierTLS = False, c_CarrierTokenVerify = None, c_CarrierClientTLS = False, c_CarrierToken = [], c_CarrierTokenSource = False \<rparr>"

theorem new_next_hop_witness:
  "\<exists>cfg cc timeout via. New_config example_bconfig = Inr (cfg, cc, NextHop ''<exit.example:9618>'' timeout via) \<and>
     \<not> via \<and> trim ''<exit.example:9618>'' ''<>'' \<noteq> c_PublicAddress example_bconfig"
proof -
  have "New_config example_bconfig =
    Inr (with_defaults example_bconfig, None, NextHop ''<exit.example:9618>'' (60 * 10 ^ 9) False)"
    by (simp add: New_config_def example_bconfig_def with_defaults_def detectCarrier_def
        choose_outbound_def isCarrier_def parseCarrierRef_def cutPrefix_def hasPrefix_def trimSpace_def
        trim_def trimWith_def isSpace_def proxyAddrSinful_def Let_def)
  from new_next_hop [OF this] this show ?thesis
    by (intro exI) (rule conjI, assumption, auto simp: isCarrier_def parseCarrierRef_def cutPrefix_def
        hasPrefix_def trimSpace_def trimWith_def isSpace_def Let_def example_bconfig_def)
qed

text \<open>
  With an authorizer a command is served only if one of the levels it is registered with
  admits the peer: outbound proxying and the tunnel address need DAEMON, registration DAEMON or
  an ADVERTISE level, requests READ; and a command that is not registered is never admitted.
\<close>

theorem authorize_levels:
  "c_Authorizer cfg = Some allow \<Longrightarrow> authorize cfg c cmd \<Longrightarrow>
   \<exists>perm. allow perm (cn_remoteAddr c) (cn_user c) \<and>
     (case cmd of
        CommandRegister \<Rightarrow> perm \<in> {''DAEMON'', ''ADVERTISE_STARTD'', ''ADVERTISE_SCHEDD'', ''ADVERTISE_MASTER''}
      | CommandRequest \<Rightarrow> perm = ''READ''
      | CommandProxyConnect \<Rightarrow> perm = ''DAEMON'' \<and> c_OutboundProxy cfg
      | CommandGetTunnelAddress \<Rightarrow> perm = ''DAEMON'' \<and> c_Upstream cfg \<noteq> None
      | _ \<Rightarrow> False)"
  by (cases cmd) (auto simp: authorize_def commandPerms_def RegisterOn_def split: if_splits)

theorem authorize_levels_witness:
  "\<exists>perm. perm = ''DAEMON'' \<and> authorize (example_bconfig\<lparr> c_Authorizer := Some (\<lambda>p a u. p = ''DAEMON'') \<rparr>)
     \<lparr> cn_id = 0, cn_remoteAddr = ''10.0.0.1:5'', cn_user = ''condor@pool'' \<rparr> CommandProxyConnect"
proof -
  let ?cfg = "example_bconfig\<lparr> c_Authorizer := Some (\<lambda>p a u. p = ''DAEMON'') \<rparr>"
  let ?c = "\<lparr> cn_id = 0, cn_remoteAddr = ''10.0.0.1:5'', cn_user = ''condor@pool'' \<rparr>"
  have "authorize ?cfg ?c CommandProxyConnect"
    by (simp add: authorize_def commandPerms_def RegisterOn_def example_bconfig_def)
  with authorize_levels [of ?cfg "\<lambda>p a u. p = ''DAEMON''" ?c CommandProxyConnect] show ?thesis by simp
qed

end
