(* ===== verification/Ccb_Reconnect.thy ===== *)
theory Ccb_Reconnect
  imports Go_Strings
begin

text \<open>
  Reconnect records and their stores (\<open>reconnect.go\<close>). The interface \<open>ReconnectStore\<close> is a
  locale: its laws say what a later load sees after \<open>Put\<close> and \<open>Delete\<close>. The in-memory store of
  the sources is an interpretation. Times are integers counting nanoseconds; \<open>keep\<close> is what a
  store keeps of a record, which for a persistent store is less than the record.
\<close>

section \<open>Records\<close>

record ReconnectRecord =
  rr_ccbid :: uint64
  rr_cookie :: string
  rr_peerIP :: string
  rr_name :: string
  rr_updatedAt :: int

datatype store_op = Put ReconnectRecord | Delete uint64

section \<open>The interface\<close>

text \<open>What an operation does to a table; \<open>keep\<close> is what a store keeps of a record.\<close>

fun table_op :: "(ReconnectRecord \<Rightarrow> ReconnectRecord) \<Rightarrow> store_op \<Rightarrow> (uint64 \<rightharpoonup> ReconnectRecord) \<Rightarrow> (uint64 \<rightharpoonup> ReconnectRecord)" where
  "table_op keep (Put r) m = m(rr_ccbid r \<mapsto> keep r)"
| "table_op keep (Delete i) m = m(i := None)"

text \<open>Running the operations a server issues against a store.\<close>

primrec run_op :: "(ReconnectRecord \<Rightarrow> 's \<Rightarrow> 's) \<Rightarrow> (uint64 \<Rightarrow> 's \<Rightarrow> 's) \<Rightarrow> store_op \<Rightarrow> 's \<Rightarrow> 's" where
  "run_op put del (Put r) s = put r s"
| "run_op put del (Delete i) s = del i s"

text \<open>Every record stands under its own id.\<close>

definition keyed :: "(uint64 \<rightharpoonup> ReconnectRecord) \<Rightarrow> bool" where
  "keyed tbl \<longleftrightarrow> (\<forall>i r. tbl i = Some r \<longrightarrow> rr_ccbid r = i)"

text \<open>A record that was put and never deleted is found, as one of those that were put.\<close>

lemma table_ops_found:
  "Delete i \<notin> set ops \<Longrightarrow> m i \<noteq> None \<or> (\<exists>r. Put r \<in> set ops \<and> rr_ccbid r = i) \<Longrightarrow>
   \<exists>r. fold (table_op keep) ops m i = Some r \<and>
     (m i = Some r \<or> (\<exists>r'. Put r' \<in> set ops \<and> rr_ccbid r' = i \<and> r = keep r'))"
proof (induction ops rule: rev_induct)
  case (snoc op ops)
  show ?case
  proof (cases "\<exists>r. op = Put r \<and> rr_ccbid r = i")
    case True
    then show ?thesis by auto
  next
    case False
    then have "fold (table_op keep) (ops @ [op]) m i = fold (table_op keep) ops m i" using snoc.prems(1) by (cases op) auto
    then show ?thesis using snoc False by auto
  qed
qed auto

lemma table_ops_origin:
  "fold (table_op keep) ops m i = Some r \<Longrightarrow>
   m i = Some r \<or> (\<exists>r'. Put r' \<in> set ops \<and> rr_ccbid r' = i \<and> r = keep r')"
proof (induction ops arbitrary: m)
  case (Cons op ops)
  then have "table_op keep op m i = Some r \<or> (\<exists>r'. Put r' \<in> set ops \<and> rr_ccbid r' = i \<and> r = keep r')" by simp
  then show ?case by (cases op) (auto split: if_splits)
qed simp

locale reconnect_store =
  fixes put :: "ReconnectRecord \<Rightarrow> 's \<Rightarrow> 's"
    and del :: "uint64 \<Rightarrow> 's \<Rightarrow> 's"
    and view :: "'s \<Rightarrow> uint64 \<rightharpoonup> ReconnectRecord"
    and keep :: "ReconnectRecord \<Rightarrow> ReconnectRecord"
  assumes view_put: "view (put r s) = table_op keep (Put r) (view s)"
    and view_del: "view (del i s) = table_op keep (Delete i) (view s)"
    and keep_id: "rr_ccbid (keep r) = rr_ccbid r"
begin

lemma view_run_op: "view (run_op put del op s) = table_op keep op (view s)"
  by (cases op) (simp_all only: run_op.simps view_put view_del)

lemma view_run_ops: "view (fold (run_op put del) ops s) = fold (table_op keep) ops (view s)"
  by (induction ops arbitrary: s) (simp_all add: view_run_op del: table_op.simps)

lemma keyed_ops: "keyed m \<Longrightarrow> keyed (fold (table_op keep) ops m)"
proof (induction ops arbitrary: m)
  case (Cons op ops)
  have "keyed (table_op keep op m)" using Cons.prems by (cases op) (auto simp: keyed_def keep_id)
  then show ?case using Cons.IH by simp
qed simp

end

section \<open>The in-memory store\<close>

record memoryStore =
  recs :: "uint64 \<rightharpoonup> ReconnectRecord"

definition newMemoryStore :: memoryStore where
  "newMemoryStore = \<lparr> recs = Map.empty \<rparr>"

definition memoryStore_Put :: "ReconnectRecord \<Rightarrow> memoryStore \<Rightarrow> memoryStore" where
  "memoryStore_Put r m = m\<lparr> recs := (recs m)(rr_ccbid r \<mapsto> r) \<rparr>"

definition memoryStore_Delete :: "uint64 \<Rightarrow> memoryStore \<Rightarrow> memoryStore" where
  "memoryStore_Delete i m = m\<lparr> recs := (recs m)(i := None) \<rparr>"

text \<open>\<open>Load\<close> returns the records once each, in the unspecified order of a Go map.\<close>

definition memoryStore_Load :: "memoryStore \<Rightarrow> ReconnectRecord list \<Rightarrow> bool" where
  "memoryStore_Load m out \<longleftrightarrow> distinct out \<and> set out = ran (recs m)"

interpretation mem: reconnect_store memoryStore_Put memoryStore_Delete recs id
  by unfold_locales (simp_all add: memoryStore_Put_def memoryStore_Delete_def)

end
