(* ===== verification/Ccb_Server.thy ===== *)
theory Ccb_Server
  imports Ccb_Config Ccb_Reconnect
begin

text \<open>
  The broker's command handlers (\<open>server.go\<close>, \<open>request.go\<close>, \<open>proxy.go\<close>). A handler runs in its
  own goroutine; it is modelled as the sequence of its segments, cut where it blocks, where it calls
  the store, and between two critical sections of the server's lock. A segment is a function of
  the server's tables and of what the outside decides (the ad that was read, whether a write
  succeeded, the random cookie, the time), and returns the new tables, the messages and store
  operations it issues, and where the handler goes on.

  ClassAds, contact strings and sinfuls belong to the cedar package: reading them is done by
  the functions of the record \<open>cedar\<close>, a parameter of the handlers. Outgoing ads are the field
  lists the sources build.
\<close>

section \<open>Messages\<close>

datatype attr =
    AttrCommand | AttrName | AttrClaimID | AttrCCBID | AttrMyAddress | AttrRequestID | AttrResult
  | AttrErrorString | AttrProxyMode | AttrCCBStreaming | AttrCCBStreamingRequired | AttrCCBRoute
  | AttrCCBOriginalRequester | AttrCCBPriorHop | AttrCCBTTL | AttrCCBAddress

datatype val = VStr string | VBool bool | VInt int

type_synonym ad_fields = "(attr \<times> val) list"

text \<open>What the broker uses of the cedar package. \<open>AdBool\<close> and \<open>AdInt\<close> return a value and whether it was there.\<close>

record 'ad cedar =
  AdString :: "'ad \<Rightarrow> attr \<Rightarrow> string"
  AdBool :: "'ad \<Rightarrow> attr \<Rightarrow> bool \<times> bool"
  AdInt :: "'ad \<Rightarrow> attr \<Rightarrow> int \<times> bool"
  commandNum :: "command \<Rightarrow> int"
  SplitCCBContact :: "string \<Rightarrow> string \<times> string \<times> bool"
  ContactString :: "string \<Rightarrow> uint64 \<Rightarrow> string"
  sinfulIsCCB :: "string \<Rightarrow> bool"
  ParseSinful :: "string \<Rightarrow> (string \<times> string) option"

type_synonym connId = nat

datatype effect =
    SendAd connId ad_fields
  | SendReverseConnect connId string string string
  | StoreOp store_op
  | CloseConn connId

section \<open>Tables\<close>

record target =
  t_id :: uint64
  t_name :: string
  t_cookie :: string
  t_conn :: connId

record replyResult =
  rp_success :: bool
  rp_errMsg :: string

text \<open>A pending request; \<open>rq_replyCh\<close> is its channel, which buffers one reply.\<close>

record request =
  rq_id :: uint64
  rq_connectID :: string
  rq_replyCh :: "replyResult option"

text \<open>A proxy session; \<open>ps_targetCh\<close> is its channel, which buffers one connection.\<close>

record proxySession =
  ps_connectID :: string
  ps_requestID :: string
  ps_requesterConn :: connId
  ps_targetCh :: "connId option"
  ps_done :: bool

record routeContext =
  rt_route :: string
  rt_originalRequester :: string
  rt_priorHop :: string

text \<open>
  The server's state. Sessions are shared by reference between the table and the handlers, so
  they live in a heap of their own, keyed by the number of their request; \<open>sv_proxies\<close> maps a
  connect id to such a key.
\<close>

record server =
  sv_nextID :: uint64
  sv_nextReq :: uint64
  sv_targets :: "uint64 \<rightharpoonup> target"
  sv_reconnects :: "uint64 \<rightharpoonup> ReconnectRecord"
  sv_requests :: "uint64 \<rightharpoonup> request"
  sv_proxies :: "string \<rightharpoonup> uint64"
  sv_sessions :: "uint64 \<rightharpoonup> proxySession"
  sv_tunnelContact :: string

definition empty_server :: server where
  "empty_server = \<lparr> sv_nextID = 0, sv_nextReq = 0, sv_targets = Map.empty, sv_reconnects = Map.empty,
     sv_requests = Map.empty, sv_proxies = Map.empty, sv_sessions = Map.empty, sv_tunnelContact = [] \<rparr>"

text \<open>
  Where a handler goes on: it is blocked at a program point, about to call the store or to take
  the lock again, or it has returned. \<open>StdEnd\<close> and \<open>PxEnd\<close> are before the deferred removal of the
  table entry.
\<close>

datatype handler_result = HNil | HErr string | HKeepOpen

datatype pc =
    RegStore target ReconnectRecord
  | RegReply target ad_fields
  | Serving target
  | RemStore ReconnectRecord handler_result
  | ReqStd target string string string
  | ReqProxy bool target string string routeContext
  | StdForward uint64 target ad_fields
  | StdWait uint64 target
  | StdEnd uint64 handler_result
  | PxForward uint64 bool target ad_fields
  | PxWait uint64 bool target
  | Splicing uint64 connId
  | PxEnd uint64 handler_result
  | RcFound uint64
  | RcWait uint64
  | Done handler_result

type_synonym segment = "server \<times> effect list \<times> pc"

section \<open>Identifiers and contacts\<close>

definition parseTargetID :: "string \<Rightarrow> uint64 option" where
  "parseTargetID s = parseUint (trimSpace s)"

definition parseContactID :: "'ad cedar \<Rightarrow> string \<Rightarrow> uint64 option" where
  "parseContactID cd contact =
     (case SplitCCBContact cd contact of
        (_, idStr, ok) \<Rightarrow> if ok then parseUint idStr else None)"

definition contactString :: "'ad cedar \<Rightarrow> bconfig \<Rightarrow> server \<Rightarrow> uint64 \<Rightarrow> string" where
  "contactString cd cfg sv i =
     (if sv_tunnelContact sv \<noteq> [] then sv_tunnelContact sv @ ''#'' @ formatUint (unat i)
      else ContactString cd (c_PublicAddress cfg) i)"

section \<open>Start\<close>

definition loadReconnects :: "bconfig \<Rightarrow> ReconnectRecord list option \<Rightarrow> server \<Rightarrow> server option" where
  "loadReconnects cfg loaded sv =
     (if \<not> c_ReconnectStore cfg then Some sv
      else case loaded of
        None \<Rightarrow> None
      | Some rs \<Rightarrow>
          let maxID = foldl (\<lambda>m r. if rr_ccbid r > m then rr_ccbid r else m) 0 rs;
              tbl = foldl (\<lambda>m r. m(rr_ccbid r \<mapsto> r)) (sv_reconnects sv) rs
          in Some (sv\<lparr> sv_reconnects := tbl,
                      sv_nextID := (if maxID > 0 then maxID + 100 else sv_nextID sv) \<rparr>))"

text \<open>\<open>New\<close>: the second argument is what the store's \<open>Load\<close> returned.\<close>

definition New :: "bconfig \<Rightarrow> ReconnectRecord list option \<Rightarrow>
    new_error + (bconfig \<times> carrierRef option \<times> outbound \<times> server)" where
  "New cfg0 loaded =
     (case New_config cfg0 of
        Inl e \<Rightarrow> Inl e
      | Inr (cfg, cc, ob) \<Rightarrow>
          (case loadReconnects cfg loaded empty_server of
             None \<Rightarrow> Inl ErrLoadReconnects
           | Some sv \<Rightarrow> Inr (cfg, cc, ob, sv)))"

section \<open>Registration\<close>

definition storeOps :: "bconfig \<Rightarrow> store_op list \<Rightarrow> effect list" where
  "storeOps cfg ops = (if c_ReconnectStore cfg then map StoreOp ops else [])"

text \<open>The record that entitles a registering target to its former id, if there is one.\<close>

definition reconnect_id :: "'ad cedar \<Rightarrow> bconfig \<Rightarrow> server \<Rightarrow> string \<Rightarrow> string \<Rightarrow> string \<Rightarrow> uint64 option" where
  "reconnect_id cd cfg sv prevContact reqCookie peerIPStr =
     (if prevContact \<noteq> [] \<and> reqCookie \<noteq> [] then
        (case parseContactID cd prevContact of
           None \<Rightarrow> None
         | Some prevID \<Rightarrow>
             (case sv_reconnects sv prevID of
                None \<Rightarrow> None
              | Some rec \<Rightarrow>
                  if rr_cookie rec = reqCookie \<and>
                     (c_ReconnectAllowAnyIP cfg \<or> rr_peerIP rec = peerIPStr)
                  then Some prevID else None))
      else None)"

definition peerIPString :: "ccb_conn \<Rightarrow> string" where
  "peerIPString c = (case peerIP (cn_remoteAddr c) of Some a \<Rightarrow> ip_String a | None \<Rightarrow> [])"

text \<open>
  \<open>handleRegister\<close> up to the release of the lock. \<open>ad\<close> is the ad read (\<open>None\<close> if reading failed),
  \<open>cookie\<close> the result of \<open>GenerateConnectID\<close>, which is only called for a new id.
\<close>

definition handleRegister ::
  "'ad cedar \<Rightarrow> bconfig \<Rightarrow> ccb_conn \<Rightarrow> 'ad option \<Rightarrow> string option \<Rightarrow> int \<Rightarrow> server \<Rightarrow> segment" where
  "handleRegister cd cfg c ad cookie now sv =
     (if \<not> authorize cfg c CommandRegister then (sv, [], Done (HErr ''authorization denied''))
      else case ad of
        None \<Rightarrow> (sv, [], Done (HErr ''register: reading ad''))
      | Some a \<Rightarrow>
          let name = AdString cd a AttrName;
              ipStr = peerIPString c;
              reused = reconnect_id cd cfg sv (AdString cd a AttrCCBID) (AdString cd a AttrClaimID) ipStr
          in case (reused, cookie) of
               (None, None) \<Rightarrow> (sv, [], Done (HErr ''GenerateConnectID''))
             | _ \<Rightarrow>
               let nid = (case reused of Some i \<Rightarrow> i | None \<Rightarrow> sv_nextID sv + 1);
                   ck = (case reused of Some i \<Rightarrow> AdString cd a AttrClaimID | None \<Rightarrow> the cookie);
                   t = \<lparr> t_id = nid, t_name = name, t_cookie = ck, t_conn = cn_id c \<rparr>;
                   rec = \<lparr> rr_ccbid = nid, rr_cookie = ck, rr_peerIP = ipStr, rr_name = name,
                           rr_updatedAt = now \<rparr>;
                   sv' = sv\<lparr> sv_nextID := (if reused = None then sv_nextID sv + 1 else sv_nextID sv),
                            sv_targets := (sv_targets sv)(nid \<mapsto> t),
                            sv_reconnects := (sv_reconnects sv)(nid \<mapsto> rec) \<rparr>
               in (sv', [], RegStore t rec))"

text \<open>
  The call of the store and the reply. The call reads the record through a pointer, after the
  lock was released; \<open>stamp\<close> is the time it finds there, which \<open>removeTarget\<close> for the same id may
  have changed in between.
\<close>

definition register_stored :: "'ad cedar \<Rightarrow> bconfig \<Rightarrow> int \<Rightarrow> target \<Rightarrow> ReconnectRecord \<Rightarrow> server \<Rightarrow> segment" where
  "register_stored cd cfg stamp t rec sv =
     (sv, storeOps cfg [Put (rec\<lparr> rr_updatedAt := stamp \<rparr>)],
      RegReply t [(AttrCommand, VInt (commandNum cd CommandRegister)),
                  (AttrCCBID, VStr (contactString cd cfg sv (t_id t))),
                  (AttrClaimID, VStr (t_cookie t)), (AttrCCBStreaming, VBool True)])"

text \<open>
  \<open>removeTarget\<close> deletes by id and stamps the record, whichever connection holds the id; the copy of
  the record goes to the store once the lock is released.
\<close>

definition removeTarget :: "uint64 \<Rightarrow> int \<Rightarrow> server \<Rightarrow> server \<times> ReconnectRecord option" where
  "removeTarget i now sv =
     (let sv1 = sv\<lparr> sv_targets := (sv_targets sv)(i := None) \<rparr>
      in case sv_reconnects sv1 i of
           None \<Rightarrow> (sv1, None)
         | Some r \<Rightarrow>
             let r' = r\<lparr> rr_updatedAt := now \<rparr>
             in (sv1\<lparr> sv_reconnects := (sv_reconnects sv1)(i \<mapsto> r') \<rparr>, Some r'))"

definition target_removed :: "bconfig \<Rightarrow> uint64 \<Rightarrow> int \<Rightarrow> handler_result \<Rightarrow> server \<Rightarrow> segment" where
  "target_removed cfg i now res sv =
     (case removeTarget i now sv of
        (sv', None) \<Rightarrow> (sv', [], Done res)
      | (sv', Some r) \<Rightarrow> (sv', [], if c_ReconnectStore cfg then RemStore r res else Done res))"

definition remove_stored :: "bconfig \<Rightarrow> ReconnectRecord \<Rightarrow> handler_result \<Rightarrow> server \<Rightarrow> segment" where
  "remove_stored cfg r res sv = (sv, storeOps cfg [Put r], Done res)"

text \<open>The write of the registration reply and what follows it.\<close>

definition register_replied :: "bconfig \<Rightarrow> bool \<Rightarrow> int \<Rightarrow> target \<Rightarrow> ad_fields \<Rightarrow> server \<Rightarrow> segment" where
  "register_replied cfg ok now t reply sv =
     (if ok then (sv, [SendAd (t_conn t) reply], Serving t)
      else target_removed cfg (t_id t) now (HErr ''register: reply'') sv)"

definition deliverResult :: "'ad cedar \<Rightarrow> 'ad \<Rightarrow> server \<Rightarrow> server" where
  "deliverResult cd a sv =
     (case parseUint (AdString cd a AttrRequestID) of
        None \<Rightarrow> sv
      | Some reqID \<Rightarrow>
          (case sv_requests sv reqID of
             None \<Rightarrow> sv
           | Some req \<Rightarrow>
               (case rq_replyCh req of
                  Some _ \<Rightarrow> sv
                | None \<Rightarrow>
                    let res = \<lparr> rp_success = fst (AdBool cd a AttrResult),
                                rp_errMsg = AdString cd a AttrErrorString \<rparr>
                    in sv\<lparr> sv_requests := (sv_requests sv)(reqID \<mapsto> req\<lparr> rq_replyCh := Some res \<rparr>) \<rparr>)))"

text \<open>
  One round of \<open>serveTarget\<close>: a heartbeat is echoed, any other ad is a result report, and a
  failed read (an idle target's deadline included) ends the registration.
\<close>

definition serveTarget :: "'ad cedar \<Rightarrow> bconfig \<Rightarrow> 'ad option \<Rightarrow> int \<Rightarrow> target \<Rightarrow> server \<Rightarrow> segment" where
  "serveTarget cd cfg ad now t sv =
     (case ad of
        None \<Rightarrow> target_removed cfg (t_id t) now HNil sv
      | Some a \<Rightarrow>
          (case AdInt cd a AttrCommand of
             (cmd, ok) \<Rightarrow>
               if ok \<and> cmd = commandNum cd CommandAlive
               then (sv, [SendAd (t_conn t) [(AttrCommand, VInt (commandNum cd CommandAlive))]], Serving t)
               else (deliverResult cd a sv, [], Serving t)))"

text \<open>The ids \<open>SweepReconnects\<close> finds stale; \<open>ids\<close> enumerates the table in the order of the Go map.\<close>

definition stale_ids :: "bconfig \<Rightarrow> int \<Rightarrow> uint64 list \<Rightarrow> server \<Rightarrow> uint64 list" where
  "stale_ids cfg now ids sv =
     filter (\<lambda>i. sv_targets sv i = None \<and>
        (case sv_reconnects sv i of None \<Rightarrow> False
         | Some rec \<Rightarrow> rr_updatedAt rec < now - c_ReconnectTTL cfg)) ids"

text \<open>\<open>SweepReconnects\<close> up to the release of the lock, with the ids it then deletes from the store, one by one.\<close>

definition SweepReconnects :: "bconfig \<Rightarrow> int \<Rightarrow> uint64 list \<Rightarrow> server \<Rightarrow> server \<times> uint64 list" where
  "SweepReconnects cfg now ids sv =
     (let stale = stale_ids cfg now ids sv
      in (sv\<lparr> sv_reconnects := foldl (\<lambda>m i. m(i := None)) (sv_reconnects sv) stale \<rparr>, stale))"

definition sweepInterval :: "bconfig \<Rightarrow> int" where
  "sweepInterval cfg = (let i = c_ReconnectTTL cfg div 24 in if i < 60 * 10 ^ 9 then 60 * 10 ^ 9 else i)"

section \<open>Requests\<close>

definition replySuccess :: "bool \<Rightarrow> ad_fields" where
  "replySuccess proxyMode =
     (AttrResult, VBool True) # (if proxyMode then [(AttrProxyMode, VBool True)] else [])"

definition replyFailure :: "string \<Rightarrow> ad_fields" where
  "replyFailure msg = [(AttrResult, VBool False), (AttrErrorString, VStr msg)]"

definition fail_request :: "ccb_conn \<Rightarrow> string \<Rightarrow> server \<Rightarrow> segment" where
  "fail_request c msg sv = (sv, [SendAd (cn_id c) (replyFailure msg)], Done (HErr (''request failed: '' @ msg)))"

text \<open>\<open>handleStandardRequest\<close> up to the forwarding write.\<close>

definition handleStandardRequest ::
  "'ad cedar \<Rightarrow> target \<Rightarrow> string \<Rightarrow> string \<Rightarrow> string \<Rightarrow> server \<Rightarrow> segment" where
  "handleStandardRequest cd t connectID returnAddr name sv =
     (let reqID = sv_nextReq sv + 1;
          req = \<lparr> rq_id = reqID, rq_connectID = connectID, rq_replyCh = None \<rparr>;
          fwd = [(AttrCommand, VInt (commandNum cd CommandRequest)), (AttrMyAddress, VStr returnAddr),
                 (AttrClaimID, VStr connectID), (AttrRequestID, VStr (formatUint (unat reqID))),
                 (AttrName, VStr name)]
      in (sv\<lparr> sv_nextReq := reqID, sv_requests := (sv_requests sv)(reqID \<mapsto> req) \<rparr>,
          [], StdForward reqID t fwd))"

text \<open>\<open>proxyRelay\<close> up to the write of the forwarded request; \<open>reply\<close> tells whether there is a reply stream.\<close>

definition proxyFail :: "bool \<Rightarrow> connId \<Rightarrow> string \<Rightarrow> server \<Rightarrow> segment" where
  "proxyFail reply requesterConn msg sv =
     (sv, [if reply then SendAd requesterConn (replyFailure msg) else CloseConn requesterConn],
      Done (HErr (''proxy request failed: '' @ msg)))"

definition forward_ad :: "'ad cedar \<Rightarrow> bconfig \<Rightarrow> string \<Rightarrow> string \<Rightarrow> string \<Rightarrow> routeContext \<Rightarrow> ad_fields" where
  "forward_ad cd cfg connectID reqID name rc =
     [(AttrCommand, VInt (commandNum cd CommandRequest)), (AttrMyAddress, VStr (proxyAddrSinful cfg)),
      (AttrClaimID, VStr connectID), (AttrRequestID, VStr reqID), (AttrName, VStr name)]
     @ (if rt_route rc \<noteq> [] then [(AttrCCBRoute, VStr (rt_route rc))] else [])
     @ (if rt_originalRequester rc \<noteq> []
        then [(AttrCCBOriginalRequester, VStr (rt_originalRequester rc))] else [])
     @ (if rt_priorHop rc \<noteq> [] then [(AttrCCBPriorHop, VStr (rt_priorHop rc))] else [])"

definition proxyRelay ::
  "'ad cedar \<Rightarrow> bconfig \<Rightarrow> connId \<Rightarrow> bool \<Rightarrow> target \<Rightarrow> string \<Rightarrow> string \<Rightarrow> routeContext \<Rightarrow> server \<Rightarrow> segment" where
  "proxyRelay cd cfg requesterConn reply t connectID name rc sv =
     (let n = sv_nextReq sv + 1; reqID = formatUint (unat n);
          sess = \<lparr> ps_connectID = connectID, ps_requestID = reqID, ps_requesterConn = requesterConn,
                   ps_targetCh = None, ps_done = False \<rparr>;
          sv1 = sv\<lparr> sv_nextReq := n \<rparr>
      in if sv_proxies sv connectID \<noteq> None
         then proxyFail reply requesterConn ''duplicate connect id'' sv1
         else (sv1\<lparr> sv_proxies := (sv_proxies sv)(connectID \<mapsto> n),
                    sv_sessions := (sv_sessions sv)(n \<mapsto> sess) \<rparr>,
               [], PxForward n reply t (forward_ad cd cfg connectID reqID name rc)))"

text \<open>\<open>handleRequest\<close> up to the look-up of the target; the request is entered in a later critical section.\<close>

definition handleRequest :: "'ad cedar \<Rightarrow> bconfig \<Rightarrow> ccb_conn \<Rightarrow> 'ad option \<Rightarrow> server \<Rightarrow> segment" where
  "handleRequest cd cfg c ad sv =
     (case ad of
        None \<Rightarrow> (sv, [], Done (HErr ''request: reading ad''))
      | Some a \<Rightarrow>
        if \<not> authorize cfg c CommandRequest then fail_request c ''authorization denied'' sv
        else
          let targetContact = AdString cd a AttrCCBID; connectID = AdString cd a AttrClaimID;
              returnAddr = AdString cd a AttrMyAddress; name = AdString cd a AttrName;
              streamingRequired = fst (AdBool cd a AttrCCBStreamingRequired);
              route = AdString cd a AttrCCBRoute
          in if connectID = [] \<or> returnAddr = []
             then fail_request c ''request missing ClaimId or MyAddress'' sv
             else case parseTargetID targetContact of
               None \<Rightarrow> fail_request c (''bad target CCBID '' @ quote targetContact) sv
             | Some targetID \<Rightarrow>
                 (case sv_targets sv targetID of
                    None \<Rightarrow> fail_request c (''no target registered for ccbid '' @ formatUint (unat targetID)) sv
                  | Some t \<Rightarrow>
                      (sv, [],
                       if streamingRequired \<or> sinfulIsCCB cd returnAddr \<or> route \<noteq> []
                       then ReqProxy True t connectID name
                              \<lparr> rt_route = route, rt_originalRequester = requesterIdentity c,
                                rt_priorHop = proxyAddrSinful cfg \<rparr>
                       else ReqStd t connectID returnAddr name)))"

text \<open>
  The forwarding write of a standard request, the select that waits for its result (which takes
  the result from the channel), the answer, and the deferred removal.
\<close>

definition drop_request :: "uint64 \<Rightarrow> server \<Rightarrow> server" where
  "drop_request reqID sv = sv\<lparr> sv_requests := (sv_requests sv)(reqID := None) \<rparr>"

definition standard_fail :: "ccb_conn \<Rightarrow> string \<Rightarrow> uint64 \<Rightarrow> server \<Rightarrow> segment" where
  "standard_fail c msg reqID sv =
     (sv, [SendAd (cn_id c) (replyFailure msg)], StdEnd reqID (HErr (''request failed: '' @ msg)))"

definition standard_forwarded :: "ccb_conn \<Rightarrow> bool \<Rightarrow> uint64 \<Rightarrow> target \<Rightarrow> ad_fields \<Rightarrow> server \<Rightarrow> segment" where
  "standard_forwarded c ok reqID t fwd sv =
     (if ok then (sv, [SendAd (t_conn t) fwd], StdWait reqID t)
      else standard_fail c ''failed to forward request to target'' reqID sv)"

datatype wait_event = WReady | WTimeout | WCancelled

definition standard_wait :: "ccb_conn \<Rightarrow> wait_event \<Rightarrow> bool \<Rightarrow> uint64 \<Rightarrow> target \<Rightarrow> server \<Rightarrow> segment" where
  "standard_wait c w ok reqID t sv =
     (case w of
        WReady \<Rightarrow>
          (case sv_requests sv reqID of
             None \<Rightarrow> (sv, [], StdWait reqID t)
           | Some req \<Rightarrow>
               (case rq_replyCh req of
                  None \<Rightarrow> (sv, [], StdWait reqID t)
                | Some res \<Rightarrow>
                    let sv' = sv\<lparr> sv_requests := (sv_requests sv)(reqID \<mapsto> req\<lparr> rq_replyCh := None \<rparr>) \<rparr>
                    in if rp_success res
                       then (if ok then (sv', [SendAd (cn_id c) (replySuccess False)], StdEnd reqID HNil)
                             else (sv', [], StdEnd reqID (HErr ''write'')))
                       else standard_fail c (rp_errMsg res) reqID sv'))
      | WTimeout \<Rightarrow> standard_fail c ''timed out waiting for target to connect'' reqID sv
      | WCancelled \<Rightarrow> (sv, [], StdEnd reqID (HErr ''context'')))"

definition standard_end :: "uint64 \<Rightarrow> handler_result \<Rightarrow> server \<Rightarrow> segment" where
  "standard_end reqID res sv = (drop_request reqID sv, [], Done res)"

section \<open>Proxying\<close>

definition drop_session :: "uint64 \<Rightarrow> server \<Rightarrow> server" where
  "drop_session n sv =
     (case sv_sessions sv n of
        None \<Rightarrow> sv
      | Some s \<Rightarrow> sv\<lparr> sv_proxies := (sv_proxies sv)(ps_connectID s := None) \<rparr>)"

definition finish_session :: "uint64 \<Rightarrow> server \<Rightarrow> server" where
  "finish_session n sv =
     (case sv_sessions sv n of
        None \<Rightarrow> sv
      | Some s \<Rightarrow> sv\<lparr> sv_sessions := (sv_sessions sv)(n \<mapsto> s\<lparr> ps_done := True \<rparr>) \<rparr>)"

text \<open>Failing once the session is in the table, whose removal is deferred.\<close>

definition session_fail :: "bool \<Rightarrow> connId \<Rightarrow> string \<Rightarrow> uint64 \<Rightarrow> server \<Rightarrow> segment" where
  "session_fail reply requesterConn msg n sv =
     (sv, [if reply then SendAd requesterConn (replyFailure msg) else CloseConn requesterConn],
      PxEnd n (HErr (''proxy request failed: '' @ msg)))"

definition proxy_forwarded :: "connId \<Rightarrow> bool \<Rightarrow> uint64 \<Rightarrow> bool \<Rightarrow> target \<Rightarrow> ad_fields \<Rightarrow> server \<Rightarrow> segment" where
  "proxy_forwarded requesterConn ok n reply t fwd sv =
     (if ok then (sv, [SendAd (t_conn t) fwd], PxWait n reply t)
      else session_fail reply requesterConn ''failed to forward proxy request to target'' n sv)"

text \<open>
  The select of \<open>proxyRelay\<close>: when the target's connection has arrived it is taken from the
  channel, the requester is answered (the flags tell whether the two writes succeed) and the
  connections are spliced.
\<close>

definition proxy_wait ::
  "bconfig \<Rightarrow> connId \<Rightarrow> wait_event \<Rightarrow> bool \<Rightarrow> bool \<Rightarrow> uint64 \<Rightarrow> bool \<Rightarrow> target \<Rightarrow> server \<Rightarrow> segment" where
  "proxy_wait cfg requesterConn w ok1 ok2 n reply t sv =
     (case w of
        WTimeout \<Rightarrow>
          session_fail reply requesterConn ''timed out waiting for target to reverse-connect for proxy'' n sv
      | WCancelled \<Rightarrow> (sv, [], PxEnd n (HErr ''context''))
      | WReady \<Rightarrow>
          (case sv_sessions sv n of
             None \<Rightarrow> (sv, [], PxWait n reply t)
           | Some s \<Rightarrow>
               (case ps_targetCh s of
                  None \<Rightarrow> (sv, [], PxWait n reply t)
                | Some tc \<Rightarrow>
                    let sv1 = sv\<lparr> sv_sessions := (sv_sessions sv)(n \<mapsto> s\<lparr> ps_targetCh := None \<rparr>) \<rparr>;
                        m1 = SendAd requesterConn (replySuccess True);
                        m2 = SendReverseConnect requesterConn (ps_connectID s) (ps_requestID s) (proxyAddrSinful cfg)
                    in if reply \<and> \<not> ok1
                       then (finish_session n sv1, [CloseConn tc], PxEnd n (HErr ''write''))
                       else if reply \<and> \<not> ok2
                       then (finish_session n sv1, [m1, CloseConn tc], PxEnd n (HErr ''write''))
                       else (sv1, if reply then [m1, m2] else [], Splicing n tc))))"

text \<open>The end of the splice closes both connections; the deferred removal follows every end.\<close>

definition splice_done :: "connId \<Rightarrow> uint64 \<Rightarrow> connId \<Rightarrow> server \<Rightarrow> segment" where
  "splice_done requesterConn n tc sv =
     (finish_session n sv, [CloseConn requesterConn, CloseConn tc], PxEnd n HKeepOpen)"

definition proxy_end :: "uint64 \<Rightarrow> handler_result \<Rightarrow> server \<Rightarrow> segment" where
  "proxy_end n res sv = (drop_session n sv, [], Done res)"

definition splitRoute :: "string \<Rightarrow> string \<times> string" where
  "splitRoute route =
     (case Go_Strings.fields route of [] \<Rightarrow> ([], []) | f # fs \<Rightarrow> (f, join fs '' ''))"

text \<open>What the upstream broker sends along with a forwarded connection.\<close>

record inboundMeta =
  im_Route :: string
  im_OriginalRequester :: string
  im_PriorHop :: string

definition startInboundRelay ::
  "bconfig \<Rightarrow> connId \<Rightarrow> inboundMeta \<Rightarrow> string option \<Rightarrow> server \<Rightarrow> segment" where
  "startInboundRelay cfg upstream meta genID sv =
     (let (head, tail) = splitRoute (im_Route meta)
      in case parseTargetID head of
           None \<Rightarrow> (sv, [CloseConn upstream], Done HNil)
         | Some targetID \<Rightarrow>
             if head = [] then (sv, [CloseConn upstream], Done HNil)
             else (case (sv_targets sv targetID, genID) of
                     (None, _) \<Rightarrow> (sv, [CloseConn upstream], Done HNil)
                   | (_, None) \<Rightarrow> (sv, [CloseConn upstream], Done HNil)
                   | (Some t, Some connectID) \<Rightarrow>
                       (sv, [], ReqProxy False t connectID ''inbound-relay''
                         \<lparr> rt_route = tail, rt_originalRequester = im_OriginalRequester meta,
                           rt_priorHop = proxyAddrSinful cfg \<rparr>)))"

text \<open>
  \<open>handleReverseConnect\<close>: find the session, hand the connection to its handler through the channel,
  which buffers one, then wait for the splice. Session objects stay in \<open>sv_sessions\<close> once made, so
  the first branch of \<open>reverse_hand\<close> is never taken.
\<close>

definition handleReverseConnect :: "'ad cedar \<Rightarrow> 'ad option \<Rightarrow> server \<Rightarrow> segment" where
  "handleReverseConnect cd ad sv =
     (case ad of
        None \<Rightarrow> (sv, [], Done (HErr ''reverse-connect''))
      | Some a \<Rightarrow>
          (case sv_proxies sv (AdString cd a AttrClaimID) of
             None \<Rightarrow> (sv, [], Done (HErr ''reverse-connect: no pending proxy session for connect id''))
           | Some n \<Rightarrow> (sv, [], RcFound n)))"

definition reverse_hand :: "connId \<Rightarrow> uint64 \<Rightarrow> server \<Rightarrow> segment" where
  "reverse_hand conn n sv =
     (case sv_sessions sv n of
        None \<Rightarrow> (sv, [], Done (HErr ''reverse-connect: no pending proxy session for connect id''))
      | Some s \<Rightarrow>
          (case ps_targetCh s of
             Some _ \<Rightarrow> (sv, [], Done (HErr ''reverse-connect: proxy session already satisfied''))
           | None \<Rightarrow>
               (sv\<lparr> sv_sessions := (sv_sessions sv)(n \<mapsto> s\<lparr> ps_targetCh := Some conn \<rparr>) \<rparr>, [], RcWait n)))"

definition reverse_wait :: "bool \<Rightarrow> uint64 \<Rightarrow> server \<Rightarrow> segment" where
  "reverse_wait cancelled n sv =
     (if cancelled \<or> (case sv_sessions sv n of None \<Rightarrow> False | Some s \<Rightarrow> ps_done s)
      then (sv, [], Done HKeepOpen) else (sv, [], RcWait n))"

end
