(* ===== verification/Ccb_Broker.thy ===== *)
theory Ccb_Broker
  imports Ccb_Server
begin

text \<open>
  The broker as a transition system: the server's tables together with the handlers in
  progress, one per connection, the store calls the sweep has still to make, and the history of
  what was sent and stored, in the order in which it happened. An event starts a handler, lets one
  run its next segment, or runs a background task; every interleaving of the handlers' segments is
  a run.

  Two invariants are proved for all runs: the registry (targets and reconnect records agree, and
  ids are never handed out twice) and the ownership of pending requests and sessions (every table
  entry belongs to exactly one running handler), the latter by refinement of an abstract
  ownership machine.
\<close>

section \<open>The machine\<close>

record broker =
  b_sv :: server
  b_run :: "connId \<rightharpoonup> ccb_conn \<times> pc"
  b_sweep :: "uint64 list"
  b_trace :: "effect list"

datatype 'ad event =
    EvRegister ccb_conn "'ad option" "string option" int
  | EvRequest ccb_conn "'ad option"
  | EvReverseConnect ccb_conn "'ad option"
  | EvInboundRelay ccb_conn inboundMeta "string option"
  | EvStored connId int
  | EvGo connId
  | EvWritten connId bool int
  | EvServe connId "'ad option" int
  | EvWait connId wait_event bool bool
  | EvSpliceEnd connId
  | EvReverseWait connId bool
  | EvSweep int "uint64 list"
  | EvSweepStore
  | EvTunnelReady string

definition idle :: "broker \<Rightarrow> connId \<Rightarrow> bool" where
  "idle b i \<longleftrightarrow> (case b_run b i of None \<Rightarrow> True | Some (_, Done _) \<Rightarrow> True | _ \<Rightarrow> False)"

definition commit :: "ccb_conn \<Rightarrow> segment \<Rightarrow> broker \<Rightarrow> broker" where
  "commit c seg b =
     (case seg of (sv, es, p) \<Rightarrow>
        b\<lparr> b_sv := sv, b_run := (b_run b)(cn_id c \<mapsto> (c, p)), b_trace := b_trace b @ es \<rparr>)"

definition start_handler :: "ccb_conn \<Rightarrow> (server \<Rightarrow> segment) \<Rightarrow> broker \<Rightarrow> broker" where
  "start_handler c h b = (if idle b (cn_id c) then commit c (h (b_sv b)) b else b)"

text \<open>The segment a blocked handler runs next, if the event is one it waits for.\<close>

definition resume :: "'ad cedar \<Rightarrow> bconfig \<Rightarrow> 'ad event \<Rightarrow> ccb_conn \<Rightarrow> pc \<Rightarrow> server \<Rightarrow> segment option" where
  "resume cd cfg ev c p sv =
     (case p of
        RegStore t rec \<Rightarrow>
          (case ev of EvStored _ stamp \<Rightarrow> Some (register_stored cd cfg stamp t rec sv) | _ \<Rightarrow> None)
      | RemStore rec res \<Rightarrow>
          (case ev of EvStored _ stamp \<Rightarrow> Some (remove_stored cfg rec res sv) | _ \<Rightarrow> None)
      | ReqStd t k returnAddr name \<Rightarrow>
          (case ev of EvGo _ \<Rightarrow> Some (handleStandardRequest cd t k returnAddr name sv) | _ \<Rightarrow> None)
      | ReqProxy reply t k name rc \<Rightarrow>
          (case ev of EvGo _ \<Rightarrow> Some (proxyRelay cd cfg (cn_id c) reply t k name rc sv) | _ \<Rightarrow> None)
      | StdEnd n res \<Rightarrow> (case ev of EvGo _ \<Rightarrow> Some (standard_end n res sv) | _ \<Rightarrow> None)
      | PxEnd n res \<Rightarrow> (case ev of EvGo _ \<Rightarrow> Some (proxy_end n res sv) | _ \<Rightarrow> None)
      | RcFound n \<Rightarrow> (case ev of EvGo _ \<Rightarrow> Some (reverse_hand (cn_id c) n sv) | _ \<Rightarrow> None)
      | RegReply t reply \<Rightarrow>
          (case ev of EvWritten _ ok now \<Rightarrow> Some (register_replied cfg ok now t reply sv) | _ \<Rightarrow> None)
      | StdForward n t fwd \<Rightarrow>
          (case ev of EvWritten _ ok now \<Rightarrow> Some (standard_forwarded c ok n t fwd sv) | _ \<Rightarrow> None)
      | PxForward n reply t fwd \<Rightarrow>
          (case ev of EvWritten _ ok now \<Rightarrow> Some (proxy_forwarded (cn_id c) ok n reply t fwd sv) | _ \<Rightarrow> None)
      | Serving t \<Rightarrow>
          (case ev of EvServe _ ad now \<Rightarrow> Some (serveTarget cd cfg ad now t sv) | _ \<Rightarrow> None)
      | StdWait n t \<Rightarrow>
          (case ev of EvWait _ w ok1 ok2 \<Rightarrow> Some (standard_wait c w ok1 n t sv) | _ \<Rightarrow> None)
      | PxWait n reply t \<Rightarrow>
          (case ev of EvWait _ w ok1 ok2 \<Rightarrow> Some (proxy_wait cfg (cn_id c) w ok1 ok2 n reply t sv) | _ \<Rightarrow> None)
      | Splicing n tc \<Rightarrow>
          (case ev of EvSpliceEnd _ \<Rightarrow> Some (splice_done (cn_id c) n tc sv) | _ \<Rightarrow> None)
      | RcWait n \<Rightarrow>
          (case ev of EvReverseWait _ cancelled \<Rightarrow> Some (reverse_wait cancelled n sv) | _ \<Rightarrow> None)
      | Done _ \<Rightarrow> None)"

definition resume_handler :: "'ad cedar \<Rightarrow> bconfig \<Rightarrow> 'ad event \<Rightarrow> connId \<Rightarrow> broker \<Rightarrow> broker" where
  "resume_handler cd cfg ev i b =
     (case b_run b i of
        None \<Rightarrow> b
      | Some (c, p) \<Rightarrow>
          (case resume cd cfg ev c p (b_sv b) of
             None \<Rightarrow> b
           | Some (sv, es, q) \<Rightarrow>
               b\<lparr> b_sv := sv, b_run := (b_run b)(i \<mapsto> (c, q)), b_trace := b_trace b @ es \<rparr>))"

text \<open>A sweep starts when the one before it has made its store calls: one goroutine runs them all.\<close>

fun broker_step :: "'ad cedar \<Rightarrow> bconfig \<Rightarrow> 'ad event \<Rightarrow> broker \<Rightarrow> broker" where
  "broker_step cd cfg (EvRegister c ad cookie now) b =
     start_handler c (handleRegister cd cfg c ad cookie now) b"
| "broker_step cd cfg (EvRequest c ad) b = start_handler c (handleRequest cd cfg c ad) b"
| "broker_step cd cfg (EvReverseConnect c ad) b = start_handler c (handleReverseConnect cd ad) b"
| "broker_step cd cfg (EvInboundRelay c meta gid) b =
     start_handler c (startInboundRelay cfg (cn_id c) meta gid) b"
| "broker_step cd cfg (EvStored i stamp) b = resume_handler cd cfg (EvStored i stamp) i b"
| "broker_step cd cfg (EvGo i) b = resume_handler cd cfg (EvGo i) i b"
| "broker_step cd cfg (EvWritten i ok now) b = resume_handler cd cfg (EvWritten i ok now) i b"
| "broker_step cd cfg (EvServe i ad now) b = resume_handler cd cfg (EvServe i ad now) i b"
| "broker_step cd cfg (EvWait i w ok1 ok2) b = resume_handler cd cfg (EvWait i w ok1 ok2) i b"
| "broker_step cd cfg (EvSpliceEnd i) b = resume_handler cd cfg (EvSpliceEnd i) i b"
| "broker_step cd cfg (EvReverseWait i cancelled) b =
     resume_handler cd cfg (EvReverseWait i cancelled) i b"
| "broker_step cd cfg (EvSweep now ids) b =
     (if b_sweep b \<noteq> [] then b
      else let (sv, stale) = SweepReconnects cfg now ids (b_sv b) in b\<lparr> b_sv := sv, b_sweep := stale \<rparr>)"
| "broker_step cd cfg EvSweepStore b =
     (case b_sweep b of
        [] \<Rightarrow> b
      | i # is \<Rightarrow> b\<lparr> b_sweep := is, b_trace := b_trace b @ storeOps cfg [Delete i] \<rparr>)"
| "broker_step cd cfg (EvTunnelReady tc) b = b\<lparr> b_sv := (b_sv b)\<lparr> sv_tunnelContact := tc \<rparr> \<rparr>"

text \<open>
  Runs start from what \<open>New\<close> builds. The counters are 64 bits wide and advance by one per
  registration or request, so a run in which one of them wraps around is out of reach of any
  execution: the guards stop short of it. Ids loaded from a store keep 100 below the limit.
\<close>

definition broker_start :: "bconfig \<Rightarrow> broker \<Rightarrow> bool" where
  "broker_start cfg b \<longleftrightarrow>
     (\<exists>cfg0 loaded cc ob sv. New cfg0 loaded = Inr (cfg, cc, ob, sv) \<and>
        (\<forall>r \<in> set (case loaded of None \<Rightarrow> [] | Some rs \<Rightarrow> rs). unat (rr_ccbid r) + 100 < 2 ^ 64) \<and>
        b = \<lparr> b_sv = sv, b_run = Map.empty, b_sweep = [], b_trace = [] \<rparr>)"

definition in_range :: "'ad event \<Rightarrow> broker \<Rightarrow> bool" where
  "in_range ev b \<longleftrightarrow>
     Suc (unat (sv_nextID (b_sv b))) < 2 ^ 64 \<and> Suc (unat (sv_nextReq (b_sv b))) < 2 ^ 64 \<and>
     (case ev of EvSweep now ids \<Rightarrow> set ids = dom (sv_reconnects (b_sv b)) | _ \<Rightarrow> True)"

inductive broker_move :: "'ad cedar \<Rightarrow> bconfig \<Rightarrow> broker \<Rightarrow> broker \<Rightarrow> bool" for cd cfg where
  move: "in_range ev b \<Longrightarrow> broker_move cd cfg b (broker_step cd cfg ev b)"

section \<open>The registry\<close>

text \<open>
  Every live target has a reconnect record under its own id with its cookie, and no id beyond
  the counter is in use.
\<close>

definition reg_inv :: "server \<Rightarrow> bool" where
  "reg_inv sv \<longleftrightarrow>
     (\<forall>i t. sv_targets sv i = Some t \<longrightarrow>
        t_id t = i \<and> (\<exists>r. sv_reconnects sv i = Some r \<and> rr_cookie r = t_cookie t)) \<and>
     (\<forall>i r. sv_reconnects sv i = Some r \<longrightarrow> rr_ccbid r = i \<and> unat i \<le> unat (sv_nextID sv))"

lemma reg_inv_cong:
  "sv_targets sv' = sv_targets sv \<Longrightarrow> sv_reconnects sv' = sv_reconnects sv \<Longrightarrow>
   sv_nextID sv' = sv_nextID sv \<Longrightarrow> reg_inv sv' = reg_inv sv"
  by (simp add: reg_inv_def)

lemma foldl_none: "foldl (\<lambda>m i. m(i := None)) m is = (\<lambda>i. if i \<in> set is then None else m i)"
  by (induction "is" arbitrary: m) (auto simp: fun_eq_iff)

lemma reg_inv_remove: "reg_inv sv \<Longrightarrow> reg_inv (fst (removeTarget i now sv))"
  by (auto simp: reg_inv_def removeTarget_def Let_def split: option.splits)

lemma reg_inv_sweep: "reg_inv sv \<Longrightarrow> reg_inv (fst (SweepReconnects cfg now ids sv))"
  by (auto simp: reg_inv_def SweepReconnects_def stale_ids_def Let_def foldl_none split: if_splits)

definition reg_view :: "server \<Rightarrow> (uint64 \<rightharpoonup> target) \<times> (uint64 \<rightharpoonup> ReconnectRecord) \<times> uint64" where
  "reg_view sv = (sv_targets sv, sv_reconnects sv, sv_nextID sv)"

lemma reg_view_updates [simp]:
  "reg_view (sv\<lparr> sv_nextReq := a \<rparr>) = reg_view sv" "reg_view (sv\<lparr> sv_requests := b \<rparr>) = reg_view sv"
  "reg_view (sv\<lparr> sv_proxies := p \<rparr>) = reg_view sv" "reg_view (sv\<lparr> sv_sessions := s \<rparr>) = reg_view sv"
  "reg_view (sv\<lparr> sv_tunnelContact := tc \<rparr>) = reg_view sv"
  by (simp_all add: reg_view_def)

lemma reg_view_parts [simp]:
  "reg_view (drop_request n sv) = reg_view sv" "reg_view (drop_session n sv) = reg_view sv"
  "reg_view (finish_session n sv) = reg_view sv" "reg_view (deliverResult cd a sv) = reg_view sv"
  by (auto simp: drop_request_def drop_session_def finish_session_def deliverResult_def Let_def
      split: option.splits)

lemma reg_view_segments [simp]:
  "reg_view (fst (fail_request c msg sv)) = reg_view sv"
  "reg_view (fst (proxyFail rp i msg sv)) = reg_view sv"
  "reg_view (fst (standard_fail c msg n sv)) = reg_view sv"
  "reg_view (fst (session_fail rp i msg n sv)) = reg_view sv"
  "reg_view (fst (handleStandardRequest cd t k ret name sv)) = reg_view sv"
  "reg_view (fst (proxyRelay cd cfg i rp t k name rc sv)) = reg_view sv"
  by (simp_all add: fail_request_def proxyFail_def standard_fail_def session_fail_def handleStandardRequest_def
      proxyRelay_def Let_def)

lemma reg_view_handlers [simp]:
  "reg_view (fst (handleRequest cd cfg c ad sv)) = reg_view sv"
  "reg_view (fst (handleReverseConnect cd ad sv)) = reg_view sv"
  "reg_view (fst (startInboundRelay cfg i meta gid sv)) = reg_view sv"
  "reg_view (fst (register_stored cd cfg stamp t rec sv)) = reg_view sv"
  "reg_view (fst (remove_stored cfg rec res sv)) = reg_view sv"
  "reg_view (fst (standard_end n res sv)) = reg_view sv"
  "reg_view (fst (proxy_end n res sv)) = reg_view sv"
  "reg_view (fst (reverse_hand i n sv)) = reg_view sv"
  "reg_view (fst (standard_forwarded c ok n t fwd sv)) = reg_view sv"
  "reg_view (fst (standard_wait c w ok n t sv)) = reg_view sv"
  "reg_view (fst (proxy_forwarded i ok n rp t fwd sv)) = reg_view sv"
  "reg_view (fst (proxy_wait cfg i w ok1 ok2 n rp t sv)) = reg_view sv"
  "reg_view (fst (splice_done i n tc sv)) = reg_view sv"
  "reg_view (fst (reverse_wait cancelled n sv)) = reg_view sv"
  by (simp_all add: handleRequest_def handleReverseConnect_def startInboundRelay_def
      standard_forwarded_def standard_wait_def proxy_forwarded_def proxy_wait_def splice_done_def
      reverse_wait_def register_stored_def remove_stored_def standard_end_def proxy_end_def reverse_hand_def Let_def
      split: option.split prod.split wait_event.split)

lemma reg_inv_view: "reg_view sv' = reg_view sv \<Longrightarrow> reg_inv sv' = reg_inv sv"
  by (simp add: reg_view_def reg_inv_def)

lemma reconnect_id_some:
  assumes "reconnect_id cd cfg sv prev ck ipStr = Some i"
  shows "\<exists>r. sv_reconnects sv i = Some r \<and> rr_cookie r = ck \<and> ck \<noteq> [] \<and>
    (c_ReconnectAllowAnyIP cfg \<or> rr_peerIP r = ipStr) \<and> parseContactID cd prev = Some i"
  using assms by (auto simp: reconnect_id_def split: if_splits option.splits)

text \<open>What a registration does to the tables, by whether it reclaims an id.\<close>

definition registered ::
  "uint64 \<Rightarrow> string \<Rightarrow> string \<Rightarrow> string \<Rightarrow> connId \<Rightarrow> int \<Rightarrow> uint64 \<Rightarrow> server \<Rightarrow> server" where
  "registered i ck ipStr name conn now nxt sv =
     sv\<lparr> sv_nextID := nxt,
         sv_targets := (sv_targets sv)(i \<mapsto> \<lparr> t_id = i, t_name = name, t_cookie = ck, t_conn = conn \<rparr>),
         sv_reconnects := (sv_reconnects sv)(i \<mapsto>
           \<lparr> rr_ccbid = i, rr_cookie = ck, rr_peerIP = ipStr, rr_name = name, rr_updatedAt = now \<rparr>) \<rparr>"

lemma handleRegister_cases:
  assumes "handleRegister cd cfg c ad cookie now sv = (sv', es, p)"
  obtains (fail) e where "sv' = sv" "es = []" "p = Done (HErr e)"
  | (reuse) a i r where "ad = Some a" "authorize cfg c CommandRegister"
      "sv_reconnects sv i = Some r" "rr_cookie r = AdString cd a AttrClaimID" "rr_cookie r \<noteq> []"
      "c_ReconnectAllowAnyIP cfg \<or> rr_peerIP r = peerIPString c"
      "parseContactID cd (AdString cd a AttrCCBID) = Some i"
      "sv' = registered i (rr_cookie r) (peerIPString c) (AdString cd a AttrName) (cn_id c) now (sv_nextID sv) sv"
      "es = []" "p = RegStore (the (sv_targets sv' i)) (the (sv_reconnects sv' i))"
  | (fresh) a ck where "ad = Some a" "authorize cfg c CommandRegister" "cookie = Some ck"
      "reconnect_id cd cfg sv (AdString cd a AttrCCBID) (AdString cd a AttrClaimID) (peerIPString c) = None"
      "sv' = registered (sv_nextID sv + 1) ck (peerIPString c) (AdString cd a AttrName) (cn_id c) now (sv_nextID sv + 1) sv"
      "es = []" "p = RegStore (the (sv_targets sv' (sv_nextID sv + 1))) (the (sv_reconnects sv' (sv_nextID sv + 1)))"
proof (cases "\<not> authorize cfg c CommandRegister \<or> ad = None")
  case True
  then have "\<exists>e. sv' = sv \<and> es = [] \<and> p = Done (HErr e)"
    using assms by (cases ad) (auto simp: handleRegister_def split: if_splits)
  then show ?thesis using fail by blast
next
  case False
  then obtain a where a: "ad = Some a" "authorize cfg c CommandRegister" by auto
  note eq = assms [unfolded handleRegister_def a option.case Let_def, simplified a not_True_eq_False if_False]
  show ?thesis
  proof (cases "reconnect_id cd cfg sv (AdString cd a AttrCCBID) (AdString cd a AttrClaimID) (peerIPString c)")
    case None
    show ?thesis
    proof (cases cookie)
      case cn: None
      then show ?thesis using eq None by (intro fail) auto
    next
      case (Some ck)
      then show ?thesis using eq None a by (intro fresh [of a ck]) (auto simp: registered_def)
    qed
  next
    case (Some i)
    from reconnect_id_some [OF this] obtain r where r: "sv_reconnects sv i = Some r"
      "rr_cookie r = AdString cd a AttrClaimID" "AdString cd a AttrClaimID \<noteq> []"
      "c_ReconnectAllowAnyIP cfg \<or> rr_peerIP r = peerIPString c"
      "parseContactID cd (AdString cd a AttrCCBID) = Some i" by auto
    then show ?thesis using eq Some a by (intro reuse [of a i r]) (auto simp: registered_def)
  qed
qed

lemma registered_simps [simp]:
  "sv_targets (registered i ck ipStr name conn now nxt sv) =
     (sv_targets sv)(i \<mapsto> \<lparr> t_id = i, t_name = name, t_cookie = ck, t_conn = conn \<rparr>)"
  "sv_reconnects (registered i ck ipStr name conn now nxt sv) = (sv_reconnects sv)(i \<mapsto>
     \<lparr> rr_ccbid = i, rr_cookie = ck, rr_peerIP = ipStr, rr_name = name, rr_updatedAt = now \<rparr>)"
  "sv_nextID (registered i ck ipStr name conn now nxt sv) = nxt"
  "sv_requests (registered i ck ipStr name conn now nxt sv) = sv_requests sv"
  "sv_proxies (registered i ck ipStr name conn now nxt sv) = sv_proxies sv"
  "sv_sessions (registered i ck ipStr name conn now nxt sv) = sv_sessions sv"
  "sv_nextReq (registered i ck ipStr name conn now nxt sv) = sv_nextReq sv"
  by (simp_all add: registered_def)

lemma reg_inv_register:
  assumes I: "reg_inv sv" and room: "Suc (unat (sv_nextID sv)) < 2 ^ 64"
    and eq: "handleRegister cd cfg c ad cookie now sv = (sv', es, p)"
  shows "reg_inv sv'"
  using eq
proof (cases rule: handleRegister_cases)
  case (reuse a i r)
  then show ?thesis using I by (auto simp: reg_inv_def)
next
  case (fresh a ck)
  have "unat (sv_nextID sv + 1) = Suc (unat (sv_nextID sv))" using room by (simp add: unat_plus_one)
  then show ?thesis using I fresh(5) by (auto simp: reg_inv_def le_SucI)
qed (use I in simp)

lemma start_handler_sv:
  "b_sv (start_handler c h b) = (if idle b (cn_id c) then fst (h (b_sv b)) else b_sv b)"
  by (auto simp: start_handler_def commit_def split: prod.splits)

lemma resume_handler_cases:
  obtains (stay) "resume_handler cd cfg ev i b = b"
  | (run) c p sv es q where "b_run b i = Some (c, p)" "resume cd cfg ev c p (b_sv b) = Some (sv, es, q)"
      "resume_handler cd cfg ev i b =
         b\<lparr> b_sv := sv, b_run := (b_run b)(i \<mapsto> (c, q)), b_trace := b_trace b @ es \<rparr>"
proof (cases "b_run b i")
  case None
  then show ?thesis by (intro stay) (simp add: resume_handler_def)
next
  case (Some cp)
  obtain c p where cp: "cp = (c, p)" by fastforce
  show ?thesis
  proof (cases "resume cd cfg ev c p (b_sv b)")
    case None
    then show ?thesis using Some cp by (intro stay) (simp add: resume_handler_def)
  next
    case seg: (Some seg)
    obtain sv es q where "seg = (sv, es, q)" by (metis prod_cases3)
    then show ?thesis using Some cp seg by (intro run [of c p sv es q]) (simp_all add: resume_handler_def)
  qed
qed

lemma target_removed_fst [simp]: "fst (target_removed cfg i now res sv) = fst (removeTarget i now sv)"
  by (simp add: target_removed_def split: prod.split option.split)

lemma resume_reg_view:
  assumes "resume cd cfg ev c p sv = Some seg"
  shows "reg_view (fst seg) = reg_view sv \<or> (\<exists>i now. fst seg = fst (removeTarget i now sv))"
proof (cases p)
  case (RegReply t reply)
  then obtain ok now where "seg = register_replied cfg ok now t reply sv"
    using assms by (auto simp: resume_def split: event.splits)
  then show ?thesis by (auto simp: register_replied_def)
next
  case (Serving t)
  then obtain ad now where seg: "seg = serveTarget cd cfg ad now t sv"
    using assms by (auto simp: resume_def split: event.splits)
  show ?thesis by (cases ad) (auto simp: seg serveTarget_def split: prod.splits)
qed (use assms in \<open>auto simp: resume_def split: event.splits\<close>)

lemma resume_handler_reg_inv:
  assumes "reg_inv (b_sv b)"
  shows "reg_inv (b_sv (resume_handler cd cfg ev i b))"
proof (cases rule: resume_handler_cases [of cd cfg ev i b])
  case (run c p sv es q)
  then show ?thesis
    using resume_reg_view [OF run(2)] reg_inv_view [of sv "b_sv b"] reg_inv_remove [OF assms] assms by auto
qed (simp add: assms)

lemma reg_inv_step:
  assumes I: "reg_inv (b_sv b)" and rg: "in_range ev b"
  shows "reg_inv (b_sv (broker_step cd cfg ev b))"
proof (cases ev)
  case (EvRegister c ad cookie now)
  have "reg_inv (fst (handleRegister cd cfg c ad cookie now (b_sv b)))"
    using rg reg_inv_register [OF I] by (metis in_range_def prod.collapse)
  then show ?thesis using I EvRegister by (simp add: start_handler_sv)
next
  case (EvSweep now ids)
  then show ?thesis using reg_inv_sweep [OF I, of cfg now ids] I
    by (cases "SweepReconnects cfg now ids (b_sv b)") simp
next
  case EvSweepStore
  then show ?thesis using I by (simp split: list.split)
next
  case (EvTunnelReady tc)
  then show ?thesis using I by (simp add: reg_inv_def)
qed (use I resume_handler_reg_inv [OF I] in \<open>simp_all add: start_handler_sv reg_inv_view [OF reg_view_handlers(1)]
  reg_inv_view [OF reg_view_handlers(2)] reg_inv_view [OF reg_view_handlers(3)]\<close>)

lemma foldl_max_ge:
  "m0 \<le> foldl (\<lambda>m r. if rr_ccbid r > m then rr_ccbid r else m) m0 rs \<and>
   (\<forall>r \<in> set rs. rr_ccbid r \<le> foldl (\<lambda>m r. if rr_ccbid r > m then rr_ccbid r else m) m0 rs)"
  by (induction rs arbitrary: m0) (auto simp: not_less intro: order.trans less_imp_le)

lemma foldl_max_in:
  "foldl (\<lambda>m r. if rr_ccbid r > m then rr_ccbid r else m) m0 rs \<in> insert m0 (rr_ccbid ` set rs)"
  by (induction rs arbitrary: m0) (auto split: if_splits)

lemma foldl_upd_ran:
  "foldl (\<lambda>m r. m(rr_ccbid r \<mapsto> r)) m0 rs i = Some r \<Longrightarrow> r \<in> set rs \<and> rr_ccbid r = i \<or> m0 i = Some r"
proof (induction rs arbitrary: m0)
  case (Cons a rs)
  from Cons.IH [of "m0(rr_ccbid a \<mapsto> a)"] Cons.prems show ?case by (auto split: if_splits)
qed simp

lemma reg_inv_load:
  assumes "loadReconnects cfg loaded empty_server = Some sv"
    and small: "\<forall>r \<in> set (case loaded of None \<Rightarrow> [] | Some rs \<Rightarrow> rs). unat (rr_ccbid r) + 100 < 2 ^ 64"
  shows "reg_inv sv"
proof (cases "c_ReconnectStore cfg")
  case False
  then show ?thesis using assms(1) by (auto simp: loadReconnects_def reg_inv_def empty_server_def)
next
  case True
  then obtain rs where rs: "loaded = Some rs" using assms(1) by (cases loaded) (auto simp: loadReconnects_def)
  define m where "m = foldl (\<lambda>m r. if rr_ccbid r > m then rr_ccbid r else m) 0 rs"
  have sv: "sv_targets sv = Map.empty" "sv_reconnects sv = foldl (\<lambda>m r. m(rr_ccbid r \<mapsto> r)) Map.empty rs"
    "sv_nextID sv = (if m > 0 then m + 100 else 0)"
    using assms(1) True by (auto simp: rs loadReconnects_def Let_def empty_server_def m_def)
  have "unat m \<le> unat (sv_nextID sv)"
  proof (cases "m > 0")
    case True
    then have "unat m + 100 < 2 ^ 64" using foldl_max_in [of 0 rs] small by (auto simp: m_def rs)
    then show ?thesis using True by (simp add: sv unat_word_ariths)
  next
    case False
    then have "m = 0" by (simp add: word_gt_0)
    then show ?thesis by (simp add: sv)
  qed
  then show ?thesis using foldl_max_ge [of 0 rs]
    by (auto simp: reg_inv_def sv(1,2) m_def [symmetric] word_le_nat_alt dest!: foldl_upd_ran)
qed

lemma New_inv:
  assumes "New cfg0 loaded = Inr (cfg, cc, ob, sv)"
  shows "New_config cfg0 = Inr (cfg, cc, ob)" "loadReconnects cfg loaded empty_server = Some sv"
proof -
  from assms obtain x where x: "New_config cfg0 = Inr x"
    by (cases "New_config cfg0") (auto simp: New_def)
  obtain cfg' cc' ob' where "x = (cfg', cc', ob')" by (metis prod_cases3)
  with assms x show "New_config cfg0 = Inr (cfg, cc, ob)" "loadReconnects cfg loaded empty_server = Some sv"
    by (cases "loadReconnects cfg' loaded empty_server"; simp add: New_def)+
qed

lemma reg_inv_start: "broker_start cfg b \<Longrightarrow> reg_inv (b_sv b)"
  by (auto simp: broker_start_def dest!: New_inv(2) intro: reg_inv_load)

interpretation registry: invariant_machine "broker_start cfg" "broker_move cd cfg" "\<lambda>b. reg_inv (b_sv b)" for cd cfg
  by unfold_locales (auto simp: reg_inv_start broker_move.simps intro: reg_inv_step)

section \<open>Ownership of pending requests and sessions\<close>

text \<open>
  The abstract machine: handlers that own a number, either of a standard request or of a proxy
  session, the set of pending requests, the table of connect ids, and the sessions ever made.
\<close>

record ownership =
  ow_last :: nat
  ow_run :: "connId \<rightharpoonup> bool \<times> uint64"
  ow_req :: "uint64 set"
  ow_px :: "string \<rightharpoonup> uint64"
  ow_sess :: "uint64 \<rightharpoonup> string \<times> connId"

inductive own_step :: "ownership \<Rightarrow> ownership \<Rightarrow> bool" where
  o_skip: "own_step o1 o1"
| o_tick: "own_step o1 (o1\<lparr> ow_last := Suc (ow_last o1) \<rparr>)"
| o_request: "ow_run o1 c = None \<Longrightarrow> unat n = Suc (ow_last o1) \<Longrightarrow>
    own_step o1 (o1\<lparr> ow_last := Suc (ow_last o1), ow_run := (ow_run o1)(c \<mapsto> (True, n)),
                    ow_req := insert n (ow_req o1) \<rparr>)"
| o_session: "ow_run o1 c = None \<Longrightarrow> unat n = Suc (ow_last o1) \<Longrightarrow> ow_px o1 k = None \<Longrightarrow>
    own_step o1 (o1\<lparr> ow_last := Suc (ow_last o1), ow_run := (ow_run o1)(c \<mapsto> (False, n)),
                    ow_px := (ow_px o1)(k \<mapsto> n), ow_sess := (ow_sess o1)(n \<mapsto> (k, c)) \<rparr>)"
| o_answer: "ow_run o1 c = Some (True, n) \<Longrightarrow>
    own_step o1 (o1\<lparr> ow_run := (ow_run o1)(c := None), ow_req := ow_req o1 - {n} \<rparr>)"
| o_close: "ow_run o1 c = Some (False, n) \<Longrightarrow> ow_sess o1 n = Some (k, c') \<Longrightarrow>
    own_step o1 (o1\<lparr> ow_run := (ow_run o1)(c := None), ow_px := (ow_px o1)(k := None) \<rparr>)"

definition own_inv :: "ownership \<Rightarrow> bool" where
  "own_inv w \<longleftrightarrow>
     (\<forall>c b n. ow_run w c = Some (b, n) \<longrightarrow> unat n \<le> ow_last w) \<and>
     (\<forall>c c' b b' n. ow_run w c = Some (b, n) \<longrightarrow> ow_run w c' = Some (b', n) \<longrightarrow> c = c') \<and>
     (\<forall>n. n \<in> ow_req w \<longleftrightarrow> (\<exists>c. ow_run w c = Some (True, n))) \<and>
     (\<forall>c n. ow_run w c = Some (False, n) \<longrightarrow> (\<exists>k. ow_sess w n = Some (k, c) \<and> ow_px w k = Some n)) \<and>
     (\<forall>k n. ow_px w k = Some n \<longrightarrow> (\<exists>c. ow_run w c = Some (False, n) \<and> ow_sess w n = Some (k, c))) \<and>
     (\<forall>n x. ow_sess w n = Some x \<longrightarrow> unat n \<le> ow_last w)"

lemma own_invD:
  assumes "own_inv w"
  shows own_le: "ow_run w c = Some (b, n) \<Longrightarrow> unat n \<le> ow_last w"
    and own_unique: "ow_run w c = Some (b, n) \<Longrightarrow> ow_run w c' = Some (b', n) \<Longrightarrow> c' = c"
    and own_req: "n \<in> ow_req w \<longleftrightarrow> (\<exists>c. ow_run w c = Some (True, n))"
    and own_session: "ow_run w c = Some (False, n) \<Longrightarrow> \<exists>k. ow_sess w n = Some (k, c) \<and> ow_px w k = Some n"
    and own_px: "ow_px w k = Some n \<Longrightarrow> \<exists>c. ow_run w c = Some (False, n) \<and> ow_sess w n = Some (k, c)"
    and own_sess_le: "ow_sess w n = Some x \<Longrightarrow> unat n \<le> ow_last w"
  using assms unfolding own_inv_def by metis+

lemma own_invI:
  assumes "\<And>c b n. ow_run w c = Some (b, n) \<Longrightarrow> unat n \<le> ow_last w"
    and "\<And>c c' b b' n. ow_run w c = Some (b, n) \<Longrightarrow> ow_run w c' = Some (b', n) \<Longrightarrow> c = c'"
    and "\<And>n. n \<in> ow_req w \<longleftrightarrow> (\<exists>c. ow_run w c = Some (True, n))"
    and "\<And>c n. ow_run w c = Some (False, n) \<Longrightarrow> \<exists>k. ow_sess w n = Some (k, c) \<and> ow_px w k = Some n"
    and "\<And>k n. ow_px w k = Some n \<Longrightarrow> \<exists>c. ow_run w c = Some (False, n) \<and> ow_sess w n = Some (k, c)"
    and "\<And>n x. ow_sess w n = Some x \<Longrightarrow> unat n \<le> ow_last w"
  shows "own_inv w"
  using assms unfolding own_inv_def by (intro conjI allI impI) blast+

lemma own_new:
  assumes "own_inv w" "unat n = Suc (ow_last w)"
  shows "ow_run w c \<noteq> Some (b, n)" "ow_sess w n = None" "ow_px w k \<noteq> Some n"
proof -
  show 1: "ow_run w c \<noteq> Some (b, n)" for c b using own_le [OF assms(1), of c b n] assms(2) by auto
  show "ow_sess w n = None"
    using own_sess_le [OF assms(1), of n] assms(2) by (cases "ow_sess w n") auto
  show "ow_px w k \<noteq> Some n" using own_px [OF assms(1), of k n] 1 by auto
qed

lemma ex_upd: "K c = None \<Longrightarrow> (\<exists>d. (K(c \<mapsto> x)) d = Some y) \<longleftrightarrow> x = y \<or> (\<exists>d. K d = Some y)"
  by (auto split: if_splits) (metis option.distinct(1))

lemma ex_del: "K c = Some z \<Longrightarrow> y \<noteq> z \<Longrightarrow> (\<exists>d. (K(c := None)) d = Some y) \<longleftrightarrow> (\<exists>d. K d = Some y)"
  by (auto split: if_splits) (metis option.inject)

lemma own_inv_request:
  assumes I: "own_inv w" and c: "ow_run w c = None" and n: "unat n = Suc (ow_last w)"
  shows "own_inv (w\<lparr> ow_last := Suc (ow_last w), ow_run := (ow_run w)(c \<mapsto> (True, n)),
    ow_req := insert n (ow_req w) \<rparr>)"
proof (rule own_invI, goal_cases)
  case (1 d b m)
  then show ?case using n own_le [OF I, of d b m] by (auto split: if_splits)
next
  case (2 d e b b' m)
  then show ?case using own_new [OF I n] own_unique [OF I, of e b' m d b] by (auto split: if_splits)
next
  case (3 m)
  then show ?case using own_req [OF I, of m] by (auto simp: ex_upd [of "ow_run w", OF c] simp del: fun_upd_apply)
next
  case (4 d m)
  then show ?case using own_session [OF I, of d m] by (auto split: if_splits)
next
  case (5 k m)
  then obtain d where "ow_run w d = Some (False, m)" "ow_sess w m = Some (k, d)"
    using own_px [OF I, of k m] by auto
  then show ?case using c by (intro exI [of _ d]) auto
next
  case (6 m x)
  then show ?case using own_sess_le [OF I, of m] by (auto intro: le_SucI)
qed

lemma own_inv_session:
  assumes I: "own_inv w" and c: "ow_run w c = None" and n: "unat n = Suc (ow_last w)"
    and k: "ow_px w k = None"
  shows "own_inv (w\<lparr> ow_last := Suc (ow_last w), ow_run := (ow_run w)(c \<mapsto> (False, n)),
    ow_px := (ow_px w)(k \<mapsto> n), ow_sess := (ow_sess w)(n \<mapsto> (k, c)) \<rparr>)"
proof (rule own_invI, goal_cases)
  case (1 d b m)
  then show ?case using n own_le [OF I, of d b m] by (auto split: if_splits)
next
  case (2 d e b b' m)
  then show ?case using own_new [OF I n] own_unique [OF I, of e b' m d b] by (auto split: if_splits)
next
  case (3 m)
  then show ?case using own_req [OF I, of m] by (auto simp: ex_upd [of "ow_run w", OF c] simp del: fun_upd_apply)
next
  case (4 d m)
  show ?case
  proof (cases "d = c")
    case False
    then obtain j where j: "ow_sess w m = Some (j, d)" "ow_px w j = Some m"
      using own_session [OF I, of d m] 4 by auto
    then have "j \<noteq> k" "m \<noteq> n" using k own_new [OF I n] by auto
    then show ?thesis using j by (intro exI [of _ j]) simp
  qed (use 4 in auto)
next
  case (5 j m)
  show ?case
  proof (cases "j = k")
    case False
    then obtain d where "ow_run w d = Some (False, m)" "ow_sess w m = Some (j, d)"
      using own_px [OF I, of j m] 5 by auto
    then show ?thesis using c own_new [OF I n] by (intro exI [of _ d]) auto
  qed (use 5 in simp)
next
  case (6 m x)
  then show ?case using own_sess_le [OF I, of m] n by (auto intro: le_SucI split: if_splits)
qed

lemma own_inv_answer:
  assumes I: "own_inv w" and c: "ow_run w c = Some (True, n)"
  shows "own_inv (w\<lparr> ow_run := (ow_run w)(c := None), ow_req := ow_req w - {n} \<rparr>)"
proof (rule own_invI, goal_cases)
  case (1 d b m)
  then show ?case using own_le [OF I, of d b m] by (auto split: if_splits)
next
  case (2 d e b b' m)
  then show ?case using own_unique [OF I, of e b' m d b] by (auto split: if_splits)
next
  case (3 m)
  show ?case
  proof (cases "m = n")
    case True
    then show ?thesis using own_unique [OF I c, of _ True] by (auto split: if_splits)
  next
    case False
    then show ?thesis using own_req [OF I, of m] ex_del [of "ow_run w", OF c, of "(True, m)"]
      by (simp del: fun_upd_apply)
  qed
next
  case (4 d m)
  then show ?case using own_session [OF I, of d m] by (auto split: if_splits)
next
  case (5 k m)
  then obtain d where "ow_run w d = Some (False, m)" "ow_sess w m = Some (k, d)"
    using own_px [OF I, of k m] by auto
  then show ?case using c by (intro exI [of _ d]) auto
next
  case (6 m x)
  then show ?case using own_sess_le [OF I, of m] by auto
qed

lemma own_inv_close:
  assumes I: "own_inv w" and c: "ow_run w c = Some (False, n)" and s: "ow_sess w n = Some (k, c')"
  shows "own_inv (w\<lparr> ow_run := (ow_run w)(c := None), ow_px := (ow_px w)(k := None) \<rparr>)"
proof (rule own_invI, goal_cases)
  case (1 d b m)
  then show ?case using own_le [OF I, of d b m] by (auto split: if_splits)
next
  case (2 d e b b' m)
  then show ?case using own_unique [OF I, of e b' m d b] by (auto split: if_splits)
next
  case (3 m)
  then show ?case using own_req [OF I, of m] by (auto simp: ex_del [of "ow_run w", OF c] simp del: fun_upd_apply)
next
  case (4 d m)
  then show ?case
    using own_session [OF I, of d m] own_session [OF I c] s
    by (auto split: if_splits) (metis option.inject prod.inject)
next
  case (5 j m)
  then have "j \<noteq> k" "ow_px w j = Some m" by (auto split: if_splits)
  then obtain d where d: "ow_run w d = Some (False, m)" "ow_sess w m = Some (j, d)"
    using own_px [OF I, of j m] by auto
  then have "d \<noteq> c" using s c \<open>j \<noteq> k\<close> by auto
  then show ?case using d by (intro exI [of _ d]) auto
next
  case (6 m x)
  then show ?case using own_sess_le [OF I, of m] by auto
qed

lemma own_inv_step:
  assumes I: "own_inv w" and "own_step w w'"
  shows "own_inv w'"
  using assms(2)
proof cases
  case o_skip
  then show ?thesis using I by simp
next
  case o_tick
  then show ?thesis using I by (simp add: own_inv_def le_SucI)
next
  case (o_request c n)
  then show ?thesis using own_inv_request [OF I] by simp
next
  case (o_session c n k)
  then show ?thesis using own_inv_session [OF I] by simp
next
  case (o_answer c n)
  then show ?thesis using own_inv_answer [OF I] by simp
next
  case (o_close c n k c')
  then show ?thesis using own_inv_close [OF I] by simp
qed

text \<open>The abstraction: which number a blocked handler owns, and the tables without their contents.\<close>

fun kind :: "pc \<Rightarrow> (bool \<times> uint64) option" where
  "kind (StdForward n t fwd) = Some (True, n)"
| "kind (StdWait n t) = Some (True, n)"
| "kind (PxForward n rp t fwd) = Some (False, n)"
| "kind (PxWait n rp t) = Some (False, n)"
| "kind (Splicing n tc) = Some (False, n)"
| "kind (StdEnd n res) = Some (True, n)"
| "kind (PxEnd n res) = Some (False, n)"
| "kind (RegStore t rec) = None"
| "kind (RemStore rec res) = None"
| "kind (ReqStd t k ret name) = None"
| "kind (ReqProxy rp t k name rc) = None"
| "kind (RcFound n) = None"
| "kind (RegReply t reply) = None"
| "kind (Serving t) = None"
| "kind (RcWait n) = None"
| "kind (Done r) = None"

definition own_of :: "server \<Rightarrow> (connId \<rightharpoonup> bool \<times> uint64) \<Rightarrow> ownership" where
  "own_of sv K = \<lparr> ow_last = unat (sv_nextReq sv), ow_run = K, ow_req = dom (sv_requests sv),
     ow_px = sv_proxies sv,
     ow_sess = (\<lambda>n. map_option (\<lambda>s. (ps_connectID s, ps_requesterConn s)) (sv_sessions sv n)) \<rparr>"

definition kinds :: "broker \<Rightarrow> connId \<rightharpoonup> bool \<times> uint64" where
  "kinds b i = Option.bind (b_run b i) (\<lambda>(c, p). kind p)"

lemma kinds_upd [simp]:
  "kinds (b\<lparr> b_sv := sv, b_run := (b_run b)(i \<mapsto> (c, p)), b_trace := es \<rparr>) = (kinds b)(i := kind p)"
  by (auto simp: kinds_def fun_eq_iff)

lemma kinds_sv [simp]: "kinds (b\<lparr> b_sv := sv, b_sweep := is \<rparr>) = kinds b" "kinds (b\<lparr> b_sv := sv \<rparr>) = kinds b"
  "kinds (b\<lparr> b_sweep := is, b_trace := es \<rparr>) = kinds b"
  by (simp_all add: kinds_def fun_eq_iff)

definition tables :: "server \<Rightarrow> nat \<times> uint64 set \<times> (string \<rightharpoonup> uint64) \<times> (uint64 \<rightharpoonup> string \<times> connId)" where
  "tables sv = (unat (sv_nextReq sv), dom (sv_requests sv), sv_proxies sv,
     (\<lambda>n. map_option (\<lambda>s. (ps_connectID s, ps_requesterConn s)) (sv_sessions sv n)))"

lemma own_of_tables: "tables sv' = tables sv \<Longrightarrow> own_of sv' K = own_of sv K"
  by (simp add: tables_def own_of_def)

lemma own_skip:
  "tables (fst seg) = tables sv \<Longrightarrow> kind (snd (snd seg)) = K i \<Longrightarrow>
   own_step (own_of sv K) (own_of (fst seg) (K(i := kind (snd (snd seg)))))"
  by (metis own_of_tables fun_upd_triv own_step.o_skip)

lemma own_proxyRelay:
  assumes room: "Suc (unat (sv_nextReq sv)) < 2 ^ 64" and K: "K i = None"
  shows "own_step (own_of sv K)
    (own_of (fst (proxyRelay cd cfg i rp t k name rc sv))
       (K(i := kind (snd (snd (proxyRelay cd cfg i rp t k name rc sv))))))"
proof -
  have n: "unat (sv_nextReq sv + 1) = Suc (unat (sv_nextReq sv))" using room by (simp add: unat_plus_one)
  show ?thesis
  proof (cases "sv_proxies sv k")
    case (Some m)
    have "own_of (sv\<lparr> sv_nextReq := sv_nextReq sv + 1 \<rparr>) (K(i := None)) =
      (own_of sv K)\<lparr> ow_last := Suc (ow_last (own_of sv K)) \<rparr>"
      using n K by (simp add: own_of_def fun_upd_idem)
    then show ?thesis using Some own_step.o_tick [of "own_of sv K"]
      by (simp add: proxyRelay_def proxyFail_def Let_def)
  next
    case None
    then show ?thesis
      using own_step.o_session [of "own_of sv K" i "sv_nextReq sv + 1" k] n K
      by (simp add: proxyRelay_def Let_def own_of_def fun_upd_def if_distrib [of "map_option _"] cong: if_cong)
  qed
qed

lemma own_standard:
  assumes room: "Suc (unat (sv_nextReq sv)) < 2 ^ 64" and K: "K i = None"
  shows "own_step (own_of sv K)
    (own_of (fst (handleStandardRequest cd t k ret name sv))
       (K(i := kind (snd (snd (handleStandardRequest cd t k ret name sv))))))"
proof -
  have n: "unat (sv_nextReq sv + 1) = Suc (unat (sv_nextReq sv))" using room by (simp add: unat_plus_one)
  then show ?thesis
    using own_step.o_request [of "own_of sv K" i "sv_nextReq sv + 1"] K
    by (simp add: handleStandardRequest_def Let_def own_of_def)
qed

text \<open>The ways a request goes: refused, or with its target found, in one of the two modes.\<close>

lemma handleRequest_cases:
  obtains (unread) e where "ad = None" "handleRequest cd cfg c ad sv = (sv, [], Done (HErr e))"
  | (fail) a m where "ad = Some a" "handleRequest cd cfg c ad sv = fail_request c m sv"
      "\<not> authorize cfg c CommandRequest \<or> AdString cd a AttrClaimID = [] \<or> AdString cd a AttrMyAddress = [] \<or>
       (case parseTargetID (AdString cd a AttrCCBID) of None \<Rightarrow> True | Some i \<Rightarrow> sv_targets sv i = None)"
  | (proxy) a i t where "ad = Some a" "authorize cfg c CommandRequest"
      "parseTargetID (AdString cd a AttrCCBID) = Some i" "sv_targets sv i = Some t"
      "AdString cd a AttrClaimID \<noteq> []" "AdString cd a AttrMyAddress \<noteq> []"
      "fst (AdBool cd a AttrCCBStreamingRequired) \<or> sinfulIsCCB cd (AdString cd a AttrMyAddress) \<or>
       AdString cd a AttrCCBRoute \<noteq> []"
      "handleRequest cd cfg c ad sv = (sv, [], ReqProxy True t (AdString cd a AttrClaimID)
         (AdString cd a AttrName) \<lparr> rt_route = AdString cd a AttrCCBRoute,
           rt_originalRequester = requesterIdentity c, rt_priorHop = proxyAddrSinful cfg \<rparr>)"
  | (standard) a i t where "ad = Some a" "authorize cfg c CommandRequest"
      "parseTargetID (AdString cd a AttrCCBID) = Some i" "sv_targets sv i = Some t"
      "AdString cd a AttrClaimID \<noteq> []" "AdString cd a AttrMyAddress \<noteq> []"
      "\<not> fst (AdBool cd a AttrCCBStreamingRequired)" "\<not> sinfulIsCCB cd (AdString cd a AttrMyAddress)"
      "AdString cd a AttrCCBRoute = []"
      "handleRequest cd cfg c ad sv = (sv, [], ReqStd t (AdString cd a AttrClaimID)
         (AdString cd a AttrMyAddress) (AdString cd a AttrName))"
proof (cases ad)
  case None
  then show ?thesis by (intro unread) (simp_all add: handleRequest_def)
next
  case (Some a)
  let ?k = "AdString cd a AttrClaimID" and ?ret = "AdString cd a AttrMyAddress"
  show ?thesis
  proof (cases "authorize cfg c CommandRequest \<and> ?k \<noteq> [] \<and> ?ret \<noteq> []")
    case False
    then have "\<exists>m. handleRequest cd cfg c ad sv = fail_request c m sv"
      using Some by (auto simp: handleRequest_def Let_def)
    then show ?thesis using fail Some False by blast
  next
    case ok: True
    show ?thesis
    proof (cases "parseTargetID (AdString cd a AttrCCBID)")
      case None
      then show ?thesis using Some ok by (intro fail) (auto simp: handleRequest_def Let_def)
    next
      case i: (Some i)
      show ?thesis
      proof (cases "sv_targets sv i")
        case None
        then show ?thesis using Some ok i by (intro fail) (auto simp: handleRequest_def Let_def)
      next
        case t: (Some t)
        show ?thesis
        proof (cases "fst (AdBool cd a AttrCCBStreamingRequired) \<or> sinfulIsCCB cd ?ret \<or> AdString cd a AttrCCBRoute \<noteq> []")
          case True
          then show ?thesis using Some ok i t by (intro proxy [of a i t]) (simp_all add: handleRequest_def Let_def)
        next
          case False
          then show ?thesis using Some ok i t by (intro standard [of a i t]) (simp_all add: handleRequest_def Let_def)
        qed
      qed
    qed
  qed
qed

lemma handleRequest_fst:
  "fst (handleRequest cd cfg c ad sv) = sv" "kind (snd (snd (handleRequest cd cfg c ad sv))) = None"
  "tables (fst (handleRequest cd cfg c ad sv)) = tables sv"
  by (cases rule: handleRequest_cases [of ad cd cfg c sv]; simp add: fail_request_def)+

lemma startInboundRelay_cases:
  obtains (drop) "startInboundRelay cfg i meta gid sv = (sv, [CloseConn i], Done HNil)"
  | (relay) j t k where "parseTargetID (fst (splitRoute (im_Route meta))) = Some j"
      "sv_targets sv j = Some t" "gid = Some k"
      "startInboundRelay cfg i meta gid sv = (sv, [], ReqProxy False t k ''inbound-relay''
         \<lparr> rt_route = snd (splitRoute (im_Route meta)), rt_originalRequester = im_OriginalRequester meta,
           rt_priorHop = proxyAddrSinful cfg \<rparr>)"
proof -
  obtain h tl where r: "splitRoute (im_Route meta) = (h, tl)" by fastforce
  show ?thesis
  proof (cases "parseTargetID h")
    case None
    then show ?thesis using r by (intro drop) (simp add: startInboundRelay_def)
  next
    case j: (Some j)
    show ?thesis
    proof (cases "h = [] \<or> sv_targets sv j = None \<or> gid = None")
      case True
      then show ?thesis using r j
        by (intro drop) (auto simp: startInboundRelay_def split: option.split)
    next
      case False
      then show ?thesis using r j by (auto simp: startInboundRelay_def intro: relay)
    qed
  qed
qed

lemma startInboundRelay_fst:
  "fst (startInboundRelay cfg i meta gid sv) = sv" "kind (snd (snd (startInboundRelay cfg i meta gid sv))) = None"
  "tables (fst (startInboundRelay cfg i meta gid sv)) = tables sv"
  by (cases rule: startInboundRelay_cases [of cfg i meta gid sv]; simp)+

lemma handleReverseConnect_fst:
  "fst (handleReverseConnect cd ad sv) = sv" "kind (snd (snd (handleReverseConnect cd ad sv))) = None"
  "tables (fst (handleReverseConnect cd ad sv)) = tables sv"
  by (simp_all add: handleReverseConnect_def split: option.split)

text \<open>A handler that starts enters nothing in the tables of the ownership machine.\<close>

lemma own_begin:
  assumes "tables (fst seg) = tables sv" "kind (snd (snd seg)) = None" "K i = None"
  shows "own_step (own_of sv K) (own_of (fst seg) (K(i := kind (snd (snd seg)))))"
  using own_skip [of seg sv K i] assms by simp

lemma handleRegister_tables:
  "tables (fst (handleRegister cd cfg c ad ck now sv)) = tables sv" "kind (snd (snd (handleRegister cd cfg c ad ck now sv))) = None"
proof -
  obtain sv' es p where eq: "handleRegister cd cfg c ad ck now sv = (sv', es, p)" by (metis prod_cases3)
  from eq have "tables sv' = tables sv \<and> kind p = None"
    by (cases rule: handleRegister_cases) (auto simp: tables_def)
  then show "tables (fst (handleRegister cd cfg c ad ck now sv)) = tables sv"
    "kind (snd (snd (handleRegister cd cfg c ad ck now sv))) = None" by (simp_all add: eq)
qed

lemma tables_parts [simp]:
  "tables (finish_session n sv) = tables sv" "tables (deliverResult cd a sv) = tables sv"
  "tables (fst (removeTarget j now sv)) = tables sv"
  by (auto simp: tables_def finish_session_def deliverResult_def removeTarget_def Let_def fun_eq_iff
      split: option.splits)

lemma target_removed_kind [simp]: "kind (snd (snd (target_removed cfg i now res sv))) = None"
  by (simp add: target_removed_def split: prod.split option.split)

lemma tables_targetCh:
  "sv_sessions sv n = Some s \<Longrightarrow>
   tables (sv\<lparr> sv_sessions := (sv_sessions sv)(n \<mapsto> s\<lparr> ps_targetCh := x \<rparr>) \<rparr>) = tables sv"
  by (auto simp: tables_def fun_eq_iff)

lemma tables_replyCh:
  "sv_requests sv n = Some q \<Longrightarrow>
   tables (sv\<lparr> sv_requests := (sv_requests sv)(n \<mapsto> q\<lparr> rq_replyCh := x \<rparr>) \<rparr>) = tables sv"
  by (auto simp: tables_def)

lemma serveTarget_tables:
  "tables (fst (serveTarget cd cfg ad now t sv)) = tables sv \<and>
   kind (snd (snd (serveTarget cd cfg ad now t sv))) = None"
proof (cases ad)
  case (Some a)
  then show ?thesis by (cases "AdInt cd a AttrCommand") (simp add: serveTarget_def)
qed (simp add: serveTarget_def)

lemma wait_tables:
  "tables (fst (standard_wait c w ok n t sv)) = tables sv \<and> kind (snd (snd (standard_wait c w ok n t sv))) = Some (True, n)"
  "tables (fst (proxy_wait cfg i w ok1 ok2 n rp t sv)) = tables sv \<and>
   kind (snd (snd (proxy_wait cfg i w ok1 ok2 n rp t sv))) = Some (False, n)"
  by (auto simp: standard_wait_def proxy_wait_def standard_fail_def session_fail_def tables_replyCh tables_targetCh Let_def
      split: wait_event.split option.split)

lemma own_release_request:
  assumes "K i = Some (True, n)"
  shows "own_step (own_of sv K) (own_of (drop_request n sv) (K(i := None)))"
  using own_step.o_answer [of "own_of sv K" i n] assms
  by (simp add: own_of_def drop_request_def)

lemma own_release_session:
  assumes I: "own_inv (own_of sv K)" and K: "K i = Some (False, n)" and t: "tables sv' = tables sv"
  shows "own_step (own_of sv K) (own_of (drop_session n sv') (K(i := None)))"
proof -
  from own_session [OF I, of i n] K obtain s where s: "sv_sessions sv' n = Some s"
      "sv_sessions sv n \<noteq> None" using t
    by (auto simp: own_of_def tables_def fun_eq_iff dest!: spec [of _ n])
  have "own_of (drop_session n sv') (K(i := None)) = (own_of sv' K)\<lparr> ow_run := K(i := None),
      ow_px := (sv_proxies sv')(ps_connectID s := None) \<rparr>"
    by (simp add: own_of_def drop_session_def s)
  then show ?thesis
    using own_step.o_close [of "own_of sv' K" i n "ps_connectID s" "ps_requesterConn s"] K s
      own_of_tables [OF t, of K]
    by (simp add: own_of_def)
qed

lemma resume_tables:
  assumes "resume cd cfg ev c p sv = Some seg"
    and "case p of ReqStd t k ret name \<Rightarrow> False | ReqProxy rp t k name rc \<Rightarrow> False | StdEnd n res \<Rightarrow> False
      | PxEnd n res \<Rightarrow> False | _ \<Rightarrow> True"
  shows "tables (fst seg) = tables sv \<and> kind (snd (snd seg)) = kind p"
proof (cases p)
  case (RegReply t reply)
  then show ?thesis using assms(1) by (auto simp: resume_def register_replied_def split: event.splits)
next
  case (Serving t)
  then show ?thesis using assms(1) by (auto simp: resume_def serveTarget_tables split: event.splits)
next
  case (StdForward n t fwd)
  then show ?thesis using assms(1)
    by (auto simp: resume_def standard_forwarded_def standard_fail_def split: event.splits)
next
  case (PxForward n rp t fwd)
  then show ?thesis using assms(1)
    by (auto simp: resume_def proxy_forwarded_def session_fail_def split: event.splits)
next
  case (StdWait n t)
  then show ?thesis using assms(1) by (auto simp: resume_def wait_tables split: event.splits)
next
  case (PxWait n rp t)
  then show ?thesis using assms(1) by (auto simp: resume_def wait_tables split: event.splits)
next
  case (RcFound n)
  then show ?thesis using assms(1)
    by (auto simp: resume_def reverse_hand_def tables_targetCh split: event.splits option.splits)
next
  case (RcWait n)
  then show ?thesis using assms(1) by (auto simp: resume_def reverse_wait_def split: event.splits if_splits)
qed (use assms in \<open>auto simp: resume_def register_stored_def remove_stored_def splice_done_def split: event.splits\<close>)

lemma own_resume:
  assumes I: "own_inv (own_of sv K)" and room: "Suc (unat (sv_nextReq sv)) < 2 ^ 64" and K: "K (cn_id c) = kind p"
    and r: "resume cd cfg ev c p sv = Some seg"
  shows "own_step (own_of sv K) (own_of (fst seg) (K(cn_id c := kind (snd (snd seg)))))"
proof (cases p)
  case (ReqStd t k ret name)
  then show ?thesis using r K own_standard [OF room, of K "cn_id c"] by (auto simp: resume_def split: event.splits)
next
  case (ReqProxy rp t k name rc)
  then show ?thesis using r K own_proxyRelay [OF room, of K "cn_id c"] by (auto simp: resume_def split: event.splits)
next
  case (StdEnd n res)
  then show ?thesis using r K own_release_request [of K "cn_id c" n sv]
    by (auto simp: resume_def standard_end_def split: event.splits)
next
  case (PxEnd n res)
  then show ?thesis using r K own_release_session [OF I, of "cn_id c" n sv]
    by (auto simp: resume_def proxy_end_def split: event.splits)
qed (use own_skip [of seg sv K "cn_id c"] resume_tables [OF r] K in simp_all)

definition conn_ok :: "broker \<Rightarrow> bool" where
  "conn_ok b \<longleftrightarrow> (\<forall>i c p. b_run b i = Some (c, p) \<longrightarrow> cn_id c = i)"

definition broker_own :: "broker \<Rightarrow> ownership" where
  "broker_own b = own_of (b_sv b) (kinds b)"

lemma idle_kinds: "idle b i \<Longrightarrow> kinds b i = None"
proof (cases "b_run b i")
  case (Some cp)
  moreover assume "idle b i"
  ultimately show ?thesis by (cases cp; cases "snd cp") (auto simp: idle_def kinds_def)
qed (simp add: kinds_def)

lemma own_start:
  assumes "idle b (cn_id c) \<Longrightarrow> own_step (broker_own b) (own_of (fst (h (b_sv b)))
    ((kinds b)(cn_id c := kind (snd (snd (h (b_sv b)))))))" "conn_ok b"
  shows "own_step (broker_own b) (broker_own (start_handler c h b)) \<and> conn_ok (start_handler c h b)"
proof (cases "idle b (cn_id c)")
  case True
  obtain sv es p where h: "h (b_sv b) = (sv, es, p)" by (metis prod_cases3)
  then show ?thesis using assms True
    by (auto simp: start_handler_def commit_def broker_own_def conn_ok_def)
qed (use assms in \<open>auto simp: start_handler_def intro: own_step.o_skip\<close>)

lemma own_resume_handler:
  assumes I: "own_inv (broker_own b)" and ok: "conn_ok b" and room: "Suc (unat (sv_nextReq (b_sv b))) < 2 ^ 64"
  shows "own_step (broker_own b) (broker_own (resume_handler cd cfg ev i b)) \<and>
    conn_ok (resume_handler cd cfg ev i b)"
proof (cases rule: resume_handler_cases [of cd cfg ev i b])
  case stay
  then show ?thesis using ok by (auto intro: own_step.o_skip)
next
  case (run c p sv es q)
  have c: "cn_id c = i" using ok run(1) by (simp add: conn_ok_def)
  have "kinds b (cn_id c) = kind p" using run(1) c by (simp add: kinds_def)
  from own_resume [OF I [unfolded broker_own_def] room this run(2)] c show ?thesis
    unfolding run(3) broker_own_def using ok run(1) by (auto simp: conn_ok_def)
qed

lemma own_same:
  "tables sv = tables (b_sv b) \<Longrightarrow> own_step (broker_own b) (broker_own (b\<lparr> b_sv := sv, b_sweep := is \<rparr>))"
  "own_step (broker_own b) (broker_own (b\<lparr> b_sweep := is, b_trace := es \<rparr>))"
  "tables sv = tables (b_sv b) \<Longrightarrow> own_step (broker_own b) (broker_own (b\<lparr> b_sv := sv \<rparr>))"
  using own_of_tables [of sv "b_sv b" "kinds b"] own_step.o_skip by (simp_all add: broker_own_def)

text \<open>Every step of the broker is a step of the ownership machine.\<close>

lemma broker_refines:
  assumes I: "own_inv (broker_own b)" and ok: "conn_ok b" and rg: "in_range ev b"
  shows "own_step (broker_own b) (broker_own (broker_step cd cfg ev b)) \<and> conn_ok (broker_step cd cfg ev b)"
proof -
  have room: "Suc (unat (sv_nextReq (b_sv b))) < 2 ^ 64" using rg by (simp add: in_range_def)
  show ?thesis
  proof (cases ev)
    case (EvSweep now ids)
    have "tables (fst (SweepReconnects cfg now ids (b_sv b))) = tables (b_sv b)"
      by (simp add: SweepReconnects_def tables_def Let_def)
    then show ?thesis using EvSweep ok own_same(1) [of _ b]
      by (cases "SweepReconnects cfg now ids (b_sv b)") (auto simp: conn_ok_def intro: own_step.o_skip)
  next
    case EvSweepStore
    then show ?thesis using ok own_same(2) [of b] by (auto simp: conn_ok_def intro: own_step.o_skip split: list.split)
  next
    case (EvTunnelReady tc)
    then show ?thesis using ok own_same(3) [of "(b_sv b)\<lparr> sv_tunnelContact := tc \<rparr>" b]
      by (simp add: conn_ok_def tables_def)
  next
    case (EvRegister c ad cookie now)
    show ?thesis unfolding EvRegister broker_step.simps
      by (rule own_start [OF _ ok]) (unfold broker_own_def, rule own_begin [OF handleRegister_tables], rule idle_kinds)
  next
    case (EvReverseConnect c ad)
    show ?thesis unfolding EvReverseConnect broker_step.simps
      by (rule own_start [OF _ ok])
        (unfold broker_own_def, rule own_begin [OF handleReverseConnect_fst(3,2)], rule idle_kinds)
  next
    case (EvRequest c ad)
    show ?thesis unfolding EvRequest broker_step.simps
      by (rule own_start [OF _ ok])
        (unfold broker_own_def, rule own_begin [OF handleRequest_fst(3,2)], rule idle_kinds)
  next
    case (EvInboundRelay c meta gid)
    show ?thesis unfolding EvInboundRelay broker_step.simps
      by (rule own_start [OF _ ok])
        (unfold broker_own_def, rule own_begin [OF startInboundRelay_fst(3,2)], rule idle_kinds)
  qed (use own_resume_handler [OF I ok room] in simp_all)
qed

lemma load_tables: "loadReconnects cfg loaded empty_server = Some sv \<Longrightarrow> tables sv = tables empty_server"
  by (auto simp: loadReconnects_def tables_def Let_def split: if_splits option.splits)

lemma own_inv_start: "broker_start cfg b \<Longrightarrow> own_inv (broker_own b) \<and> conn_ok b"
proof -
  assume "broker_start cfg b"
  then obtain sv loaded where b: "b = \<lparr> b_sv = sv, b_run = Map.empty, b_sweep = [], b_trace = [] \<rparr>"
    and l: "loadReconnects cfg loaded empty_server = Some sv"
    by (auto simp: broker_start_def dest!: New_inv(2))
  have "broker_own b = own_of empty_server Map.empty"
    using own_of_tables [OF load_tables [OF l]] by (simp add: broker_own_def b kinds_def [abs_def])
  then show ?thesis by (simp add: own_inv_def own_of_def empty_server_def conn_ok_def b)
qed

interpretation ownership: invariant_machine "broker_start cfg" "broker_move cd cfg"
  "\<lambda>b. own_inv (broker_own b) \<and> conn_ok b" for cd cfg
  by unfold_locales
    (auto simp: own_inv_start broker_move.simps dest: broker_refines intro: own_inv_step)

end
