(* ===== verification/Ccb_Registry.thy ===== *)
theory Ccb_Registry
  imports Ccb_Broker
begin

text \<open>
  Properties of the broker's runs: registration and the reclaiming of ids, what the store of
  reconnect records knows at every moment (its calls are made outside the lock, so they trail the
  table) and what a restart from it gives, sweeping, two handlers for one id, and reverse
  connections that nobody waits for any more.
\<close>

section \<open>How the records evolve\<close>

lemma reg_invD:
  assumes "reg_inv sv"
  shows "sv_targets sv i = Some t \<Longrightarrow> t_id t = i"
    and "sv_targets sv i = Some t \<Longrightarrow> \<exists>r. sv_reconnects sv i = Some r \<and> rr_cookie r = t_cookie t"
    and "sv_reconnects sv i = Some r \<Longrightarrow> rr_ccbid r = i"
    and "sv_reconnects sv i = Some r \<Longrightarrow> unat i \<le> unat (sv_nextID sv)"
  using assms by (simp_all add: reg_inv_def)

lemma reg_inv_beyond:
  assumes "reg_inv sv" "unat (sv_nextID sv) < unat i"
  shows "sv_reconnects sv i = None \<and> sv_targets sv i = None"
proof -
  have "sv_reconnects sv i = None" using reg_invD(4) [OF assms(1), of i] assms(2) by (cases "sv_reconnects sv i") auto
  moreover from this have "sv_targets sv i = None"
    using reg_invD(2) [OF assms(1), of i] by (cases "sv_targets sv i") auto
  ultimately show ?thesis by simp
qed

text \<open>
  Two records of one id that entitle the same peers: they have the same cookie, and the same
  address where the address counts.
\<close>

definition agree :: "bconfig \<Rightarrow> ReconnectRecord \<Rightarrow> ReconnectRecord \<Rightarrow> bool" where
  "agree cfg r r' \<longleftrightarrow> rr_cookie r' = rr_cookie r \<and> (c_ReconnectAllowAnyIP cfg \<or> rr_peerIP r' = rr_peerIP r)"

lemma agree_refl [simp]: "agree cfg r r" "agree cfg r (r\<lparr> rr_updatedAt := t \<rparr>)"
  by (simp_all add: agree_def)

lemma agree_trans: "agree cfg r s \<Longrightarrow> agree cfg s t \<Longrightarrow> agree cfg r t"
  by (auto simp: agree_def)

text \<open>Without a sweep, a record stays and keeps entitling the same peers, and a new one has an id beyond the counter.\<close>

definition evolves :: "bconfig \<Rightarrow> server \<Rightarrow> server \<Rightarrow> bool" where
  "evolves cfg sv sv' \<longleftrightarrow> unat (sv_nextID sv) \<le> unat (sv_nextID sv') \<and>
     (\<forall>i r. sv_reconnects sv i = Some r \<longrightarrow> (\<exists>r'. sv_reconnects sv' i = Some r' \<and> agree cfg r r')) \<and>
     (\<forall>i r'. sv_reconnects sv i = None \<longrightarrow> sv_reconnects sv' i = Some r' \<longrightarrow> unat (sv_nextID sv) < unat i)"

lemma evolves_view: "reg_view sv' = reg_view sv \<Longrightarrow> evolves cfg sv sv'"
  by (auto simp: evolves_def reg_view_def)

lemma evolves_remove: "evolves cfg sv (fst (removeTarget i now sv))"
  by (auto simp: evolves_def removeTarget_def Let_def split: option.splits)

lemma evolves_register:
  assumes room: "Suc (unat (sv_nextID sv)) < 2 ^ 64" and I: "reg_inv sv"
  shows "evolves cfg sv (fst (handleRegister cd cfg c ad ck now sv))"
proof -
  obtain sv' es p where eq: "handleRegister cd cfg c ad ck now sv = (sv', es, p)" by (metis prod_cases3)
  from eq have "evolves cfg sv sv'"
  proof (cases rule: handleRegister_cases)
    case (reuse a i r)
    then show ?thesis by (auto simp: evolves_def agree_def)
  next
    case (fresh a ck')
    have n: "unat (sv_nextID sv + 1) = Suc (unat (sv_nextID sv))" using room by (simp add: unat_plus_one)
    then have "sv_reconnects sv (sv_nextID sv + 1) = None" using reg_inv_beyond [OF I] by simp
    then show ?thesis using n fresh(5) by (auto simp: evolves_def)
  qed (simp add: evolves_def)
  then show ?thesis by (simp add: eq)
qed

lemma evolves_resume: "resume cd cfg ev c p sv = Some seg \<Longrightarrow> evolves cfg sv (fst seg)"
  using resume_reg_view [of cd cfg ev c p sv seg] evolves_view evolves_remove by metis

lemma evolves_step:
  assumes I: "reg_inv (b_sv b)" and rg: "in_range ev b" and ev: "\<And>now ids. ev \<noteq> EvSweep now ids"
  shows "evolves cfg (b_sv b) (b_sv (broker_step cd cfg ev b))"
proof -
  have refl: "evolves cfg sv sv" for sv by (rule evolves_view) simp
  have res: "evolves cfg (b_sv b) (b_sv (resume_handler cd cfg ev i b))" for i
    by (cases rule: resume_handler_cases [of cd cfg ev i b]) (use refl evolves_resume in \<open>auto dest: evolves_resume\<close>)
  show ?thesis
  proof (cases ev)
    case (EvRegister c ad ck now)
    have "evolves cfg (b_sv b) (fst (handleRegister cd cfg c ad ck now (b_sv b)))"
      by (rule evolves_register [OF _ I]) (use rg in \<open>simp add: in_range_def\<close>)
    then show ?thesis using EvRegister refl by (simp add: start_handler_sv)
  next
    case EvSweepStore
    then show ?thesis using refl by (simp split: list.split)
  next
    case (EvTunnelReady tc)
    then show ?thesis by (simp add: evolves_view)
  qed (use res refl ev in \<open>simp_all add: start_handler_sv handleRequest_fst startInboundRelay_fst handleReverseConnect_fst\<close>)
qed

section \<open>What the store knows\<close>

definition trace_ops :: "effect list \<Rightarrow> store_op list" where
  "trace_ops es = concat (map (\<lambda>e. case e of StoreOp op \<Rightarrow> [op] | _ \<Rightarrow> []) es)"

lemma trace_ops_simps [simp]:
  "trace_ops [] = []" "trace_ops (es @ fs) = trace_ops es @ trace_ops fs"
  "trace_ops (SendAd i ad # es) = trace_ops es" "trace_ops (CloseConn i # es) = trace_ops es"
  "trace_ops (SendReverseConnect i k n a # es) = trace_ops es"
  by (simp_all add: trace_ops_def)

lemma trace_ops_storeOps [simp]: "trace_ops (storeOps cfg ops) = (if c_ReconnectStore cfg then ops else [])"
  by (induction ops) (auto simp: trace_ops_def storeOps_def)

lemma trace_ops_if [simp]: "trace_ops (if b then es else fs) = (if b then trace_ops es else trace_ops fs)"
  by simp

lemma silent_segments [simp]:
  "trace_ops (fst (snd (fail_request c msg sv))) = []"
  "trace_ops (fst (snd (proxyFail rp i msg sv))) = []"
  "trace_ops (fst (snd (standard_fail c msg n sv))) = []"
  "trace_ops (fst (snd (session_fail rp i msg n sv))) = []"
  "trace_ops (fst (snd (handleStandardRequest cd t k ret name sv))) = []"
  "trace_ops (fst (snd (proxyRelay cd cfg i rp t k name rc sv))) = []"
  "trace_ops (fst (snd (target_removed cfg j now res sv))) = []"
  by (simp_all add: fail_request_def proxyFail_def standard_fail_def session_fail_def handleStandardRequest_def
      proxyRelay_def target_removed_def Let_def split: prod.split option.split)

text \<open>The record a handler is about to put in the store.\<close>

fun pending_put :: "pc \<Rightarrow> ReconnectRecord set" where
  "pending_put (RegStore t r) = {r}"
| "pending_put (RemStore r res) = {r}"
| "pending_put _ = {}"

definition pending_puts :: "broker \<Rightarrow> ReconnectRecord set" where
  "pending_puts b = {r. \<exists>i c p. b_run b i = Some (c, p) \<and> r \<in> pending_put p}"

text \<open>The store has a call outstanding that concerns an id.\<close>

definition outstanding :: "broker \<Rightarrow> uint64 \<Rightarrow> bool" where
  "outstanding b i \<longleftrightarrow> (\<exists>r \<in> pending_puts b. rr_ccbid r = i)"

text \<open>An id whose first call of the store is still outstanding.\<close>

definition unstored :: "(uint64 \<rightharpoonup> ReconnectRecord) \<Rightarrow> broker \<Rightarrow> uint64 \<Rightarrow> bool" where
  "unstored tbl b i \<longleftrightarrow> tbl i = None \<and> (\<forall>r. Put r \<in> set (trace_ops (b_trace b)) \<longrightarrow> rr_ccbid r \<noteq> i) \<and> outstanding b i"

definition puts :: "store_op list \<Rightarrow> ReconnectRecord set" where
  "puts ops = {r. Put r \<in> set ops}"

lemma puts_simps [simp]: "puts [] = {}" "puts (a @ b) = puts a \<union> puts b" "puts [Put r] = {r}" "puts [Delete i] = {}"
  by (auto simp: puts_def)

definition key :: "ReconnectRecord \<Rightarrow> uint64 \<times> string \<times> string" where
  "key r = (rr_ccbid r, rr_cookie r, rr_peerIP r)"

lemma key_stamp [simp]: "key (r\<lparr> rr_updatedAt := t \<rparr>) = key r"
  by (simp add: key_def)

text \<open>
  What has reached the store or is on its way: the initial records, those of the operations made,
  and those about to be put.
\<close>

definition known :: "(uint64 \<rightharpoonup> ReconnectRecord) \<Rightarrow> broker \<Rightarrow> (uint64 \<times> string \<times> string) set" where
  "known tbl b = key ` (ran tbl \<union> puts (trace_ops (b_trace b)) \<union> pending_puts b)"

text \<open>
  Every known record of an id in the table agrees with the table, every id in the table is known,
  and no delete was issued for an id in the table.
\<close>

definition store_inv :: "bconfig \<Rightarrow> (uint64 \<rightharpoonup> ReconnectRecord) \<Rightarrow> broker \<Rightarrow> bool" where
  "store_inv cfg tbl b \<longleftrightarrow> reg_inv (b_sv b) \<and> (c_ReconnectStore cfg \<longrightarrow>
     (\<forall>i ck ip. (i, ck, ip) \<in> known tbl b \<longrightarrow> unat i \<le> unat (sv_nextID (b_sv b)) \<and>
        (\<forall>r. sv_reconnects (b_sv b) i = Some r \<longrightarrow> ck = rr_cookie r \<and> (c_ReconnectAllowAnyIP cfg \<or> ip = rr_peerIP r))) \<and>
     (\<forall>i r. sv_reconnects (b_sv b) i = Some r \<longrightarrow> i \<in> fst ` known tbl b) \<and>
     (\<forall>i. Delete i \<in> set (trace_ops (b_trace b)) \<or> i \<in> set (b_sweep b) \<longrightarrow>
        sv_reconnects (b_sv b) i = None \<and> unat i \<le> unat (sv_nextID (b_sv b))))"

lemma store_invI:
  assumes "reg_inv (b_sv b)"
    and "\<And>i ck ip. c_ReconnectStore cfg \<Longrightarrow> (i, ck, ip) \<in> known tbl b \<Longrightarrow> unat i \<le> unat (sv_nextID (b_sv b))"
    and "\<And>i ck ip r. c_ReconnectStore cfg \<Longrightarrow> (i, ck, ip) \<in> known tbl b \<Longrightarrow> sv_reconnects (b_sv b) i = Some r \<Longrightarrow>
      ck = rr_cookie r \<and> (c_ReconnectAllowAnyIP cfg \<or> ip = rr_peerIP r)"
    and "\<And>i r. c_ReconnectStore cfg \<Longrightarrow> sv_reconnects (b_sv b) i = Some r \<Longrightarrow> i \<in> fst ` known tbl b"
    and "\<And>i. c_ReconnectStore cfg \<Longrightarrow> Delete i \<in> set (trace_ops (b_trace b)) \<or> i \<in> set (b_sweep b) \<Longrightarrow>
      sv_reconnects (b_sv b) i = None \<and> unat i \<le> unat (sv_nextID (b_sv b))"
  shows "store_inv cfg tbl b"
  unfolding store_inv_def using assms by metis

lemma store_invD:
  assumes "store_inv cfg tbl b"
  shows "reg_inv (b_sv b)"
    and "c_ReconnectStore cfg \<Longrightarrow> (i, ck, ip) \<in> known tbl b \<Longrightarrow> unat i \<le> unat (sv_nextID (b_sv b))"
    and "c_ReconnectStore cfg \<Longrightarrow> (i, ck, ip) \<in> known tbl b \<Longrightarrow> sv_reconnects (b_sv b) i = Some r \<Longrightarrow>
      ck = rr_cookie r \<and> (c_ReconnectAllowAnyIP cfg \<or> ip = rr_peerIP r)"
    and "c_ReconnectStore cfg \<Longrightarrow> sv_reconnects (b_sv b) i = Some r \<Longrightarrow> i \<in> fst ` known tbl b"
    and "c_ReconnectStore cfg \<Longrightarrow> Delete i \<in> set (trace_ops (b_trace b)) \<or> i \<in> set (b_sweep b) \<Longrightarrow>
      sv_reconnects (b_sv b) i = None \<and> unat i \<le> unat (sv_nextID (b_sv b))"
  using assms unfolding store_inv_def by metis+

text \<open>
  What a segment does to the store: the record its handler was about to put is put, one it is
  about to put now is the one in the table, and a record that is new in the table is about to be
  put.
\<close>

definition stores :: "server \<Rightarrow> pc \<Rightarrow> segment \<Rightarrow> bool" where
  "stores sv p seg \<longleftrightarrow> (case seg of (sv', es, q) \<Rightarrow>
     key ` pending_put p = key ` puts (trace_ops es) \<and> (\<forall>i. Delete i \<notin> set (trace_ops es)) \<and>
     (\<forall>r \<in> pending_put q. sv_reconnects sv' (rr_ccbid r) = Some r) \<and>
     (\<forall>i r. sv_reconnects sv i = None \<longrightarrow> sv_reconnects sv' i = Some r \<longrightarrow> r \<in> pending_put q \<and> rr_ccbid r = i))"

lemma stores_silent:
  "pending_put p = {} \<Longrightarrow> trace_ops (fst (snd seg)) = [] \<Longrightarrow> pending_put (snd (snd seg)) = {} \<Longrightarrow>
   sv_reconnects (fst seg) = sv_reconnects sv \<Longrightarrow> stores sv p seg"
  by (cases seg) (simp add: stores_def)

lemma pending_puts_upd:
  assumes "b_run b' = (b_run b)(i \<mapsto> (c, q))"
  shows "pending_puts b' \<subseteq> pending_puts b \<union> pending_put q" "pending_put q \<subseteq> pending_puts b'"
    "pending_puts b \<subseteq> pending_puts b' \<union> (case b_run b i of None \<Rightarrow> {} | Some (_, p) \<Rightarrow> pending_put p)"
proof -
  show "pending_puts b' \<subseteq> pending_puts b \<union> pending_put q" "pending_put q \<subseteq> pending_puts b'"
    by (auto simp: pending_puts_def assms split: if_splits)
  show "pending_puts b \<subseteq> pending_puts b' \<union> (case b_run b i of None \<Rightarrow> {} | Some (_, p) \<Rightarrow> pending_put p)"
  proof
    fix r assume "r \<in> pending_puts b"
    then obtain j c' p where j: "b_run b j = Some (c', p)" "r \<in> pending_put p" by (auto simp: pending_puts_def)
    show "r \<in> pending_puts b' \<union> (case b_run b i of None \<Rightarrow> {} | Some (_, p) \<Rightarrow> pending_put p)"
    proof (cases "j = i")
      case False
      then have "b_run b' j = Some (c', p)" using j by (simp add: assms)
      then show ?thesis using j(2) unfolding pending_puts_def by blast
    qed (use j in simp)
  qed
qed

lemma store_inv_seg:
  assumes I: "store_inv cfg tbl b" and R: "reg_inv sv'" and ev: "evolves cfg (b_sv b) sv'"
    and st: "c_ReconnectStore cfg \<Longrightarrow> stores (b_sv b) p (sv', es, q)"
    and p: "pending_put p = (case b_run b i of None \<Rightarrow> {} | Some (_, p) \<Rightarrow> pending_put p)"
  shows "store_inv cfg tbl (b\<lparr> b_sv := sv', b_run := (b_run b)(i \<mapsto> (c, q)), b_trace := b_trace b @ es \<rparr>)"
    (is "store_inv cfg tbl ?b'")
proof (rule store_invI)
  assume on: "c_ReconnectStore cfg"
  note S = st [OF on, unfolded stores_def prod.case]
  note P = pending_puts_upd [of ?b' b i c q, simplified]
  have kp: "key ` pending_put p = key ` puts (trace_ops es)" using S by simp
  have pb: "pending_put p \<subseteq> pending_puts b"
    using p by (auto simp: pending_puts_def split: option.splits)
  have old: "known tbl b \<subseteq> known tbl ?b'"
    using image_mono [OF P(3), of key] kp p by (auto simp: known_def image_Un)
  have new: "known tbl ?b' \<subseteq> known tbl b \<union> key ` pending_put q"
    using image_mono [OF P(1), of key] image_mono [OF pb, of key] kp by (auto simp: known_def image_Un)
  have fresh: "unat (sv_nextID (b_sv b)) < unat j" if "sv_reconnects (b_sv b) j = None" "sv_reconnects sv' j = Some r" for j r
    using ev that by (auto simp: evolves_def)
  have mono: "unat (sv_nextID (b_sv b)) \<le> unat (sv_nextID sv')" using ev by (simp add: evolves_def)
  have pend: "sv_reconnects sv' j = Some r \<and> key r = (j, ck, ip)" if "(j, ck, ip) = key r" "r \<in> pending_put q" for j ck ip r
    using S that by (auto simp: key_def)
  show "unat j \<le> unat (sv_nextID (b_sv ?b'))" if "(j, ck, ip) \<in> known tbl ?b'" for j ck ip
    using subsetD [OF new that] store_invD(2) [OF I on] mono pend reg_invD(4) [OF R] by fastforce
  show "ck = rr_cookie r \<and> (c_ReconnectAllowAnyIP cfg \<or> ip = rr_peerIP r)"
    if k: "(j, ck, ip) \<in> known tbl ?b'" and r: "sv_reconnects (b_sv ?b') j = Some r" for j ck ip r
  proof (cases "(j, ck, ip) \<in> known tbl b")
    case True
    show ?thesis
    proof (cases "sv_reconnects (b_sv b) j")
      case None
      then show ?thesis using fresh [OF None] r store_invD(2) [OF I on True] by simp
    next
      case (Some r0)
      have "\<exists>r'. sv_reconnects sv' j = Some r' \<and> agree cfg r0 r'" using ev Some by (simp add: evolves_def)
      then show ?thesis using r store_invD(3) [OF I on True Some] by (auto simp: agree_def)
    qed
  next
    case False
    then show ?thesis using pend r k new by (auto simp: key_def)
  qed
  show "j \<in> fst ` known tbl ?b'" if r: "sv_reconnects (b_sv ?b') j = Some r" for j r
  proof (cases "sv_reconnects (b_sv b) j")
    case (Some r0)
    from store_invD(4) [OF I on this] image_mono [OF old, of fst] show ?thesis by blast
  next
    case None
    then have "r \<in> pending_put q" "rr_ccbid r = j" using S r by auto
    then have "key r \<in> known tbl ?b'" "fst (key r) = j" using P(2) by (auto simp: known_def key_def)
    then show ?thesis by (metis imageI)
  qed
  show "sv_reconnects (b_sv ?b') j = None \<and> unat j \<le> unat (sv_nextID (b_sv ?b'))"
    if d: "Delete j \<in> set (trace_ops (b_trace ?b')) \<or> j \<in> set (b_sweep ?b')" for j
  proof -
    have o: "sv_reconnects (b_sv b) j = None" "unat j \<le> unat (sv_nextID (b_sv b))"
      using store_invD(5) [OF I on, of j] d S by auto
    then show ?thesis using fresh [of j] mono by (cases "sv_reconnects sv' j") auto
  qed
qed (simp add: R)

lemma stores_register: "stores sv (Done res) (handleRegister cd cfg c ad ck now sv)"
proof -
  obtain sv' es p where eq: "handleRegister cd cfg c ad ck now sv = (sv', es, p)" by (metis prod_cases3)
  from eq have "stores sv (Done res) (sv', es, p)"
    by (cases rule: handleRegister_cases) (auto simp: stores_def split: if_splits)
  then show ?thesis by (simp add: eq)
qed

lemma stores_removed:
  assumes "reg_inv sv" "c_ReconnectStore cfg" "pending_put p = {}"
  shows "stores sv p (target_removed cfg i now res sv)"
  using assms by (auto simp: stores_def target_removed_def removeTarget_def Let_def reg_inv_def split: option.split)

lemma reconnects_view: "reg_view sv' = reg_view sv \<Longrightarrow> sv_reconnects sv' = sv_reconnects sv"
  by (simp add: reg_view_def)

lemma stores_resume:
  assumes on: "c_ReconnectStore cfg" and R: "reg_inv sv" and r: "resume cd cfg ev c p sv = Some seg"
  shows "stores sv p seg"
proof (cases p)
  case (RegStore t rec)
  then show ?thesis using r on by (auto simp: resume_def register_stored_def stores_def split: event.splits)
next
  case (RemStore rec res)
  then show ?thesis using r on by (auto simp: resume_def remove_stored_def stores_def split: event.splits)
next
  case (RegReply t reply)
  then obtain ok now where seg: "seg = register_replied cfg ok now t reply sv"
    using r by (auto simp: resume_def split: event.splits)
  show ?thesis
    by (cases ok) (auto simp: seg register_replied_def RegReply intro: stores_silent stores_removed [OF R on])
next
  case (Serving t)
  then obtain ad now where seg: "seg = serveTarget cd cfg ad now t sv"
    using r by (auto simp: resume_def split: event.splits)
  show ?thesis
  proof (cases ad)
    case None
    then show ?thesis using stores_removed [OF R on] Serving by (simp add: seg serveTarget_def)
  next
    case (Some a)
    then show ?thesis unfolding seg by (intro stores_silent reconnects_view) (simp_all add: Serving serveTarget_def split: prod.split)
  qed
qed (use r in \<open>auto simp: resume_def standard_forwarded_def standard_wait_def proxy_forwarded_def proxy_wait_def
    splice_done_def standard_end_def proxy_end_def reverse_hand_def reverse_wait_def
    standard_fail_def session_fail_def handleStandardRequest_def proxyRelay_def proxyFail_def Let_def
    intro!: stores_silent reconnects_view
    split: event.splits option.splits wait_event.splits if_splits\<close>)


lemma idle_pending: "idle b i \<Longrightarrow> (case b_run b i of None \<Rightarrow> {} | Some (_, p) \<Rightarrow> pending_put p) = pending_put (Done HNil)"
proof (cases "b_run b i")
  case (Some cp)
  moreover assume "idle b i"
  ultimately show ?thesis by (cases cp; cases "snd cp") (auto simp: idle_def)
qed simp

lemma store_inv_start_handler:
  assumes I: "store_inv cfg tbl b" and R: "reg_inv (b_sv (start_handler c h b))"
    and ev: "evolves cfg (b_sv b) (fst (h (b_sv b)))" and st: "stores (b_sv b) (Done HNil) (h (b_sv b))"
  shows "store_inv cfg tbl (start_handler c h b)"
proof (cases "idle b (cn_id c)")
  case True
  obtain sv es q where h: "h (b_sv b) = (sv, es, q)" by (metis prod_cases3)
  have "pending_put (Done HNil) = (case b_run b (cn_id c) of None \<Rightarrow> {} | Some (_, p) \<Rightarrow> pending_put p)"
    by (rule idle_pending [OF True, symmetric])
  from store_inv_seg [OF I _ _ _ this, of sv es q c] R ev st True h show ?thesis
    by (simp add: start_handler_def commit_def)
qed (use I in \<open>simp add: start_handler_def\<close>)

lemma store_inv_resume_handler:
  assumes I: "store_inv cfg tbl b" and R: "reg_inv (b_sv (resume_handler cd cfg ev i b))"
  shows "store_inv cfg tbl (resume_handler cd cfg ev i b)"
proof (cases rule: resume_handler_cases [of cd cfg ev i b])
  case (run c p sv es q)
  have "pending_put p = (case b_run b i of None \<Rightarrow> {} | Some (_, p) \<Rightarrow> pending_put p)" using run(1) by simp
  from store_inv_seg [OF I _ _ _ this, of sv es q c] R evolves_resume [OF run(2)]
    stores_resume [OF _ store_invD(1) [OF I] run(2)] show ?thesis by (simp add: run(3))
qed (simp add: I)

lemma stores_begin:
  "stores sv (Done HNil) (handleRequest cd cfg c ad sv)" "stores sv (Done HNil) (startInboundRelay cfg i meta gid sv)"
  "stores sv (Done HNil) (handleReverseConnect cd ad sv)"
proof -
  show "stores sv (Done HNil) (handleRequest cd cfg c ad sv)"
    by (cases rule: handleRequest_cases [of ad cd cfg c sv]) (simp_all add: stores_silent fail_request_def)
  show "stores sv (Done HNil) (startInboundRelay cfg i meta gid sv)"
    by (cases rule: startInboundRelay_cases [of cfg i meta gid sv]) (simp_all add: stores_silent)
  show "stores sv (Done HNil) (handleReverseConnect cd ad sv)"
    by (simp add: handleReverseConnect_def stores_silent split: option.split)
qed

lemma store_inv_sweep:
  assumes I: "store_inv cfg tbl b" and s: "SweepReconnects cfg now ids (b_sv b) = (sv, stale)" and b: "b_sweep b = []"
  shows "store_inv cfg tbl (b\<lparr> b_sv := sv, b_sweep := stale \<rparr>)"
proof -
  have sv: "sv_nextID sv = sv_nextID (b_sv b)" "set stale \<subseteq> dom (sv_reconnects (b_sv b))"
    "sv_reconnects sv = (\<lambda>i. if i \<in> set stale then None else sv_reconnects (b_sv b) i)"
    using s by (auto simp: SweepReconnects_def stale_ids_def foldl_none Let_def split: option.splits)
  have k: "known tbl (b\<lparr> b_sv := sv, b_sweep := stale \<rparr>) = known tbl b" by (simp add: known_def pending_puts_def)
  have R: "reg_inv sv" using reg_inv_sweep [OF store_invD(1) [OF I], of cfg now ids] s by simp
  show ?thesis
    by (rule store_invI) (use R sv b store_invD [OF I] reg_invD(4) [OF store_invD(1) [OF I]] in \<open>auto simp: k split: if_splits\<close>)
qed

lemma store_inv_step:
  assumes I: "store_inv cfg tbl b" and rg: "in_range ev b"
  shows "store_inv cfg tbl (broker_step cd cfg ev b)"
proof -
  note R0 = store_invD(1) [OF I]
  note R = reg_inv_step [OF R0 rg, of cd cfg]
  have refl: "evolves cfg sv sv" for sv by (rule evolves_view) simp
  show ?thesis
  proof (cases ev)
    case (EvSweep now ids)
    then show ?thesis using I store_inv_sweep [OF I]
      by (cases "SweepReconnects cfg now ids (b_sv b)") simp
  next
    case EvSweepStore
    show ?thesis
    proof (cases "b_sweep b")
      case (Cons i "is")
      let ?b' = "b\<lparr> b_sweep := is, b_trace := b_trace b @ storeOps cfg [Delete i] \<rparr>"
      have k: "known tbl ?b' = known tbl b" by (simp add: known_def pending_puts_def)
      have "store_inv cfg tbl ?b'"
        by (rule store_invI) (use store_invD [OF I] Cons in \<open>auto simp: k\<close>)
      then show ?thesis using EvSweepStore Cons by simp
    qed (use I EvSweepStore in simp)
  next
    case (EvTunnelReady tc)
    have k: "known tbl (b\<lparr> b_sv := (b_sv b)\<lparr> sv_tunnelContact := tc \<rparr> \<rparr>) = known tbl b" by (simp add: known_def pending_puts_def)
    have "store_inv cfg tbl (b\<lparr> b_sv := (b_sv b)\<lparr> sv_tunnelContact := tc \<rparr> \<rparr>)"
      by (rule store_invI) (use store_invD [OF I] in \<open>auto simp: k reg_inv_def\<close>)
    then show ?thesis using EvTunnelReady by simp
  next
    case (EvRegister c ad ck now)
    have "evolves cfg (b_sv b) (fst (handleRegister cd cfg c ad ck now (b_sv b)))"
      by (rule evolves_register [OF _ R0]) (use rg in \<open>simp add: in_range_def\<close>)
    then show ?thesis using R EvRegister by (simp add: store_inv_start_handler [OF I] stores_register)
  qed (use R refl in \<open>simp_all add: store_inv_start_handler [OF I] store_inv_resume_handler [OF I] stores_begin
      handleRequest_fst startInboundRelay_fst handleReverseConnect_fst\<close>)
qed

text \<open>The machine with a fixed initial table, the one the records were loaded into.\<close>

definition started_with :: "bconfig \<Rightarrow> (uint64 \<rightharpoonup> ReconnectRecord) \<Rightarrow> broker \<Rightarrow> bool" where
  "started_with cfg tbl b \<longleftrightarrow> broker_start cfg b \<and> sv_reconnects (b_sv b) = tbl"

lemma keyed_reg: "reg_inv sv \<Longrightarrow> keyed (sv_reconnects sv)"
  by (auto simp: keyed_def dest: reg_invD(3))

lemma started_keyed: "started_with cfg tbl b \<Longrightarrow> keyed tbl"
  using keyed_reg [OF reg_inv_start] by (auto simp: started_with_def)

interpretation stored: invariant_machine "started_with cfg tbl" "broker_move cd cfg" "store_inv cfg tbl" for cd cfg tbl
proof unfold_locales
  fix b assume "started_with cfg tbl b"
  then have R: "reg_inv (b_sv b)" and b: "b_trace b = []" "b_run b = Map.empty" "b_sweep b = []" "sv_reconnects (b_sv b) = tbl"
    by (auto simp: started_with_def intro: reg_inv_start) (auto simp: broker_start_def)
  have k: "known tbl b = key ` ran tbl" by (simp add: known_def pending_puts_def b)
  show "store_inv cfg tbl b"
    by (rule store_invI) (use R reg_invD(3,4) [OF R] b in \<open>auto simp: k key_def ran_def image_iff\<close>)
qed (auto simp: broker_move.simps intro: store_inv_step)

text \<open>Loading the records of a table gives the table back, with the counter beyond every id in it.\<close>

lemma foldl_upd_dom:
  "(foldl (\<lambda>m r. m(rr_ccbid r \<mapsto> r)) m0 rs i \<noteq> None) \<longleftrightarrow> i \<in> rr_ccbid ` set rs \<or> m0 i \<noteq> None"
proof (induction rs arbitrary: m0)
  case (Cons a rs)
  show ?case using Cons.IH [of "m0(rr_ccbid a \<mapsto> a)"] by auto
qed simp

lemma foldl_upd_load:
  assumes k: "keyed tbl" and rs: "set rs = ran tbl"
  shows "foldl (\<lambda>m r. m(rr_ccbid r \<mapsto> r)) Map.empty rs = tbl"
proof (rule ext)
  fix i
  let ?m = "foldl (\<lambda>m r. m(rr_ccbid r \<mapsto> r)) Map.empty rs"
  have key: "tbl i = Some r" if "r \<in> set rs" "rr_ccbid r = i" for r
    using that k by (auto simp: rs ran_def keyed_def)
  show "?m i = tbl i"
  proof (cases "?m i")
    case (Some r)
    then show ?thesis using key foldl_upd_ran [OF Some] by auto
  next
    case None
    then have "i \<notin> rr_ccbid ` set rs" using foldl_upd_dom [of Map.empty rs i] by auto
    then show ?thesis using None k by (cases "tbl i") (auto simp: rs ran_def keyed_def)
  qed
qed

lemma loadReconnects_table:
  assumes "keyed tbl" "set rs = ran tbl" "c_ReconnectStore cfg"
    and small: "\<forall>i \<in> dom tbl. unat i + 100 < 2 ^ 64"
  shows "\<exists>sv. loadReconnects cfg (Some rs) empty_server = Some sv \<and> sv_reconnects sv = tbl \<and>
    sv_targets sv = Map.empty \<and> (\<forall>i \<in> dom tbl. i \<noteq> 0 \<longrightarrow> unat i + 100 \<le> unat (sv_nextID sv))"
proof -
  define m where "m = foldl (\<lambda>m r. if rr_ccbid r > m then rr_ccbid r else m) 0 rs"
  have ids: "rr_ccbid ` set rs = dom tbl" using assms(1) by (force simp: assms(2) ran_def dom_def keyed_def)
  have "unat i + 100 \<le> unat (if m > 0 then m + 100 else 0)" if i: "i \<in> dom tbl" "i \<noteq> 0" for i
  proof -
    from i(1) obtain r where r: "r \<in> set rs" "rr_ccbid r = i" using ids by (metis imageE)
    then have le: "i \<le> m" using foldl_max_ge [of 0 rs] by (auto simp: m_def)
    then have pos: "m > 0" using i(2) by (metis word_gt_0 word_le_0_iff)
    then have "m \<in> dom tbl" using foldl_max_in [of 0 rs] ids by (auto simp: m_def)
    then have "unat (m + 100) = unat m + 100" using small by (simp add: unat_word_ariths)
    then show ?thesis using le pos by (simp add: word_le_nat_alt)
  qed
  moreover have "loadReconnects cfg (Some rs) empty_server =
    Some (empty_server\<lparr> sv_reconnects := tbl, sv_nextID := (if m > 0 then m + 100 else 0) \<rparr>)"
    using foldl_upd_load [OF assms(1,2)] assms(3)
    by (simp add: loadReconnects_def Let_def empty_server_def m_def [symmetric])
  ultimately show ?thesis by (simp add: empty_server_def)
qed


section \<open>A concrete cedar\<close>

text \<open>
  An instance of the cedar functions for the examples: ads are field functions, a contact is
  split at its last \<open>#\<close>, and a sinful is bracketed.
\<close>

type_synonym demo_ad = "attr \<Rightarrow> string"

definition demo_cedar :: "demo_ad cedar" where
  "demo_cedar = \<lparr> AdString = (\<lambda>ad a. ad a), AdBool = (\<lambda>ad a. (ad a = ''true'', ad a \<noteq> [])),
     AdInt = (\<lambda>ad a. (case parseUint (ad a) of None \<Rightarrow> (0, False) | Some n \<Rightarrow> (uint n, True))),
     commandNum = (\<lambda>c. case c of CommandRegister \<Rightarrow> 67 | CommandRequest \<Rightarrow> 68 | CommandReverseConnect \<Rightarrow> 69
        | CommandProxyConnect \<Rightarrow> 70 | CommandGetTunnelAddress \<Rightarrow> 71 | CommandAlive \<Rightarrow> 441),
     SplitCCBContact = (\<lambda>s. case cutLast (CHR ''#'') s of None \<Rightarrow> ([], [], False) | Some (a, i) \<Rightarrow> (a, i, True)),
     ContactString = (\<lambda>a i. a @ ''#'' @ formatUint (unat i)),
     sinfulIsCCB = (\<lambda>s. CHR ''#'' \<in> set s),
     ParseSinful = splitHostPort \<rparr>"

definition demo_conn :: "nat \<Rightarrow> ccb_conn" where
  "demo_conn i = \<lparr> cn_id = i, cn_remoteAddr = ''10.0.0.7:4000'', cn_user = ''condor@pool'' \<rparr>"

definition demo_fields :: "(attr \<times> string) list \<Rightarrow> demo_ad" where
  "demo_fields fs = (\<lambda>a. case map_of fs a of Some s \<Rightarrow> s | None \<Rightarrow> [])"

definition demo_cfg :: bconfig where
  "demo_cfg = with_defaults example_bconfig"

definition demo_start :: broker where
  "demo_start = \<lparr> b_sv = empty_server, b_run = Map.empty, b_sweep = [], b_trace = [] \<rparr>"

definition demo_run :: "demo_ad event list \<Rightarrow> broker" where
  "demo_run evs = foldl (\<lambda>b ev. broker_step demo_cedar demo_cfg ev b) demo_start evs"

lemma demo_start_ok: "broker_start demo_cfg demo_start"
proof -
  have "New example_bconfig (Some []) = Inr (demo_cfg, None, NextHop ''<exit.example:9618>'' (60 * 10 ^ 9) False, empty_server)"
    by (simp add: New_def New_config_def example_bconfig_def demo_cfg_def with_defaults_def detectCarrier_def
        choose_outbound_def isCarrier_def parseCarrierRef_def cutPrefix_def hasPrefix_def trimSpace_def
        trim_def trimWith_def isSpace_def proxyAddrSinful_def loadReconnects_def empty_server_def Let_def)
  then show ?thesis unfolding broker_start_def demo_start_def
    by (intro exI [of _ example_bconfig] exI [of _ "Some []"] exI conjI) (assumption | simp)+
qed

text \<open>A run without sweeps whose counters stay small, in a form that evaluates.\<close>

fun small_run :: "demo_ad event list \<Rightarrow> broker \<Rightarrow> bool" where
  "small_run [] b = True"
| "small_run (ev # evs) b \<longleftrightarrow> sv_nextID (b_sv b) < 1000 \<and> sv_nextReq (b_sv b) < 1000 \<and>
     (case ev of EvSweep _ _ \<Rightarrow> False | _ \<Rightarrow> True) \<and> small_run evs (broker_step demo_cedar demo_cfg ev b)"

lemma small_in_range:
  "sv_nextID (b_sv b) < 1000 \<Longrightarrow> sv_nextReq (b_sv b) < 1000 \<Longrightarrow> (case ev of EvSweep _ _ \<Rightarrow> False | _ \<Rightarrow> True) \<Longrightarrow>
   in_range ev b"
  by (auto simp: in_range_def word_less_nat_alt split: event.splits)

lemma small_reach_from:
  "reach start (broker_move demo_cedar demo_cfg) b \<Longrightarrow> small_run evs b \<Longrightarrow>
   reach start (broker_move demo_cedar demo_cfg) (foldl (\<lambda>b ev. broker_step demo_cedar demo_cfg ev b) b evs)"
proof (induction evs arbitrary: b)
  case (Cons ev evs)
  from Cons.prems have "reach start (broker_move demo_cedar demo_cfg) (broker_step demo_cedar demo_cfg ev b)"
    by (auto intro: reach_step broker_move.move small_in_range)
  with Cons show ?case by simp
qed simp

lemma demo_reach:
  "small_run evs demo_start \<Longrightarrow> reach (broker_start demo_cfg) (broker_move demo_cedar demo_cfg) (demo_run evs)"
  unfolding demo_run_def by (intro small_reach_from reach_start demo_start_ok)

section \<open>Properties of registration\<close>

text \<open>The counter never goes back, so an id beyond it was never in use before.\<close>

lemma broker_nextID_mono:
  assumes "reach (broker_start cfg) (broker_move cd cfg) b0" "reach (\<lambda>x. x = b0) (broker_move cd cfg) b"
  shows "reach (broker_start cfg) (broker_move cd cfg) b \<and> unat (sv_nextID (b_sv b0)) \<le> unat (sv_nextID (b_sv b))"
  using assms(2)
proof (induction rule: reach.induct)
  case (reach_start s)
  then show ?case using assms(1) by simp
next
  case (reach_step s t)
  then have s: "reach (broker_start cfg) (broker_move cd cfg) s" by simp
  from reach_step(2) obtain ev where ev: "in_range ev s" "t = broker_step cd cfg ev s" by (auto simp: broker_move.simps)
  have "unat (sv_nextID (b_sv s)) \<le> unat (sv_nextID (b_sv t))"
  proof (cases "\<exists>now ids. ev = EvSweep now ids")
    case True
    then show ?thesis by (auto simp: ev(2) SweepReconnects_def Let_def)
  next
    case False
    then show ?thesis using evolves_step [OF registry.reach_inv [OF s] ev(1), of cfg cd] ev(2) by (simp add: evolves_def)
  qed
  moreover have "reach (broker_start cfg) (broker_move cd cfg) t" using s reach_step(2) by (rule reach.reach_step)
  ultimately show ?case using reach_step(3) by simp
qed

text \<open>
  C15. A target can always reclaim its id. In every run every live target stands under its own id,
  which is not beyond the counter, with a reconnect record that has the target's own cookie; and
  whatever happens next, the end of the target's connection included, every record stays, with the
  same cookie and, where the address counts, the same address, unless a sweep finds that no target
  is live under the id and that the record was last stamped more than the time to live ago.
\<close>

theorem live_target_recorded:
  fixes cd :: "'ad cedar"
  shows "reach (broker_start cfg) (broker_move cd cfg) b \<Longrightarrow>
   (\<forall>i t. sv_targets (b_sv b) i = Some t \<longrightarrow> t_id t = i \<and> unat i \<le> unat (sv_nextID (b_sv b)) \<and>
      (\<exists>r. sv_reconnects (b_sv b) i = Some r \<and> rr_ccbid r = i \<and> rr_cookie r = t_cookie t)) \<and>
   (\<forall>(ev :: 'ad event) i r. in_range ev b \<longrightarrow> sv_reconnects (b_sv b) i = Some r \<longrightarrow>
      (\<exists>r'. sv_reconnects (b_sv (broker_step cd cfg ev b)) i = Some r' \<and> rr_cookie r' = rr_cookie r \<and>
         (c_ReconnectAllowAnyIP cfg \<or> rr_peerIP r' = rr_peerIP r)) \<or>
      (\<exists>now ids. ev = EvSweep now ids \<and> sv_targets (b_sv b) i = None \<and> rr_updatedAt r + c_ReconnectTTL cfg < now))"
proof (intro conjI allI impI)
  assume "reach (broker_start cfg) (broker_move cd cfg) b"
  note I = registry.reach_inv [OF this]
  show "t_id t = i" "unat i \<le> unat (sv_nextID (b_sv b))" 
    "\<exists>r. sv_reconnects (b_sv b) i = Some r \<and> rr_ccbid r = i \<and> rr_cookie r = t_cookie t"
    if "sv_targets (b_sv b) i = Some t" for i t
    using reg_invD [OF I] that by blast+
  fix ev :: "'ad event" and i r assume rg: "in_range ev b" and r: "sv_reconnects (b_sv b) i = Some r"
  show "(\<exists>r'. sv_reconnects (b_sv (broker_step cd cfg ev b)) i = Some r' \<and> rr_cookie r' = rr_cookie r \<and>
         (c_ReconnectAllowAnyIP cfg \<or> rr_peerIP r' = rr_peerIP r)) \<or>
      (\<exists>now ids. ev = EvSweep now ids \<and> sv_targets (b_sv b) i = None \<and> rr_updatedAt r + c_ReconnectTTL cfg < now)"
  proof (cases "\<exists>now ids. ev = EvSweep now ids")
    case True
    then show ?thesis using r by (auto simp: SweepReconnects_def stale_ids_def foldl_none Let_def)
  next
    case False
    then show ?thesis using evolves_step [OF I rg, of cfg cd] r by (auto simp: evolves_def agree_def)
  qed
qed

text \<open>A run in which a target registers, loses its connection, and registers again with its id.\<close>

definition reg_ad :: demo_ad where
  "reg_ad = demo_fields [(AttrName, ''startd'')]"

definition again_ad :: demo_ad where
  "again_ad = demo_fields [(AttrName, ''startd''), (AttrCCBID, ''ccb.example:9618#1''), (AttrClaimID, ''cookie'')]"

definition demo_reconnect :: "demo_ad event list" where
  "demo_reconnect = [EvRegister (demo_conn 1) (Some reg_ad) (Some ''cookie'') 0, EvStored 1 0, EvWritten 1 True 0,
     EvRegister (demo_conn 2) (Some again_ad) None 5, EvStored 2 5, EvWritten 2 True 5]"

lemma demo_reconnect_reach:
  "reach (broker_start demo_cfg) (broker_move demo_cedar demo_cfg) (demo_run demo_reconnect)"
  by (rule demo_reach) code_simp

theorem live_target_recorded_witness:
  "\<exists>t r'. sv_targets (b_sv (demo_run demo_reconnect)) 1 = Some t \<and> t_id t = 1 \<and> t_conn t = 2 \<and>
     sv_reconnects (b_sv (broker_step demo_cedar demo_cfg (EvServe 2 None 9) (demo_run demo_reconnect))) 1 = Some r' \<and>
     rr_cookie r' = t_cookie t"
proof -
  let ?b = "demo_run demo_reconnect"
  have t: "sv_targets (b_sv ?b) 1 = Some \<lparr> t_id = 1, t_name = ''startd'', t_cookie = ''cookie'', t_conn = 2 \<rparr>" by code_simp
  have "small_run [EvServe 2 None 9] ?b" by code_simp
  then have rg: "in_range (EvServe 2 None 9 :: demo_ad event) ?b" by (auto intro: small_in_range)
  note L = live_target_recorded [OF demo_reconnect_reach]
  from conjunct1 [OF L, rule_format, OF t] obtain r where r: "sv_reconnects (b_sv ?b) 1 = Some r" "rr_cookie r = ''cookie''" by auto
  from conjunct2 [OF L, rule_format, OF rg r(1)] t r(2) show ?thesis by auto
qed

text \<open>
  C2. An id is never taken over. A registration that is accepted comes from an authorized peer
  and gets either an id that in the whole run so far, from its start with the records loaded from
  the store, no record and no target has had, with the cookie just generated, or the id of a
  record whose (non-empty) cookie it presented, from the recorded peer address unless any address
  is allowed; it is then the live target under that id, the reply carries that id and its cookie,
  and no other target and no other record changes.
\<close>

theorem register_entitled:
  "reach (broker_start cfg) (broker_move cd cfg) b0 \<Longrightarrow> reach (\<lambda>x. x = b0) (broker_move cd cfg) b \<Longrightarrow>
   Suc (unat (sv_nextID (b_sv b))) < 2 ^ 64 \<Longrightarrow>
   handleRegister cd cfg c ad ck now (b_sv b) = (sv', es, RegStore t rec) \<Longrightarrow>
   authorize cfg c CommandRegister \<and> sv_targets sv' (t_id t) = Some t \<and> t_conn t = cn_id c \<and>
   sv_reconnects sv' (t_id t) = Some rec \<and> rr_cookie rec = t_cookie t \<and>
   (\<forall>stamp sv2. \<exists>reply. snd (snd (register_stored cd cfg stamp t rec sv2)) = RegReply t reply \<and>
      (AttrCCBID, VStr (contactString cd cfg sv2 (t_id t))) \<in> set reply \<and> (AttrClaimID, VStr (t_cookie t)) \<in> set reply) \<and>
   (\<forall>j. j \<noteq> t_id t \<longrightarrow> sv_targets sv' j = sv_targets (b_sv b) j \<and>
      sv_reconnects sv' j = sv_reconnects (b_sv b) j) \<and>
   (sv_reconnects (b_sv b0) (t_id t) = None \<and> sv_targets (b_sv b0) (t_id t) = None \<and>
    sv_reconnects (b_sv b) (t_id t) = None \<and> ck = Some (t_cookie t) \<or>
    (\<exists>a r. ad = Some a \<and> sv_reconnects (b_sv b) (t_id t) = Some r \<and> rr_cookie r = t_cookie t \<and>
       AdString cd a AttrClaimID = rr_cookie r \<and> rr_cookie r \<noteq> [] \<and>
       (c_ReconnectAllowAnyIP cfg \<or> rr_peerIP r = peerIPString c)))"
proof -
  assume r0: "reach (broker_start cfg) (broker_move cd cfg) b0" and r: "reach (\<lambda>x. x = b0) (broker_move cd cfg) b"
    and room: "Suc (unat (sv_nextID (b_sv b))) < 2 ^ 64"
    and h: "handleRegister cd cfg c ad ck now (b_sv b) = (sv', es, RegStore t rec)"
  from broker_nextID_mono [OF r0 r] have I: "reg_inv (b_sv b)" and m: "unat (sv_nextID (b_sv b0)) \<le> unat (sv_nextID (b_sv b))"
    using registry.reach_inv by auto
  have rep: "\<exists>reply. snd (snd (register_stored cd cfg stamp t rec sv2)) = RegReply t reply \<and>
      (AttrCCBID, VStr (contactString cd cfg sv2 (t_id t))) \<in> set reply \<and> (AttrClaimID, VStr (t_cookie t)) \<in> set reply" for stamp sv2
    by (simp add: register_stored_def)
  from h show ?thesis
  proof (cases rule: handleRegister_cases)
    case (fresh a ck')
    have n: "unat (sv_nextID (b_sv b) + 1) = Suc (unat (sv_nextID (b_sv b)))" using room by (simp add: unat_plus_one)
    then have "sv_reconnects (b_sv b) (sv_nextID (b_sv b) + 1) = None"
      "sv_reconnects (b_sv b0) (sv_nextID (b_sv b) + 1) = None" "sv_targets (b_sv b0) (sv_nextID (b_sv b) + 1) = None"
      using reg_inv_beyond [OF I] reg_inv_beyond [OF registry.reach_inv [OF r0]] m by auto
    then show ?thesis using fresh rep by simp
  next
    case (reuse a i r)
    then show ?thesis using rep by simp
  qed simp
qed

lemma demo_from_start:
  "reach (\<lambda>x. x = demo_start) (broker_move demo_cedar demo_cfg) (demo_run demo_reconnect)"
proof -
  have "small_run demo_reconnect demo_start" by code_simp
  then show ?thesis unfolding demo_run_def by (intro small_reach_from reach_start) simp
qed

theorem register_entitled_witness:
  "\<exists>sv' es t rec. handleRegister demo_cedar demo_cfg (demo_conn 3) (Some again_ad) None 9
     (b_sv (demo_run demo_reconnect)) = (sv', es, RegStore t rec) \<and> t_id t = 1 \<and>
     sv_targets sv' 1 = Some t \<and> t_conn t = 3"
proof -
  let ?b = "demo_run demo_reconnect"
  let ?h = "handleRegister demo_cedar demo_cfg (demo_conn 3) (Some again_ad) None 9 (b_sv ?b)"
  obtain sv' es p where h: "?h = (sv', es, p)" by (metis prod_cases3)
  have "(case snd (snd ?h) of RegStore t rec \<Rightarrow> t_id t = 1 | _ \<Rightarrow> False)" by code_simp
  then obtain t rec where p: "p = RegStore t rec" "t_id t = 1" using h by (cases p) auto
  have s: "reach (broker_start demo_cfg) (broker_move demo_cedar demo_cfg) demo_start" by (rule reach_start) (rule demo_start_ok)
  have "sv_nextID (b_sv ?b) = 1" by code_simp
  then have "Suc (unat (sv_nextID (b_sv ?b))) < 2 ^ 64" by simp
  from register_entitled [OF s demo_from_start this h [unfolded p(1)]] p h show ?thesis
    by (auto simp: demo_conn_def)
qed

text \<open>
  C33. Reclaiming works: a target that presents the contact it was given, whatever tunnel prefix
  it carried, together with its cookie, from the recorded address (or from any, where that is
  allowed), gets its id back with the cookie unchanged and no new id is used up, in whatever
  state the broker is as long as the record is still there, and the reply confirms the id. The
  hypotheses on the two cedar functions are that a contact is an address and an id joined by \<open>#\<close>,
  and that splitting one separates the id.
\<close>

theorem reclaim_id:
  assumes contact: "\<And>addr i. ContactString cd addr i = addr @ ''#'' @ formatUint (unat i)"
    and split: "\<And>addr (i :: uint64).
      SplitCCBContact cd (addr @ ''#'' @ formatUint (unat i)) = (addr, formatUint (unat i), True)"
    and rec: "sv_reconnects sv i = Some r" "rr_cookie r \<noteq> []"
    and auth: "authorize cfg c CommandRegister"
    and ip: "c_ReconnectAllowAnyIP cfg \<or> rr_peerIP r = peerIPString c"
    and ad: "AdString cd a AttrCCBID = contactString cd cfg sv0 i" "AdString cd a AttrClaimID = rr_cookie r"
  shows "\<exists>sv' es rec t. handleRegister cd cfg c (Some a) ck now sv = (sv', es, RegStore t rec) \<and>
    t_id t = i \<and> t_cookie t = rr_cookie r \<and> sv_targets sv' i = Some t \<and> t_conn t = cn_id c \<and>
    sv_nextID sv' = sv_nextID sv \<and>
    (\<forall>stamp sv2. \<exists>reply. snd (snd (register_stored cd cfg stamp t rec sv2)) = RegReply t reply \<and>
       (AttrCCBID, VStr (contactString cd cfg sv2 i)) \<in> set reply \<and> (AttrClaimID, VStr (rr_cookie r)) \<in> set reply)"
proof -
  have "parseContactID cd (contactString cd cfg sv0 i) = Some i"
    using split [of "sv_tunnelContact sv0" i] split [of "c_PublicAddress cfg" i]
    by (simp add: parseContactID_def contactString_def contact)
  moreover have "contactString cd cfg sv0 i \<noteq> []" by (simp add: contactString_def contact)
  ultimately have "reconnect_id cd cfg sv (AdString cd a AttrCCBID) (AdString cd a AttrClaimID) (peerIPString c) = Some i"
    using rec ip by (simp add: reconnect_id_def ad)
  then show ?thesis using auth rec ad by (simp add: handleRegister_def register_stored_def Let_def)
qed

lemma cutLast_contact: "cutLast (CHR ''#'') (a @ ''#'' @ formatUint n) = Some (a, formatUint n)"
proof -
  have "CHR ''#'' \<notin> set (formatUint n)" using formatUint_digits [of "CHR ''#''" n]
    by (auto simp: digit_val_def Let_def)
  from cutLast_some [OF this] show ?thesis by simp
qed

theorem reclaim_id_witness:
  "\<exists>sv' es rec t. handleRegister demo_cedar demo_cfg (demo_conn 9) (Some again_ad) None 7
     (b_sv (demo_run demo_reconnect)) = (sv', es, RegStore t rec) \<and> t_id t = 1 \<and> t_conn t = 9"
proof -
  let ?sv = "b_sv (demo_run demo_reconnect)"
  obtain r where r: "sv_reconnects ?sv 1 = Some r" "rr_cookie r = ''cookie''" "rr_peerIP r = ''10.0.0.7''"
  proof -
    have "sv_reconnects ?sv 1 = Some \<lparr> rr_ccbid = 1, rr_cookie = ''cookie'', rr_peerIP = ''10.0.0.7'',
      rr_name = ''startd'', rr_updatedAt = 5 \<rparr>" by code_simp
    then show ?thesis using that by simp
  qed
  have a: "AdString demo_cedar again_ad AttrCCBID = contactString demo_cedar demo_cfg ?sv 1"
    "AdString demo_cedar again_ad AttrClaimID = rr_cookie r" "authorize demo_cfg (demo_conn 9) CommandRegister"
    "c_ReconnectAllowAnyIP demo_cfg \<or> rr_peerIP r = peerIPString (demo_conn 9)"
    unfolding r(2,3) by code_simp+
  have c: "ContactString demo_cedar addr i = addr @ ''#'' @ formatUint (unat i)"
    "SplitCCBContact demo_cedar (addr @ ''#'' @ formatUint (unat i)) = (addr, formatUint (unat i), True)"
    for addr and i :: uint64
    by (simp_all only: demo_cedar_def cedar.select_convs cutLast_contact option.case prod.case)
  have "rr_cookie r \<noteq> []" by (simp add: r(2))
  from reclaim_id [OF c r(1) this a(3,4,1,2), of None 7]
  obtain sv' es rec t where "handleRegister demo_cedar demo_cfg (demo_conn 9) (Some again_ad) None 7 ?sv =
    (sv', es, RegStore t rec)" "t_id t = 1" "t_conn t = cn_id (demo_conn 9)" by (elim exE conjE) (rule that)
  then show ?thesis by (intro exI [of _ sv'] exI [of _ es] exI [of _ rec] exI [of _ t]) (simp add: demo_conn_def)
qed

section \<open>Properties of the store\<close>

text \<open>
  A store whose strings survive, up to a function on strings, can be restarted from. What the
  restart gives is shown once for every such store: the records that had reached it when the
  broker stopped entitle the same peers as before.
\<close>

lemma reach_has_start: "reach start step s \<Longrightarrow> \<exists>s0. start s0"
  by (induction rule: reach.induct) blast+

locale restartable_store = reconnect_store put del view keep
  for put :: "ReconnectRecord \<Rightarrow> 's \<Rightarrow> 's" and del :: "uint64 \<Rightarrow> 's \<Rightarrow> 's"
    and view :: "'s \<Rightarrow> uint64 \<rightharpoonup> ReconnectRecord" and keep :: "ReconnectRecord \<Rightarrow> ReconnectRecord" +
  fixes str :: "string \<Rightarrow> string"
  assumes keep_cookie: "rr_cookie (keep r) = str (rr_cookie r)"
    and keep_ip: "rr_peerIP (keep r) = str (rr_peerIP r)"
begin

lemma stored_record:
  assumes I: "store_inv cfg (view s0) b" and on: "c_ReconnectStore cfg" and k: "keyed (view s0)"
    and r: "sv_reconnects (b_sv b) i = Some r" "\<not> unstored (view s0) b i"
    and str: "str (rr_cookie r) = rr_cookie r" "c_ReconnectAllowAnyIP cfg \<or> str (rr_peerIP r) = rr_peerIP r"
  shows "\<exists>r'. fold (table_op keep) (trace_ops (b_trace b)) (view s0) i = Some r' \<and> agree cfg r r'"
proof -
  let ?ops = "trace_ops (b_trace b)"
  have "view s0 i \<noteq> None \<or> (\<exists>r. Put r \<in> set ?ops \<and> rr_ccbid r = i)"
    using store_invD(4) [OF I on r(1)] r(2) k
    by (auto simp: known_def key_def unstored_def outstanding_def puts_def ran_def keyed_def)
  moreover have "Delete i \<notin> set ?ops" using store_invD(5) [OF I on, of i] r(1) by auto
  ultimately obtain r' where r': "fold (table_op keep) ?ops (view s0) i = Some r'"
    and c: "view s0 i = Some r' \<or> (\<exists>q. Put q \<in> set ?ops \<and> rr_ccbid q = i \<and> r' = keep q)"
    using table_ops_found [of i ?ops "view s0" keep] by blast
  have kn: "rr_cookie q = rr_cookie r \<and> (c_ReconnectAllowAnyIP cfg \<or> rr_peerIP q = rr_peerIP r)"
    if "q \<in> ran (view s0) \<union> puts ?ops" "rr_ccbid q = i" for q
  proof -
    from that have "key q \<in> known (view s0) b" by (auto simp: known_def)
    then show ?thesis using store_invD(3) [OF I on _ r(1)] that(2) by (auto simp: key_def)
  qed
  from c have "agree cfg r r'"
  proof
    assume v: "view s0 i = Some r'"
    then have "rr_ccbid r' = i" using k by (simp add: keyed_def)
    then show ?thesis using kn [of r'] v by (auto simp: agree_def ran_def)
  next
    assume "\<exists>q. Put q \<in> set ?ops \<and> rr_ccbid q = i \<and> r' = keep q"
    then obtain q where "Put q \<in> set ?ops" "rr_ccbid q = i" "r' = keep q" by blast
    then show ?thesis using kn [of q] str by (auto simp: agree_def keep_cookie keep_ip puts_def)
  qed
  then show ?thesis using r' by blast
qed

lemma stored_ids:
  assumes I: "store_inv cfg (view s0) b" and on: "c_ReconnectStore cfg" and k: "keyed (view s0)"
    and r: "fold (table_op keep) (trace_ops (b_trace b)) (view s0) i = Some r"
  shows "unat i \<le> unat (sv_nextID (b_sv b))"
proof -
  from table_ops_origin [OF r] have "\<exists>q. q \<in> ran (view s0) \<union> puts (trace_ops (b_trace b)) \<and> rr_ccbid q = i"
    using k by (auto simp: puts_def ran_def keyed_def)
  then have "\<exists>ck ip. (i, ck, ip) \<in> known (view s0) b" by (auto simp: known_def key_def)
  then show ?thesis using store_invD(2) [OF I on] by blast
qed

lemma restart:
  assumes r: "reach (started_with cfg (view s0)) (broker_move cd cfg) b" and on: "c_ReconnectStore cfg"
    and v: "view s = fold (table_op keep) (trace_ops (b_trace b)) (view s0)" and out: "set out = ran (view s)"
    and room: "unat (sv_nextID (b_sv b)) + 100 < 2 ^ 64"
  shows "\<exists>sv. loadReconnects cfg (Some out) empty_server = Some sv \<and> sv_targets sv = Map.empty \<and>
    sv_reconnects sv = view s \<and>
    (\<forall>i r. sv_reconnects (b_sv b) i = Some r \<and> \<not> unstored (view s0) b i \<and> str (rr_cookie r) = rr_cookie r \<and>
       (c_ReconnectAllowAnyIP cfg \<or> str (rr_peerIP r) = rr_peerIP r) \<longrightarrow>
       (\<exists>r'. sv_reconnects sv i = Some r' \<and> rr_cookie r' = rr_cookie r \<and>
          (c_ReconnectAllowAnyIP cfg \<or> rr_peerIP r' = rr_peerIP r)) \<and>
       (\<forall>prev ck ip. reconnect_id cd cfg (b_sv b) prev ck ip = Some i \<longrightarrow> reconnect_id cd cfg sv prev ck ip = Some i) \<and>
       (i \<noteq> 0 \<longrightarrow> unat i + 100 \<le> unat (sv_nextID sv)))"
proof -
  have I: "store_inv cfg (view s0) b" by (rule stored.reach_inv [OF r])
  have k: "keyed (view s0)" using reach_has_start [OF r] started_keyed by blast
  have small: "\<forall>i \<in> dom (view s). unat i + 100 < 2 ^ 64"
    using stored_ids [OF I on k] room by (fastforce simp: v dom_def)
  obtain sv where sv: "loadReconnects cfg (Some out) empty_server = Some sv" "sv_targets sv = Map.empty"
    "sv_reconnects sv = view s" "\<forall>i \<in> dom (view s). i \<noteq> 0 \<longrightarrow> unat i + 100 \<le> unat (sv_nextID sv)"
    using loadReconnects_table [OF _ out on small] keyed_ops [OF k] v by auto
  have "(\<exists>r'. sv_reconnects sv i = Some r' \<and> agree cfg r r') \<and> (i \<noteq> 0 \<longrightarrow> unat i + 100 \<le> unat (sv_nextID sv))"
    if "sv_reconnects (b_sv b) i = Some r" "\<not> unstored (view s0) b i" "str (rr_cookie r) = rr_cookie r"
      "c_ReconnectAllowAnyIP cfg \<or> str (rr_peerIP r) = rr_peerIP r" for i r
    using stored_record [OF I on k that] sv(3,4) by (auto simp: v dom_def)
  moreover have "reconnect_id cd cfg sv prev ck ip = Some i"
    if "reconnect_id cd cfg (b_sv b) prev ck ip = Some i" "sv_reconnects (b_sv b) i = Some r"
      "sv_reconnects sv i = Some r'" "agree cfg r r'" for prev ck ip i r r'
    using that by (auto simp: reconnect_id_def agree_def split: if_splits option.splits)
  ultimately show ?thesis using sv by (intro exI [of _ sv]) (fastforce simp: agree_def)
qed

end

interpretation memr: restartable_store memoryStore_Put memoryStore_Delete recs id id
  by unfold_locales simp_all

text \<open>
  C9. The store always holds what a restart needs. Take any run of a broker that started with
  the records its in-memory store held, stop it anywhere, also between a change of the table and
  the store call that follows it outside the lock, and load the store into a new server. Every
  record of the broker's table is there with its cookie and, where the address counts, its
  address, the only exception being an id whose very first store call is still outstanding, so
  that its registration has not been answered; whoever could reclaim such an id from the old
  broker can reclaim it from the new one; and the counter is at least 100 beyond the id.
\<close>

theorem store_restart:
  "reach (started_with cfg (recs m)) (broker_move cd cfg) b \<Longrightarrow> c_ReconnectStore cfg \<Longrightarrow>
   memoryStore_Load (fold (run_op memoryStore_Put memoryStore_Delete) (trace_ops (b_trace b)) m) out \<Longrightarrow>
   unat (sv_nextID (b_sv b)) + 100 < 2 ^ 64 \<Longrightarrow>
   \<exists>sv. loadReconnects cfg (Some out) empty_server = Some sv \<and> sv_targets sv = Map.empty \<and>
     (\<forall>i r. sv_reconnects (b_sv b) i = Some r \<and> \<not> unstored (recs m) b i \<longrightarrow>
       (\<exists>r'. sv_reconnects sv i = Some r' \<and> rr_cookie r' = rr_cookie r \<and>
          (c_ReconnectAllowAnyIP cfg \<or> rr_peerIP r' = rr_peerIP r)) \<and>
       (\<forall>prev ck ip. reconnect_id cd cfg (b_sv b) prev ck ip = Some i \<longrightarrow> reconnect_id cd cfg sv prev ck ip = Some i) \<and>
       (i \<noteq> 0 \<longrightarrow> unat i + 100 \<le> unat (sv_nextID sv)))"
proof -
  let ?s = "fold (run_op memoryStore_Put memoryStore_Delete) (trace_ops (b_trace b)) m"
  assume r: "reach (started_with cfg (recs m)) (broker_move cd cfg) b" and on: "c_ReconnectStore cfg"
    and ld: "memoryStore_Load ?s out" and room: "unat (sv_nextID (b_sv b)) + 100 < 2 ^ 64"
  from ld have "set out = ran (recs ?s)" by (simp add: memoryStore_Load_def)
  from memr.restart [OF r on mem.view_run_ops this room] show ?thesis by auto
qed

lemma demo_stored: "reach (started_with demo_cfg (recs newMemoryStore)) (broker_move demo_cedar demo_cfg) (demo_run demo_reconnect)"
proof -
  have "small_run demo_reconnect demo_start" by code_simp
  moreover have "started_with demo_cfg (recs newMemoryStore) demo_start"
    using demo_start_ok by (simp add: started_with_def newMemoryStore_def demo_start_def empty_server_def)
  ultimately show ?thesis unfolding demo_run_def by (intro small_reach_from reach_start)
qed

definition demo_record :: ReconnectRecord where
  "demo_record = \<lparr> rr_ccbid = 1, rr_cookie = ''cookie'', rr_peerIP = ''10.0.0.7'', rr_name = ''startd'', rr_updatedAt = 5 \<rparr>"

lemma demo_reconnect_ops:
  "trace_ops (b_trace (demo_run demo_reconnect)) = [Put (demo_record\<lparr> rr_updatedAt := 0 \<rparr>), Put demo_record]"
  by code_simp

lemma demo_reconnect_record: "sv_reconnects (b_sv (demo_run demo_reconnect)) 1 = Some demo_record"
  by code_simp

lemma demo_put: "\<not> unstored tbl (demo_run demo_reconnect) 1"
  by (auto simp: unstored_def demo_reconnect_ops demo_record_def)

lemma demo_reclaims:
  "reconnect_id demo_cedar demo_cfg (b_sv (demo_run demo_reconnect)) ''<ccb.example:9618>#1'' ''cookie'' ''10.0.0.7'' = Some 1"
  by code_simp

theorem store_restart_witness:
  "\<exists>sv. loadReconnects demo_cfg (Some [demo_record]) empty_server = Some sv \<and> 101 \<le> unat (sv_nextID sv) \<and>
     reconnect_id demo_cedar demo_cfg sv ''<ccb.example:9618>#1'' ''cookie'' ''10.0.0.7'' = Some 1"
proof -
  let ?b = "demo_run demo_reconnect"
  let ?m = "fold (run_op memoryStore_Put memoryStore_Delete) (trace_ops (b_trace ?b)) newMemoryStore"
  have "recs ?m = [1 \<mapsto> demo_record]"
    by (subst mem.view_run_ops) (simp add: demo_reconnect_ops newMemoryStore_def demo_record_def fun_eq_iff)
  then have ld: "memoryStore_Load ?m [demo_record]" by (simp add: memoryStore_Load_def)
  have on: "c_ReconnectStore demo_cfg" by (simp add: demo_cfg_def with_defaults_def example_bconfig_def)
  have "sv_nextID (b_sv ?b) = 1" by code_simp
  then have room: "unat (sv_nextID (b_sv ?b)) + 100 < 2 ^ 64" by simp
  obtain sv where sv: "loadReconnects demo_cfg (Some [demo_record]) empty_server = Some sv"
    and l: "\<And>i r. sv_reconnects (b_sv ?b) i = Some r \<Longrightarrow> \<not> unstored (recs newMemoryStore) ?b i \<Longrightarrow>
       (\<forall>prev ck ip. reconnect_id demo_cedar demo_cfg (b_sv ?b) prev ck ip = Some i \<longrightarrow>
          reconnect_id demo_cedar demo_cfg sv prev ck ip = Some i) \<and> (i \<noteq> 0 \<longrightarrow> unat i + 100 \<le> unat (sv_nextID sv))"
    using store_restart [OF demo_stored on ld room] by blast
  from l [OF demo_reconnect_record demo_put] demo_reclaims sv show ?thesis by simp
qed

text \<open>
  A sweep removes exactly the records that no live target has and that were last stamped
  more than the time to live ago; those are the ids it then deletes from the store, and it
  touches no target and no counter.
\<close>

theorem sweep_exact:
  "set ids = dom (sv_reconnects sv) \<Longrightarrow> SweepReconnects cfg now ids sv = (sv', stale) \<Longrightarrow>
   sv_reconnects sv' i =
     (if sv_targets sv i = None \<and> (\<exists>r. sv_reconnects sv i = Some r \<and> rr_updatedAt r + c_ReconnectTTL cfg < now)
      then None else sv_reconnects sv i) \<and>
   sv_targets sv' = sv_targets sv \<and> sv_nextID sv' = sv_nextID sv \<and>
   (i \<in> set stale \<longleftrightarrow> sv_reconnects sv i \<noteq> None \<and> sv_reconnects sv' i = None)"
  by (auto simp: SweepReconnects_def stale_ids_def foldl_none Let_def split: option.splits if_splits)

theorem sweep_exact_witness:
  "\<exists>sv' stale. SweepReconnects demo_cfg (10 ^ 15) [1] (empty_server\<lparr> sv_reconnects := [1 \<mapsto> demo_record] \<rparr>) = (sv', stale) \<and>
     sv_reconnects sv' 1 = None \<and> 1 \<in> set stale"
proof -
  let ?sv = "empty_server\<lparr> sv_reconnects := [1 \<mapsto> demo_record] \<rparr>"
  obtain sv' stale where s: "SweepReconnects demo_cfg (10 ^ 15) [1] ?sv = (sv', stale)" by fastforce
  have "set [1] = dom (sv_reconnects ?sv)" by simp
  from sweep_exact [OF this s, of 1] have "sv_reconnects sv' 1 = None \<and> 1 \<in> set stale"
    by (simp add: empty_server_def demo_record_def demo_cfg_def with_defaults_def example_bconfig_def)
  then show ?thesis using s by blast
qed

section \<open>Two handlers for one id\<close>

text \<open>
  C39. Removal is by id, not by connection: when two handlers serve the same id, which happens
  when a target reclaims its id before the broker has noticed that the old connection is dead,
  the end of either connection removes the id from the table although the other connection is
  still being served, so requests for that target fail until it registers again.
\<close>

theorem stale_removal:
  "b_run b i = Some (c, Serving t) \<Longrightarrow> b_run b j = Some (c', Serving t') \<Longrightarrow> i \<noteq> j \<Longrightarrow> t_id t' = t_id t \<Longrightarrow>
   b_run (broker_step cd cfg (EvServe i None now) b) j = Some (c', Serving t') \<and>
   sv_targets (b_sv (broker_step cd cfg (EvServe i None now) b)) (t_id t') = None"
  by (auto simp: resume_handler_def resume_def serveTarget_def target_removed_def removeTarget_def Let_def split: option.splits)

theorem stale_removal_witness:
  "reach (broker_start demo_cfg) (broker_move demo_cedar demo_cfg) (demo_run demo_reconnect) \<and>
   sv_targets (b_sv (demo_run demo_reconnect)) 1 \<noteq> None \<and>
   sv_targets (b_sv (broker_step demo_cedar demo_cfg (EvServe 1 None 9) (demo_run demo_reconnect))) 1 = None \<and>
   (\<exists>t. b_run (broker_step demo_cedar demo_cfg (EvServe 1 None 9) (demo_run demo_reconnect)) 2 = Some (demo_conn 2, Serving t))"
proof -
  let ?b = "demo_run demo_reconnect"
  let ?t = "\<lparr> t_id = 1, t_name = ''startd'', t_cookie = ''cookie'', t_conn = 1 \<rparr>"
  have "b_run ?b 1 = Some (demo_conn 1, Serving ?t)" "b_run ?b 2 = Some (demo_conn 2, Serving (?t\<lparr> t_conn := 2 \<rparr>))"
    "sv_targets (b_sv ?b) 1 \<noteq> None" by code_simp+
  with stale_removal [of ?b 1 "demo_conn 1" ?t 2 "demo_conn 2" "?t\<lparr> t_conn := 2 \<rparr>" demo_cedar demo_cfg 9]
    demo_reconnect_reach show ?thesis by simp
qed


section \<open>Abandoned reverse connections\<close>

text \<open>A session that is not done and that no handler owns any more.\<close>

definition orphan :: "uint64 \<Rightarrow> broker \<Rightarrow> bool" where
  "orphan n b \<longleftrightarrow> (\<exists>s. sv_sessions (b_sv b) n = Some s \<and> \<not> ps_done s) \<and> (\<forall>i. kinds b i \<noteq> Some (False, n)) \<and>
     unat n \<le> unat (sv_nextReq (b_sv b))"

definition unfinished :: "uint64 \<Rightarrow> server \<Rightarrow> bool" where
  "unfinished n sv \<longleftrightarrow> (\<exists>s. sv_sessions sv n = Some s \<and> \<not> ps_done s)"

lemma unfinished_updates [simp]:
  "unfinished n (sv\<lparr> sv_nextReq := a \<rparr>) = unfinished n sv" "unfinished n (sv\<lparr> sv_requests := r \<rparr>) = unfinished n sv"
  "unfinished n (sv\<lparr> sv_proxies := p \<rparr>) = unfinished n sv" "unfinished n (sv\<lparr> sv_targets := t \<rparr>) = unfinished n sv"
  "unfinished n (sv\<lparr> sv_reconnects := q \<rparr>) = unfinished n sv" "unfinished n (sv\<lparr> sv_nextID := k \<rparr>) = unfinished n sv"
  "unfinished n (drop_session m sv) = unfinished n sv" "unfinished n (drop_request m sv) = unfinished n sv"
  "unfinished n (deliverResult cd ad sv) = unfinished n sv"
  "unfinished n (sv\<lparr> sv_tunnelContact := tc \<rparr>) = unfinished n sv"
  "m \<noteq> n \<Longrightarrow> unfinished n (finish_session m sv) = unfinished n sv"
  "m \<noteq> n \<Longrightarrow> unfinished n (sv\<lparr> sv_sessions := (sv_sessions sv)(m \<mapsto> s) \<rparr>) = unfinished n sv"
  "sv_sessions sv m = Some s' \<Longrightarrow> ps_done s = ps_done s' \<Longrightarrow>
     unfinished n (sv\<lparr> sv_sessions := (sv_sessions sv)(m \<mapsto> s) \<rparr>) = unfinished n sv"
  by (auto simp: unfinished_def drop_session_def drop_request_def deliverResult_def finish_session_def Let_def
      split: option.splits)

lemma unfinished_remove: "unfinished n (fst (removeTarget i now sv)) = unfinished n sv"
  by (auto simp: removeTarget_def Let_def split: option.splits)

lemma unfinished_proxyRelay:
  "n \<noteq> sv_nextReq sv + 1 \<Longrightarrow> unfinished n (fst (proxyRelay cd cfg i rp t k name rc sv)) = unfinished n sv"
  by (auto simp: proxyRelay_def proxyFail_def unfinished_def Let_def)

lemma unfinished_resume:
  assumes r: "resume cd cfg ev c p sv = Some seg" and k: "kind p \<noteq> Some (False, n)" and n: "n \<noteq> sv_nextReq sv + 1"
  shows "unfinished n (fst seg) = unfinished n sv"
proof (cases p)
  case (ReqProxy rp t key name rc)
  then show ?thesis using r n by (auto simp: resume_def unfinished_proxyRelay split: event.splits)
next
  case (Serving t)
  then obtain ad now where seg: "seg = serveTarget cd cfg ad now t sv"
    using r by (auto simp: resume_def split: event.splits)
  show ?thesis
  proof (cases ad)
    case (Some a)
    then show ?thesis by (cases "AdInt cd a AttrCommand") (simp add: seg serveTarget_def)
  qed (simp add: seg serveTarget_def unfinished_remove)
next
  case (StdWait m t)
  then show ?thesis using r
    by (auto simp: resume_def standard_wait_def standard_fail_def Let_def split: event.splits option.splits wait_event.splits if_splits)
next
  case (PxWait m rp t)
  then obtain w ok1 ok2 where seg: "seg = proxy_wait cfg (cn_id c) w ok1 ok2 m rp t sv"
    using r by (auto simp: resume_def split: event.splits)
  show ?thesis using k PxWait
    by (auto simp: seg proxy_wait_def session_fail_def Let_def split: wait_event.split option.split)
next
  case (RcFound m)
  then show ?thesis using r by (auto simp: resume_def reverse_hand_def split: event.splits option.splits)
qed (use r k in \<open>auto simp: resume_def unfinished_remove register_stored_def remove_stored_def register_replied_def
  handleStandardRequest_def standard_forwarded_def standard_fail_def standard_end_def proxy_forwarded_def
  session_fail_def splice_done_def proxy_end_def reverse_wait_def Let_def split: event.splits if_splits\<close>)

lemma unfinished_register: "unfinished n (fst (handleRegister cd cfg c ad ck now sv)) = unfinished n sv"
proof -
  obtain sv' es p where h: "handleRegister cd cfg c ad ck now sv = (sv', es, p)" by (metis prod_cases3)
  from h have "unfinished n sv' = unfinished n sv"
    by (cases rule: handleRegister_cases) (simp_all add: registered_def)
  then show ?thesis by (simp add: h)
qed

lemma own_step_orphan:
  assumes "own_step w w'" "\<forall>i. ow_run w i \<noteq> Some (False, n)" "unat n \<le> ow_last w"
  shows "(\<forall>i. ow_run w' i \<noteq> Some (False, n)) \<and> unat n \<le> ow_last w'"
  using assms by (cases rule: own_step.cases) auto

lemma orphan_iff: "orphan n b \<longleftrightarrow> unfinished n (b_sv b) \<and> (\<forall>i. ow_run (broker_own b) i \<noteq> Some (False, n)) \<and>
  unat n \<le> ow_last (broker_own b)"
  by (auto simp: orphan_def unfinished_def broker_own_def own_of_def)

lemma unfinished_step:
  assumes o: "orphan n b" and rg: "in_range ev b"
  shows "unfinished n (b_sv (broker_step cd cfg ev b))"
proof -
  have u: "unfinished n (b_sv b)" using o by (simp add: orphan_iff)
  have "unat (sv_nextReq (b_sv b) + 1) = Suc (unat (sv_nextReq (b_sv b)))"
    using rg by (simp add: in_range_def unat_plus_one)
  then have n: "n \<noteq> sv_nextReq (b_sv b) + 1" using o by (auto simp: orphan_def)
  have res: "unfinished n (b_sv (resume_handler cd cfg ev i b))" for i
  proof (cases rule: resume_handler_cases [of cd cfg ev i b])
    case (run c p sv es q)
    have "kinds b i = kind p" using run(1) by (simp add: kinds_def)
    then have "kind p \<noteq> Some (False, n)" using o by (metis orphan_def)
    from unfinished_resume [OF run(2) this n] u show ?thesis by (simp add: run(3))
  qed (simp add: u)
  show ?thesis
  proof (cases ev)
    case (EvSweep now ids)
    then show ?thesis using u
      by (cases "SweepReconnects cfg now ids (b_sv b)") (auto simp: SweepReconnects_def Let_def)
  next
    case EvSweepStore
    then show ?thesis using u by (simp split: list.split)
  qed (use u res in \<open>simp_all add: start_handler_sv unfinished_register handleRequest_fst startInboundRelay_fst handleReverseConnect_fst\<close>)
qed

text \<open>A handler waiting for such a session keeps waiting, whatever happens but its own cancellation.\<close>

lemma waiter_step:
  assumes w: "b_run b j = Some (c, RcWait n)" and u: "unfinished n (b_sv b)" and ev: "ev \<noteq> EvReverseWait j True"
  shows "b_run (broker_step cd cfg ev b) j = Some (c, RcWait n)"
proof -
  have st: "b_run (start_handler c' h b) j = Some (c, RcWait n)" for c' h
    using w by (auto simp: start_handler_def commit_def idle_def split: prod.split)
  have res: "b_run (resume_handler cd cfg ev i b) j = Some (c, RcWait n)"
    if "\<And>x y. ev = EvReverseWait x y \<Longrightarrow> x = i" for i
  proof (cases rule: resume_handler_cases [of cd cfg ev i b])
    case (run c' p sv es q)
    show ?thesis
    proof (cases "i = j")
      case True
      then have "p = RcWait n" "c' = c" using run(1) w by auto
      then have "q = RcWait n" using run(2) ev u True that
        by (auto simp: resume_def reverse_wait_def unfinished_def split: event.splits if_splits)
      then show ?thesis using run True \<open>c' = c\<close> by simp
    qed (simp add: run(3) w)
  qed (simp add: w)
  show ?thesis
  proof (cases ev)
    case (EvSweep now ids)
    then show ?thesis using w by (simp split: prod.split)
  next
    case EvSweepStore
    then show ?thesis using w by (simp split: list.split)
  qed (use w st res in simp_all)
qed


lemma orphan_step:
  assumes I: "own_inv (broker_own b)" "conn_ok b" and o: "orphan n b" and rg: "in_range ev b"
  shows "orphan n (broker_step cd cfg ev b)"
  unfolding orphan_iff using unfinished_step [OF o rg] own_step_orphan [of "broker_own b"] broker_refines [OF I rg] o
  by (simp add: orphan_iff)

text \<open>A run given by its events.\<close>

fun broker_run :: "'ad cedar \<Rightarrow> bconfig \<Rightarrow> 'ad event list \<Rightarrow> broker \<Rightarrow> broker" where
  "broker_run cd cfg [] b = b"
| "broker_run cd cfg (ev # evs) b = broker_run cd cfg evs (broker_step cd cfg ev b)"

fun run_in_range :: "'ad cedar \<Rightarrow> bconfig \<Rightarrow> 'ad event list \<Rightarrow> broker \<Rightarrow> bool" where
  "run_in_range cd cfg [] b = True"
| "run_in_range cd cfg (ev # evs) b \<longleftrightarrow> in_range ev b \<and> run_in_range cd cfg evs (broker_step cd cfg ev b)"

text \<open>
  A reverse connection that arrives just before its session times out is never released:
  once no handler owns the session, which nobody marked as done, the handler that delivered the
  connection keeps waiting through every further run in which its own context is not cancelled,
  so its goroutine and socket stay until the server stops.
\<close>

theorem abandoned_waiter_leaks:
  "reach (broker_start cfg) (broker_move cd cfg) b \<Longrightarrow> b_run b j = Some (c, RcWait n) \<Longrightarrow> orphan n b \<Longrightarrow>
   run_in_range cd cfg evs b \<Longrightarrow> EvReverseWait j True \<notin> set evs \<Longrightarrow>
   b_run (broker_run cd cfg evs b) j = Some (c, RcWait n)"
proof (induction evs arbitrary: b)
  case (Cons ev evs)
  have "reach (broker_start cfg) (broker_move cd cfg) (broker_step cd cfg ev b)"
    using Cons.prems(1,4) by (auto intro: reach_step broker_move.move)
  moreover have "b_run (broker_step cd cfg ev b) j = Some (c, RcWait n)"
    by (rule waiter_step [OF Cons.prems(2)]) (use Cons.prems(3,5) in \<open>auto simp: orphan_iff\<close>)
  moreover have "orphan n (broker_step cd cfg ev b)"
    using orphan_step [of b n ev] ownership.reach_inv [OF Cons.prems(1)] Cons.prems(3,4) by simp
  ultimately show ?case using Cons.IH Cons.prems(4,5) by simp
qed simp

definition stream_ad :: demo_ad where
  "stream_ad = demo_fields [(AttrCCBID, ''1''), (AttrClaimID, ''secret''), (AttrMyAddress, ''<10.1.1.1:9>''),
     (AttrName, ''schedd''), (AttrCCBStreamingRequired, ''true'')]"

definition hello_ad :: demo_ad where
  "hello_ad = demo_fields [(AttrClaimID, ''secret'')]"

definition demo_timeout :: "demo_ad event list" where
  "demo_timeout = [EvRegister (demo_conn 1) (Some reg_ad) (Some ''cookie'') 0, EvStored 1 0, EvWritten 1 True 0,
     EvRequest (demo_conn 3) (Some stream_ad), EvGo 3, EvWritten 3 True 1,
     EvReverseConnect (demo_conn 4) (Some hello_ad), EvGo 4, EvWait 3 WTimeout True True, EvGo 3]"

theorem abandoned_waiter_leaks_witness:
  "reach (broker_start demo_cfg) (broker_move demo_cedar demo_cfg) (demo_run demo_timeout) \<and>
   b_run (broker_run demo_cedar demo_cfg [EvReverseWait 4 False, EvServe 1 None 9] (demo_run demo_timeout)) 4 =
     Some (demo_conn 4, RcWait 1)"
proof -
  let ?b = "demo_run demo_timeout"
  have r: "reach (broker_start demo_cfg) (broker_move demo_cedar demo_cfg) ?b" by (rule demo_reach) code_simp
  have w: "b_run ?b 4 = Some (demo_conn 4, RcWait 1)" by code_simp
  have k: "kinds ?b i \<noteq> Some (False, 1)" for i
  proof -
    have "sv_proxies (b_sv ?b) ''secret'' = None" "map_option ps_connectID (sv_sessions (b_sv ?b) 1) = Some ''secret''"
      by code_simp+
    then show ?thesis using own_session [of "broker_own ?b" i 1] ownership.reach_inv [OF r]
      by (auto simp: broker_own_def own_of_def)
  qed
  have s: "(case sv_sessions (b_sv ?b) 1 of Some s \<Rightarrow> \<not> ps_done s | None \<Rightarrow> False)" "sv_nextReq (b_sv ?b) = 1" by code_simp+
  then have o: "orphan 1 ?b" using k by (auto simp: orphan_def split: option.splits)
  have "small_run [EvReverseWait 4 False, EvServe 1 None 9] ?b" by code_simp
  then have "run_in_range demo_cedar demo_cfg [EvReverseWait 4 False, EvServe 1 None 9] ?b"
    by (auto intro: small_in_range)
  from abandoned_waiter_leaks [OF r w o this] r show ?thesis by simp
qed

end
