(* ===== verification/Go_Utf8.thy ===== *)
theory Go_Utf8
  imports Ccb_Prelude
begin

text \<open>
  Go's reading of a string as UTF-8 (\<open>unicode/utf8\<close>), as far as \<open>encoding/json\<close> uses it: a Go string is
  any sequence of bytes, and what is not the encoding of a rune is replaced, byte by byte, by the
  encoding of U+FFFD.
\<close>

definition runeError :: string where
  "runeError = [CHR 0xEF, CHR 0xBF, CHR 0xBD]"

definition byteIn :: "nat \<Rightarrow> nat \<Rightarrow> char \<Rightarrow> bool" where
  "byteIn lo hi c \<longleftrightarrow> lo \<le> of_char c \<and> of_char c \<le> hi"

text \<open>The bytes of the rune a string starts with; 0 when it starts with none.\<close>

fun runeLen :: "string \<Rightarrow> nat" where
  "runeLen [] = 0"
| "runeLen (c # cs) =
     (if byteIn 0 0x7F c then 1
      else case cs of
        [] \<Rightarrow> 0
      | d # ds \<Rightarrow>
          if byteIn 0xC2 0xDF c then (if byteIn 0x80 0xBF d then 2 else 0)
          else case ds of
            [] \<Rightarrow> 0
          | e # es \<Rightarrow>
              if byteIn 0xE0 0xEF c
              then (if byteIn (if byteIn 0xE0 0xE0 c then 0xA0 else 0x80) (if byteIn 0xED 0xED c then 0x9F else 0xBF) d \<and>
                       byteIn 0x80 0xBF e then 3 else 0)
              else case es of
                [] \<Rightarrow> 0
              | f # _ \<Rightarrow>
                  if byteIn 0xF0 0xF4 c \<and>
                     byteIn (if byteIn 0xF0 0xF0 c then 0x90 else 0x80) (if byteIn 0xF4 0xF4 c then 0x8F else 0xBF) d \<and>
                     byteIn 0x80 0xBF e \<and> byteIn 0x80 0xBF f then 4 else 0)"

function toValidUTF8 :: "string \<Rightarrow> string" where
  "toValidUTF8 s =
     (if s = [] then []
      else if runeLen s = 0 then runeError @ toValidUTF8 (tl s)
      else take (runeLen s) s @ toValidUTF8 (drop (runeLen s) s))"
  by pat_completeness auto
termination by (relation "measure length") auto

declare toValidUTF8.simps [simp del]

function validUTF8 :: "string \<Rightarrow> bool" where
  "validUTF8 s = (if s = [] then True else if runeLen s = 0 then False else validUTF8 (drop (runeLen s) s))"
  by pat_completeness auto
termination by (relation "measure length") auto

declare validUTF8.simps [simp del]

lemma runeLen_le: "runeLen s \<le> length s"
  by (cases s rule: runeLen.cases) (auto split: list.splits)

lemma toValid_valid: "validUTF8 s \<Longrightarrow> toValidUTF8 s = s"
proof (induction s rule: toValidUTF8.induct)
  case (1 s)
  show ?case
  proof (cases "s = []")
    case False
    then have n: "runeLen s \<noteq> 0" "validUTF8 (drop (runeLen s) s)" using 1(3) validUTF8.simps [of s] by (auto split: if_splits)
    show ?thesis using 1(2) [OF False n] False n(1) toValidUTF8.simps [of s] by simp
  qed (simp add: toValidUTF8.simps)
qed

lemma toValid_length: "length s \<le> length (toValidUTF8 s) \<and> (length (toValidUTF8 s) = length s \<longrightarrow> validUTF8 s)"
proof (induction s rule: toValidUTF8.induct)
  case (1 s)
  consider "s = []" | "s \<noteq> []" "runeLen s = 0" | "s \<noteq> []" "runeLen s \<noteq> 0" by blast
  then show ?case
  proof cases
    case 1
    then show ?thesis by (simp add: validUTF8.simps toValidUTF8.simps)
  next
    case 2
    then show ?thesis using 1(1) toValidUTF8.simps [of s] by (cases s) (auto simp: runeError_def)
  next
    case 3
    then show ?thesis using 1(2) runeLen_le [of s] toValidUTF8.simps [of s] validUTF8.simps [of s] by auto
  qed
qed

text \<open>Exactly the valid strings stay as they are.\<close>

lemma toValid_id: "toValidUTF8 s = s \<longleftrightarrow> validUTF8 s"
  using toValid_valid [of s] toValid_length [of s] by auto

lemma ascii_valid: "list_all (byteIn 0 0x7F) s \<Longrightarrow> validUTF8 s"
  by (induction s) (simp_all add: validUTF8.simps)

end
