(* ===== verification/Ccb_Sqlite.thy ===== *)
theory Ccb_Sqlite
  imports Ccb_Registry Go_Utf8
begin

text \<open>
  The persistent reconnect store (\<open>sqlitestore.go\<close>): a queue of operations, a single writer that
  coalesces them per identifier and commits a batch per tick in one transaction, and rows whose
  secret fields are sealed. The database, the sealing functions of the session cache and the JSON
  text of a payload are arguments: the outcomes of a transaction, and the record \<open>codec\<close>.

  Ghost components record the operations given to the store, those given before \<open>Close\<close> was
  called, those the writer has taken since its last commit, those whose transaction was committed,
  and whether a transaction failed.
\<close>

section \<open>State\<close>

record sealedReconnect =
  sc_cookie :: string
  sc_peerIP :: string
  sc_name :: string

record codec =
  cx_marshal :: "sealedReconnect \<Rightarrow> byte list option"
  cx_unmarshal :: "byte list \<Rightarrow> sealedReconnect option"
  cx_seal :: "byte list \<Rightarrow> byte list option"
  cx_unseal :: "byte list \<Rightarrow> byte list option"

text \<open>A row: the sealed payload and the time in seconds.\<close>

type_synonym row = "byte list \<times> int"

record sqliteStore =
  sq_rows :: "uint64 \<rightharpoonup> row"
  sq_ops :: "store_op list"
  sq_batch :: "uint64 \<rightharpoonup> store_op"
  sq_done :: bool
  sq_stopped :: bool
  sq_given :: "store_op list"
  sq_before :: "store_op list"
  sq_since :: "store_op list"
  sq_kept :: "store_op list"
  sq_failed :: bool

text \<open>Opening: the checks, the default flush interval, and the creation of the table.\<close>

definition OpenSharedReconnectStore ::
  "(uint64 \<rightharpoonup> row) option \<Rightarrow> bool \<Rightarrow> bool \<Rightarrow> int \<Rightarrow> bool \<Rightarrow> string + sqliteStore \<times> int" where
  "OpenSharedReconnectStore db has_seal has_unseal flush created =
     (case db of
        None \<Rightarrow> Inl ''reconnect store: nil database''
      | Some rows \<Rightarrow>
          if \<not> has_seal \<or> \<not> has_unseal
          then Inl ''reconnect store: seal/unseal are required for encrypted persistence''
          else if \<not> created then Inl ''creating reconnect table''
          else Inr (\<lparr> sq_rows = rows, sq_ops = [], sq_batch = Map.empty, sq_done = False, sq_stopped = False,
                      sq_given = [], sq_before = [], sq_since = [], sq_kept = [], sq_failed = False \<rparr>,
                    if flush \<le> 0 then 50 * millisecond else flush))"

section \<open>Rows\<close>

definition unix :: "int \<Rightarrow> int" where
  "unix t = t div second"

definition seal_row :: "codec \<Rightarrow> ReconnectRecord \<Rightarrow> byte list option" where
  "seal_row cx r =
     Option.bind (cx_marshal cx \<lparr> sc_cookie = rr_cookie r, sc_peerIP = rr_peerIP r, sc_name = rr_name r \<rparr>) (cx_seal cx)"

definition open_row :: "codec \<Rightarrow> uint64 \<Rightarrow> row \<Rightarrow> ReconnectRecord option" where
  "open_row cx i = (\<lambda>(sealed, ts).
     Option.bind (cx_unseal cx sealed) (\<lambda>plain.
       map_option (\<lambda>p. \<lparr> rr_ccbid = i, rr_cookie = sc_cookie p, rr_peerIP = sc_peerIP p, rr_name = sc_name p,
                          rr_updatedAt = ts * second \<rparr>) (cx_unmarshal cx plain)))"

text \<open>
  \<open>Load\<close>: the query may fail; else the rows come in an order of the database's choice, and those that
  cannot be opened are passed over.
\<close>

definition sqlite_Load :: "codec \<Rightarrow> bool \<Rightarrow> uint64 list \<Rightarrow> sqliteStore \<Rightarrow> ReconnectRecord list option" where
  "sqlite_Load cx queried order s =
     (if \<not> queried then None
      else Some (List.map_filter (\<lambda>i. Option.bind (sq_rows s i) (open_row cx i)) order))"

section \<open>The queue\<close>

definition opsCap :: nat where "opsCap = 1024"

text \<open>\<open>enqueue\<close> sends unless the store is closed; with both ready the choice is the scheduler's.\<close>

definition enqueue :: "store_op \<Rightarrow> sqliteStore \<Rightarrow> sqliteStore" where
  "enqueue op s = s\<lparr> sq_ops := sq_ops s @ [op], sq_given := sq_given s @ [op] \<rparr>"

definition sqlite_Put :: "ReconnectRecord \<Rightarrow> sqliteStore \<Rightarrow> sqliteStore" where
  "sqlite_Put r s = enqueue (Put r) s"

definition sqlite_Delete :: "uint64 \<Rightarrow> sqliteStore \<Rightarrow> sqliteStore" where
  "sqlite_Delete i s = enqueue (Delete i) s"

text \<open>\<open>Close\<close> closes the channel \<open>done\<close>, which must be open, and waits for the writer.\<close>

definition sqlite_Close :: "sqliteStore \<Rightarrow> sqliteStore" where
  "sqlite_Close s = s\<lparr> sq_done := True, sq_before := sq_given s \<rparr>"

section \<open>The writer\<close>

primrec op_key :: "store_op \<Rightarrow> uint64" where
  "op_key (Put r) = rr_ccbid r"
| "op_key (Delete i) = i"

definition writer_take :: "sqliteStore \<Rightarrow> sqliteStore" where
  "writer_take s =
     (case sq_ops s of
        [] \<Rightarrow> s
      | op # ops \<Rightarrow> s\<lparr> sq_ops := ops, sq_batch := (sq_batch s)(op_key op \<mapsto> op), sq_since := sq_since s @ [op] \<rparr>)"

text \<open>What the database does with a transaction.\<close>

record tx_io =
  tx_begin :: bool
  tx_exec :: "uint64 \<Rightarrow> bool"
  tx_commit :: bool

definition commit_op :: "codec \<Rightarrow> tx_io \<Rightarrow> store_op \<Rightarrow> (uint64 \<rightharpoonup> row) \<Rightarrow> (uint64 \<rightharpoonup> row) option" where
  "commit_op cx io op rows =
     (case op of
        Delete i \<Rightarrow> if tx_exec io i then Some (rows(i := None)) else None
      | Put r \<Rightarrow>
          (case seal_row cx r of
             None \<Rightarrow> None
           | Some sealed \<Rightarrow>
               if tx_exec io (rr_ccbid r) then Some (rows(rr_ccbid r \<mapsto> (sealed, unix (rr_updatedAt r)))) else None))"

fun commit_ops :: "codec \<Rightarrow> tx_io \<Rightarrow> store_op list \<Rightarrow> (uint64 \<rightharpoonup> row) \<Rightarrow> (uint64 \<rightharpoonup> row) option" where
  "commit_ops cx io [] rows = Some rows"
| "commit_ops cx io (op # ops) rows = Option.bind (commit_op cx io op rows) (commit_ops cx io ops)"

text \<open>\<open>order\<close> lists the identifiers of the batch as the iteration over the map meets them; \<open>None\<close> is a roll-back.\<close>

definition commit_tx :: "codec \<Rightarrow> tx_io \<Rightarrow> uint64 list \<Rightarrow> (uint64 \<rightharpoonup> store_op) \<Rightarrow> (uint64 \<rightharpoonup> row) \<Rightarrow> (uint64 \<rightharpoonup> row) option" where
  "commit_tx cx io order batch rows =
     (if order = [] then Some rows
      else if \<not> tx_begin io then None
      else case commit_ops cx io (map (\<lambda>i. the (batch i)) order) rows of
             None \<Rightarrow> None
           | Some rows' \<Rightarrow> if tx_commit io then Some rows' else None)"

definition writer_tick :: "codec \<Rightarrow> tx_io \<Rightarrow> uint64 list \<Rightarrow> sqliteStore \<Rightarrow> sqliteStore" where
  "writer_tick cx io order s =
     (case commit_tx cx io order (sq_batch s) (sq_rows s) of
        None \<Rightarrow> s\<lparr> sq_batch := Map.empty, sq_since := [], sq_failed := True \<rparr>
      | Some rows \<Rightarrow> s\<lparr> sq_rows := rows, sq_batch := Map.empty, sq_kept := sq_kept s @ sq_since s, sq_since := [] \<rparr>)"

text \<open>The end of the writer: it drains the queue, commits once more and returns.\<close>

definition writer_drain :: "sqliteStore \<Rightarrow> sqliteStore" where
  "writer_drain s = (writer_take ^^ length (sq_ops s)) s"

definition writer_stop :: "codec \<Rightarrow> tx_io \<Rightarrow> uint64 list \<Rightarrow> sqliteStore \<Rightarrow> sqliteStore" where
  "writer_stop cx io order s = (writer_tick cx io order s)\<lparr> sq_stopped := True \<rparr>"

text \<open>The steps of the store; a step of the writer needs the writer, an operation a slot of the channel.\<close>

inductive store_step :: "codec \<Rightarrow> sqliteStore \<Rightarrow> sqliteStore \<Rightarrow> bool" for cx where
  st_enqueue: "length (sq_ops s) < opsCap \<Longrightarrow> store_step cx s (enqueue op s)"
| st_take: "\<not> sq_stopped s \<Longrightarrow> store_step cx s (writer_take s)"
| st_tick: "\<not> sq_stopped s \<Longrightarrow> distinct order \<Longrightarrow> set order = dom (sq_batch s) \<Longrightarrow>
    store_step cx s (writer_tick cx io order s)"
| st_close: "\<not> sq_done s \<Longrightarrow> store_step cx s (sqlite_Close s)"
| st_stop: "\<not> sq_stopped s \<Longrightarrow> sq_done s \<Longrightarrow> distinct order \<Longrightarrow> set order = dom (sq_batch (writer_drain s)) \<Longrightarrow>
    store_step cx s (writer_stop cx io order (writer_drain s))"

section \<open>Coalescing\<close>

definition secs :: "int \<Rightarrow> int" where
  "secs t = unix t * second"

definition decoded :: "codec \<Rightarrow> (uint64 \<rightharpoonup> row) \<Rightarrow> (uint64 \<rightharpoonup> ReconnectRecord)" where
  "decoded cx rows = (\<lambda>i. Option.bind (rows i) (open_row cx i))"

text \<open>
  Documented behaviour of the sealing functions and of \<open>encoding/json\<close>: opening inverts sealing, and
  reading the text of a payload gives the payload with every string made valid UTF-8.
\<close>

definition json_form :: "sealedReconnect \<Rightarrow> sealedReconnect" where
  "json_form p = \<lparr> sc_cookie = toValidUTF8 (sc_cookie p), sc_peerIP = toValidUTF8 (sc_peerIP p), sc_name = toValidUTF8 (sc_name p) \<rparr>"

definition codec_ok :: "codec \<Rightarrow> bool" where
  "codec_ok cx \<longleftrightarrow> (\<forall>p b. cx_marshal cx p = Some b \<longrightarrow> cx_unmarshal cx b = Some (json_form p)) \<and>
     (\<forall>b c. cx_seal cx b = Some c \<longrightarrow> cx_unseal cx c = Some b)"

text \<open>What the store keeps of a record: its strings as JSON keeps them, its time in seconds.\<close>

definition stored_form :: "ReconnectRecord \<Rightarrow> ReconnectRecord" where
  "stored_form r = r\<lparr> rr_cookie := toValidUTF8 (rr_cookie r), rr_peerIP := toValidUTF8 (rr_peerIP r),
     rr_name := toValidUTF8 (rr_name r), rr_updatedAt := secs (rr_updatedAt r) \<rparr>"

definition batch_of :: "store_op list \<Rightarrow> uint64 \<rightharpoonup> store_op" where
  "batch_of ops = foldl (\<lambda>b op. b(op_key op \<mapsto> op)) Map.empty ops"

lemma batch_of_snoc: "batch_of (ops @ [op]) = (batch_of ops)(op_key op \<mapsto> op)"
  by (simp add: batch_of_def)

lemma batch_of_key: "batch_of ops i = Some op \<Longrightarrow> op_key op = i"
  by (induction ops rule: rev_induct) (auto simp: batch_of_snoc batch_of_def split: if_splits)

definition apply_batch :: "(ReconnectRecord \<Rightarrow> ReconnectRecord) \<Rightarrow> (uint64 \<rightharpoonup> store_op) \<Rightarrow> (uint64 \<rightharpoonup> ReconnectRecord) \<Rightarrow> (uint64 \<rightharpoonup> ReconnectRecord)" where
  "apply_batch st batch m = (\<lambda>i. case batch i of None \<Rightarrow> m i | Some op \<Rightarrow> table_op st op Map.empty i)"

lemma table_op_at: "table_op st op m i = (if i = op_key op then table_op st op Map.empty i else m i)"
  by (cases op) auto

lemma fold_batch: "fold (table_op st) ops m = apply_batch st (batch_of ops) m"
proof (induction ops rule: rev_induct)
  case Nil
  show ?case by (simp add: batch_of_def apply_batch_def)
next
  case (snoc op ops)
  show ?case
  proof
    fix i
    have "fold (table_op st) (ops @ [op]) m i = table_op st op (apply_batch st (batch_of ops) m) i" by (simp add: snoc.IH)
    also have "\<dots> = (if i = op_key op then table_op st op Map.empty i else apply_batch st (batch_of ops) m i)"
      by (rule table_op_at)
    also have "\<dots> = apply_batch st (batch_of (ops @ [op])) m i" by (simp add: batch_of_snoc apply_batch_def)
    finally show "fold (table_op st) (ops @ [op]) m i = apply_batch st (batch_of (ops @ [op])) m i" .
  qed
qed

lemma batch_of_order:
  assumes "\<And>i. i \<in> set order \<Longrightarrow> op_key (f i) = i"
  shows "batch_of (map f order) = (\<lambda>i. if i \<in> set order then Some (f i) else None)"
  using assms
proof (induction order rule: rev_induct)
  case Nil
  show ?case by (simp add: batch_of_def)
next
  case (snoc j order)
  then show ?case by (auto simp: batch_of_snoc fun_eq_iff)
qed

lemma fold_order:
  assumes "set order = dom batch" "\<And>i op. batch i = Some op \<Longrightarrow> op_key op = i"
  shows "fold (table_op st) (map (\<lambda>i. the (batch i)) order) m = apply_batch st batch m"
proof -
  have "batch_of (map (\<lambda>i. the (batch i)) order) = batch"
    using assms by (subst batch_of_order) (auto simp: fun_eq_iff dom_def)
  then show ?thesis by (simp add: fold_batch)
qed

section \<open>Transactions\<close>

lemma open_seal:
  assumes "codec_ok cx" "seal_row cx r = Some b"
  shows "open_row cx (rr_ccbid r) (b, unix (rr_updatedAt r)) = Some (stored_form r)"
  using assms by (auto simp: seal_row_def open_row_def codec_ok_def json_form_def stored_form_def secs_def split: bind_splits)

lemma commit_op_decoded:
  assumes "codec_ok cx" "commit_op cx io op rows = Some rows'"
  shows "decoded cx rows' = table_op stored_form op (decoded cx rows)"
proof (cases op)
  case (Put r)
  then obtain b where "seal_row cx r = Some b" "rows' = rows(rr_ccbid r \<mapsto> (b, unix (rr_updatedAt r)))"
    using assms(2) by (auto simp: commit_op_def split: option.splits if_splits)
  then show ?thesis using Put open_seal [OF assms(1)] by (auto simp: decoded_def)
next
  case (Delete i)
  then show ?thesis using assms(2) by (auto simp: commit_op_def decoded_def split: if_splits)
qed

lemma commit_ops_decoded:
  "codec_ok cx \<Longrightarrow> commit_ops cx io ops rows = Some rows' \<Longrightarrow> decoded cx rows' = fold (table_op stored_form) ops (decoded cx rows)"
proof (induction ops arbitrary: rows)
  case (Cons op ops)
  then show ?case using commit_op_decoded [OF Cons.prems(1)] by (auto split: bind_splits)
qed simp

lemma commit_tx_decoded:
  assumes "codec_ok cx" "commit_tx cx io order batch rows = Some rows'" "set order = dom batch"
    "\<And>i op. batch i = Some op \<Longrightarrow> op_key op = i"
  shows "decoded cx rows' = apply_batch stored_form batch (decoded cx rows)"
proof (cases "order = []")
  case True
  then have "batch = Map.empty" using assms(3) by (metis dom_eq_empty_conv empty_set)
  then show ?thesis using True assms(2) by (simp add: commit_tx_def apply_batch_def)
next
  case False
  then have "commit_ops cx io (map (\<lambda>i. the (batch i)) order) rows = Some rows'"
    using assms(2) by (auto simp: commit_tx_def split: if_splits option.splits)
  from commit_ops_decoded [OF assms(1) this] fold_order [OF assms(3,4)] show ?thesis by simp
qed

section \<open>The store as a whole\<close>

definition store_log :: "sqliteStore \<Rightarrow> store_op list" where
  "store_log s = sq_kept s @ sq_since s @ sq_ops s"

definition sqlite_inv :: "codec \<Rightarrow> (uint64 \<rightharpoonup> row) \<Rightarrow> sqliteStore \<Rightarrow> bool" where
  "sqlite_inv cx rows s \<longleftrightarrow>
     decoded cx (sq_rows s) = fold (table_op stored_form) (sq_kept s) (decoded cx rows) \<and>
     sq_batch s = batch_of (sq_since s) \<and> subseq (store_log s) (sq_given s) \<and>
     (\<not> sq_failed s \<longrightarrow> store_log s = sq_given s) \<and> (sq_stopped s \<longrightarrow> sq_done s \<and> sq_since s = []) \<and>
     (sq_done s \<longrightarrow> prefix (sq_before s) (sq_given s)) \<and>
     (sq_stopped s \<longrightarrow> \<not> sq_failed s \<longrightarrow> prefix (sq_before s) (sq_kept s))"

lemma writer_take_inv: "sqlite_inv cx rows s \<Longrightarrow> \<not> sq_stopped s \<Longrightarrow> sqlite_inv cx rows (writer_take s)"
  by (auto simp: sqlite_inv_def writer_take_def store_log_def batch_of_snoc split: list.split)

lemma writer_drain_take:
  "(writer_take ^^ n) s = s\<lparr> sq_ops := drop n (sq_ops s), sq_batch := foldl (\<lambda>b op. b(op_key op \<mapsto> op)) (sq_batch s) (take n (sq_ops s)),
     sq_since := sq_since s @ take n (sq_ops s) \<rparr>"
proof (induction n)
  case (Suc n)
  show ?case
  proof (cases "drop n (sq_ops s)")
    case Nil
    then show ?thesis using Suc by (simp add: writer_take_def)
  next
    case (Cons op ops)
    then have "n < length (sq_ops s)" "sq_ops s ! n = op" "drop (Suc n) (sq_ops s) = ops"
      by (metis drop_eq_Nil list.distinct(1) not_le, metis nth_via_drop, metis drop_Suc tl_drop list.sel(3))
    then show ?thesis using Cons
      by (simp only: funpow.simps comp_apply Suc) (simp add: writer_take_def take_Suc_conv_app_nth fun_upd_def)
  qed
qed simp

lemma writer_drain_ops [simp]: "sq_ops (writer_drain s) = []" "sq_stopped (writer_drain s) = sq_stopped s" "sq_done (writer_drain s) = sq_done s"
  by (simp_all add: writer_drain_def writer_drain_take)

lemma writer_drain_inv: "sqlite_inv cx rows s \<Longrightarrow> \<not> sq_stopped s \<Longrightarrow> sqlite_inv cx rows (writer_drain s)"
proof -
  assume i: "sqlite_inv cx rows s" "\<not> sq_stopped s"
  have "sqlite_inv cx rows ((writer_take ^^ n) s) \<and> \<not> sq_stopped ((writer_take ^^ n) s)" for n
    by (induction n) (use i writer_take_inv in \<open>auto simp: writer_drain_take writer_take_def split: list.split\<close>)
  then show ?thesis by (simp add: writer_drain_def)
qed

lemma subseq_drop_mid: "subseq (a @ b @ c) g \<Longrightarrow> subseq (a @ c) g"
proof -
  assume g: "subseq (a @ b @ c) g"
  have "subseq (a @ c) (a @ b @ c)"
    by (rule list_emb_append_mono [OF subseq_order.order_refl]) (simp add: list_emb_append2)
  then show ?thesis using g by (rule subseq_order.order_trans)
qed


lemma writer_tick_inv:
  assumes "codec_ok cx" "sqlite_inv cx rows s" "set order = dom (sq_batch s)"
  shows "sqlite_inv cx rows (writer_tick cx io order s)"
proof (cases "commit_tx cx io order (sq_batch s) (sq_rows s)")
  case None
  have "subseq (sq_kept s @ sq_ops s) (sq_given s)"
    using assms(2) subseq_drop_mid by (auto simp: sqlite_inv_def store_log_def)
  then show ?thesis using None assms(2) by (simp add: writer_tick_def sqlite_inv_def store_log_def batch_of_def)
next
  case (Some rows')
  have b: "sq_batch s = batch_of (sq_since s)" using assms(2) by (simp add: sqlite_inv_def)
  from commit_tx_decoded [OF assms(1) Some assms(3)] batch_of_key b
  have "decoded cx rows' = apply_batch stored_form (batch_of (sq_since s)) (decoded cx (sq_rows s))" by simp
  then have "decoded cx rows' = fold (table_op stored_form) (sq_since s) (decoded cx (sq_rows s))" by (simp add: fold_batch)
  then show ?thesis using Some assms(2) by (simp add: writer_tick_def sqlite_inv_def store_log_def batch_of_def)
qed

definition opened :: "(uint64 \<rightharpoonup> row) \<Rightarrow> sqliteStore \<Rightarrow> bool" where
  "opened rows s \<longleftrightarrow> (\<exists>flush iv. OpenSharedReconnectStore (Some rows) True True flush True = Inr (s, iv))"

lemma sqlite_inv_start: "opened rows s \<Longrightarrow> sqlite_inv cx rows s"
  by (auto simp: opened_def OpenSharedReconnectStore_def sqlite_inv_def store_log_def batch_of_def)

lemma sqlite_inv_step:
  assumes "codec_ok cx" "sqlite_inv cx rows s" "store_step cx s t"
  shows "sqlite_inv cx rows t"
  using assms(3)
proof cases
  case (st_enqueue op)
  then show ?thesis using assms(2)
    by (auto simp: sqlite_inv_def enqueue_def store_log_def intro!: list_emb_append_mono [of "(=)" "sq_kept s @ sq_since s @ sq_ops s", simplified])
next
  case st_take
  then show ?thesis using writer_take_inv assms(2) by simp
next
  case (st_tick order io)
  then show ?thesis using writer_tick_inv [OF assms(1,2)] by simp
next
  case st_close
  then show ?thesis using assms(2) by (simp add: sqlite_inv_def sqlite_Close_def store_log_def)
next
  case (st_stop order io)
  from writer_tick_inv [OF assms(1) writer_drain_inv [OF assms(2) st_stop(2)] st_stop(5)]
  have "sqlite_inv cx rows (writer_tick cx io order (writer_drain s))" .
  moreover have "sq_since (writer_tick cx io order (writer_drain s)) = []" "sq_ops (writer_tick cx io order (writer_drain s)) = []"
    "sq_done (writer_tick cx io order (writer_drain s))" using st_stop(3) by (simp_all add: writer_tick_def split: option.split)
  ultimately show ?thesis by (simp add: st_stop(1) writer_stop_def sqlite_inv_def store_log_def)
qed


interpretation sqlite_machine: invariant_machine "opened rows" "store_step cx" "\<lambda>s. codec_ok cx \<longrightarrow> sqlite_inv cx rows s" for rows cx
  by unfold_locales (auto intro: sqlite_inv_start sqlite_inv_step)

text \<open>
  The store implements the interface of reconnect stores: what it holds, the operations still on
  their way included, changes with \<open>Put\<close> and \<open>Delete\<close> as the interface says, with times in seconds.
\<close>

definition sqlite_view :: "codec \<Rightarrow> sqliteStore \<Rightarrow> uint64 \<rightharpoonup> ReconnectRecord" where
  "sqlite_view cx s = fold (table_op stored_form) (sq_since s @ sq_ops s) (decoded cx (sq_rows s))"

interpretation sq: restartable_store sqlite_Put sqlite_Delete "sqlite_view cx" stored_form toValidUTF8 for cx
  by unfold_locales
    (simp_all add: sqlite_Put_def sqlite_Delete_def enqueue_def sqlite_view_def stored_form_def)

lemma load_decoded:
  assumes "set order = dom (sq_rows s)"
  shows "\<exists>out. sqlite_Load cx True order s = Some out \<and> set out = ran (decoded cx (sq_rows s))"
proof (intro exI conjI)
  let ?f = "\<lambda>i. Option.bind (sq_rows s i) (open_row cx i)"
  show "sqlite_Load cx True order s = Some (List.map_filter ?f order)" by (simp add: sqlite_Load_def)
  have "r \<in> set (List.map_filter ?f xs) \<longleftrightarrow> (\<exists>i \<in> set xs. ?f i = Some r)" for r xs
    by (induction xs) (auto simp: List.map_filter_simps split: option.split)
  then have "r \<in> set (List.map_filter ?f order) \<longleftrightarrow> r \<in> ran (decoded cx (sq_rows s))" for r
    using assms by (auto simp: ran_def decoded_def bind_eq_Some_conv)
  then show "set (List.map_filter ?f order) = ran (decoded cx (sq_rows s))" by blast
qed

section \<open>A run\<close>

text \<open>Payloads as three valid strings without NUL, separated by NUL; sealing adds a byte.\<close>

definition char_byte :: "char \<Rightarrow> byte" where "char_byte c = word_of_nat (of_char c)"
definition byte_char :: "byte \<Rightarrow> char" where "byte_char b = char_of (unat b)"

definition demo_marshal :: "sealedReconnect \<Rightarrow> byte list option" where
  "demo_marshal p0 =
     (let p = json_form p0 in if CHR 0x00 \<in> set (sc_cookie p @ sc_peerIP p @ sc_name p) then None
      else Some (map char_byte (sc_cookie p) @ 0 # map char_byte (sc_peerIP p) @ 0 # map char_byte (sc_name p)))"

definition demo_unmarshal :: "byte list \<Rightarrow> sealedReconnect option" where
  "demo_unmarshal b =
     (let c = takeWhile (\<lambda>x. x \<noteq> 0) b; b1 = drop (Suc (length c)) b; p = takeWhile (\<lambda>x. x \<noteq> 0) b1
      in Some \<lparr> sc_cookie = map byte_char c, sc_peerIP = map byte_char p, sc_name = map byte_char (drop (Suc (length p)) b1) \<rparr>)"

definition demo_codec :: codec where
  "demo_codec = \<lparr> cx_marshal = demo_marshal, cx_unmarshal = demo_unmarshal, cx_seal = (\<lambda>b. Some (255 # b)),
     cx_unseal = (\<lambda>c. case c of [] \<Rightarrow> None | x # b \<Rightarrow> Some b) \<rparr>"

lemma byte_char [simp]: "byte_char (char_byte c) = c"
proof -
  have "unat (word_of_nat (of_char c :: nat) :: byte) = of_char c" by (intro unat_word_of_nat) simp
  then show ?thesis by (simp add: byte_char_def char_byte_def)
qed

lemma char_byte_zero: "char_byte c = 0 \<longleftrightarrow> c = CHR 0x00"
proof
  assume "char_byte c = 0"
  then have "byte_char (char_byte c) = byte_char 0" by simp
  then show "c = CHR 0x00" unfolding byte_char by (simp add: byte_char_def char_of_def)
qed (simp add: char_byte_def)

lemma takeWhile_field: "CHR 0x00 \<notin> set s \<Longrightarrow> takeWhile (\<lambda>x. x \<noteq> 0) (map char_byte s @ 0 # r) = (map char_byte s :: byte list)"
proof (induction s)
  case (Cons c s)
  then show ?case by (auto simp: char_byte_zero)
qed simp

lemma demo_codec_ok: "codec_ok demo_codec"
proof -
  have "demo_unmarshal b = Some (json_form p)" if "demo_marshal p = Some b" for p b
    using that takeWhile_field [of "sc_cookie (json_form p)"] takeWhile_field [of "sc_peerIP (json_form p)"]
    by (auto simp: demo_marshal_def demo_unmarshal_def Let_def comp_def split: if_splits)
  then show ?thesis by (simp add: codec_ok_def demo_codec_def)
qed

definition good_io :: tx_io where
  "good_io = \<lparr> tx_begin = True, tx_exec = (\<lambda>_. True), tx_commit = True \<rparr>"

definition demo_ops :: "store_op list" where
  "demo_ops = [Put (demo_record\<lparr> rr_updatedAt := 0 \<rparr>), Put demo_record]"

definition demo_open :: sqliteStore where
  "demo_open = \<lparr> sq_rows = Map.empty, sq_ops = [], sq_batch = Map.empty, sq_done = False, sq_stopped = False,
     sq_given = [], sq_before = [], sq_since = [], sq_kept = [], sq_failed = False \<rparr>"

definition demo_sqlite :: sqliteStore where
  "demo_sqlite = writer_stop demo_codec good_io [1] (writer_drain (sqlite_Close (fold enqueue demo_ops demo_open)))"

lemma demo_opened: "opened Map.empty demo_open"
  by (auto simp: opened_def OpenSharedReconnectStore_def demo_open_def)

lemma demo_drained:
  "writer_drain (sqlite_Close (fold enqueue demo_ops demo_open)) =
   demo_open\<lparr> sq_done := True, sq_given := demo_ops, sq_before := demo_ops, sq_since := demo_ops, sq_batch := [1 \<mapsto> Put demo_record] \<rparr>"
  by (simp add: writer_drain_def writer_take_def sqlite_Close_def enqueue_def demo_ops_def demo_open_def demo_record_def fun_eq_iff)

lemma enqueue_reach:
  "reach start (store_step cx) s \<Longrightarrow> length (sq_ops s) + length ops \<le> opsCap \<Longrightarrow> reach start (store_step cx) (fold enqueue ops s)"
proof (induction ops arbitrary: s)
  case (Cons op ops)
  have "store_step cx s (enqueue op s)" using Cons.prems(2) by (intro st_enqueue) simp
  with Cons.prems(1) have "reach start (store_step cx) (enqueue op s)" by (rule reach_step)
  then show ?case using Cons.IH [of "enqueue op s"] Cons.prems(2) by (simp add: enqueue_def)
qed simp

lemma demo_sqlite_reach: "reach (opened Map.empty) (store_step demo_codec) demo_sqlite"
proof -
  have "reach (opened Map.empty) (store_step demo_codec) demo_open" by (rule reach_start) (rule demo_opened)
  then have "reach (opened Map.empty) (store_step demo_codec) (fold enqueue demo_ops demo_open)"
    by (rule enqueue_reach) (simp add: demo_open_def demo_ops_def opsCap_def)
  then have "reach (opened Map.empty) (store_step demo_codec) (sqlite_Close (fold enqueue demo_ops demo_open))"
    by (rule reach_step) (rule st_close, simp add: demo_open_def demo_ops_def enqueue_def)
  moreover have "store_step demo_codec (sqlite_Close (fold enqueue demo_ops demo_open)) demo_sqlite"
    unfolding demo_sqlite_def
    by (rule st_stop) (simp_all add: demo_drained, simp_all add: sqlite_Close_def demo_ops_def demo_open_def enqueue_def)
  ultimately show ?thesis by (rule reach_step)
qed

lemma demo_sqlite_state:
  "sq_given demo_sqlite = demo_ops" "sq_before demo_sqlite = demo_ops" "sq_ops demo_sqlite = []" "sq_stopped demo_sqlite" "\<not> sq_failed demo_sqlite"
  "dom (sq_rows demo_sqlite) = {1}"
proof -
  have "seal_row demo_codec demo_record \<noteq> None" by code_simp
  then obtain b where "seal_row demo_codec demo_record = Some b" by blast
  then have r: "commit_tx demo_codec good_io [1] [1 \<mapsto> Put demo_record] Map.empty = Some [1 \<mapsto> (b, unix (rr_updatedAt demo_record))]"
    by (simp add: commit_tx_def commit_op_def good_io_def) (simp add: demo_record_def)
  show "sq_given demo_sqlite = demo_ops" "sq_before demo_sqlite = demo_ops" "sq_ops demo_sqlite = []" "sq_stopped demo_sqlite" "\<not> sq_failed demo_sqlite"
    "dom (sq_rows demo_sqlite) = {1}"
    unfolding demo_sqlite_def demo_drained
    by (simp_all add: writer_stop_def writer_tick_def r demo_open_def)
qed

section \<open>Properties\<close>

text \<open>
  C5. Coalescing and batching lose nothing they should keep: in every interleaving of callers,
  the writer and \<open>Close\<close>, with every outcome of every transaction, the rows hold exactly the effect
  of the operations whose batches were committed, in the order they were given, with strings as
  JSON keeps them and times in seconds; these and the operations still on their way are a
  subsequence of those given, and all of them if no transaction has failed. When \<open>Close\<close> has
  returned and no transaction has failed, every operation given before \<open>Close\<close> was called has been
  committed, also those that were still in the queue.
\<close>

theorem sqlite_durable:
  "reach (opened rows) (store_step cx) s \<Longrightarrow> codec_ok cx \<Longrightarrow>
   decoded cx (sq_rows s) = fold (table_op stored_form) (sq_kept s) (decoded cx rows) \<and>
   subseq (sq_kept s @ sq_since s @ sq_ops s) (sq_given s) \<and>
   (\<not> sq_failed s \<longrightarrow> sq_kept s @ sq_since s @ sq_ops s = sq_given s) \<and>
   (\<not> sq_failed s \<longrightarrow> sq_stopped s \<longrightarrow> prefix (sq_before s) (sq_kept s) \<and> prefix (sq_kept s) (sq_given s))"
  using sqlite_machine.reach_inv [of rows cx s] by (auto simp: sqlite_inv_def store_log_def prefix_def)

lemma demo_stored_form: "stored_form demo_record = demo_record\<lparr> rr_updatedAt := 0 \<rparr>"
proof -
  have "toValidUTF8 (rr_cookie demo_record) = rr_cookie demo_record" "toValidUTF8 (rr_peerIP demo_record) = rr_peerIP demo_record"
    "toValidUTF8 (rr_name demo_record) = rr_name demo_record"
    by (rule toValid_valid, rule ascii_valid, code_simp)+
  moreover have "secs (rr_updatedAt demo_record) = 0" by code_simp
  ultimately show ?thesis by (simp add: stored_form_def)
qed

theorem sqlite_durable_witness:
  "decoded demo_codec (sq_rows demo_sqlite) = [1 \<mapsto> demo_record\<lparr> rr_updatedAt := 0 \<rparr>]"
proof -
  note d = sqlite_durable [OF demo_sqlite_reach demo_codec_ok]
  have "sq_kept demo_sqlite = demo_ops"
    using d demo_sqlite_state by (simp add: prefix_order.antisym)
  then have "decoded demo_codec (sq_rows demo_sqlite) = fold (table_op stored_form) demo_ops (decoded demo_codec Map.empty)"
    using d by simp
  then show ?thesis by (simp add: demo_ops_def decoded_def demo_stored_form) (simp add: demo_record_def)
qed

text \<open>
  C17. A restart with the persistent store: take any run of a broker that started with the records
  its database held, in which every store call made was made before the store was closed, with no
  transaction failed, and load the database into a new server. Every record whose cookie (and,
  where it counts, address) is valid UTF-8 is there with the same cookie and address, the only
  exception being an id whose very first store call was still outstanding, so that its
  registration had not been answered; whoever could reclaim such an id from the old broker can
  reclaim it from the new one, and the counter is at least 100 beyond it.
\<close>

theorem sqlite_restart:
  "reach (started_with cfg (decoded cx rows)) (broker_move cd cfg) b \<Longrightarrow> c_ReconnectStore cfg \<Longrightarrow> codec_ok cx \<Longrightarrow>
   reach (opened rows) (store_step cx) s \<Longrightarrow> sq_given s = trace_ops (b_trace b) \<Longrightarrow> sq_before s = sq_given s \<Longrightarrow>
   \<not> sq_failed s \<and> sq_stopped s \<Longrightarrow> set order = dom (sq_rows s) \<Longrightarrow>
   unat (sv_nextID (b_sv b)) + 100 < 2 ^ 64 \<Longrightarrow>
   \<exists>sv. loadReconnects cfg (sqlite_Load cx True order s) empty_server = Some sv \<and> sv_targets sv = Map.empty \<and>
     (\<forall>i r. sv_reconnects (b_sv b) i = Some r \<and> \<not> unstored (decoded cx rows) b i \<and> validUTF8 (rr_cookie r) \<and>
        (c_ReconnectAllowAnyIP cfg \<or> validUTF8 (rr_peerIP r)) \<longrightarrow>
       (\<exists>r'. sv_reconnects sv i = Some r' \<and> rr_cookie r' = rr_cookie r \<and>
          (c_ReconnectAllowAnyIP cfg \<or> rr_peerIP r' = rr_peerIP r)) \<and>
       (\<forall>prev ck ip. reconnect_id cd cfg (b_sv b) prev ck ip = Some i \<longrightarrow> reconnect_id cd cfg sv prev ck ip = Some i) \<and>
       (i \<noteq> 0 \<longrightarrow> unat i + 100 \<le> unat (sv_nextID sv)))"
proof -
  assume r: "reach (started_with cfg (decoded cx rows)) (broker_move cd cfg) b" and on: "c_ReconnectStore cfg"
    and cx: "codec_ok cx" and s: "reach (opened rows) (store_step cx) s" "sq_given s = trace_ops (b_trace b)"
      "sq_before s = sq_given s" "\<not> sq_failed s \<and> sq_stopped s" and ld: "set order = dom (sq_rows s)"
    and room: "unat (sv_nextID (b_sv b)) + 100 < 2 ^ 64"
  obtain out where out: "sqlite_Load cx True order s = Some out" "set out = ran (decoded cx (sq_rows s))"
    using load_decoded [OF ld] by blast
  have "sqlite_inv cx rows s" using sqlite_machine.reach_inv [OF s(1)] cx by simp
  then have k: "sq_kept s = trace_ops (b_trace b)" "sq_since s = []" "sq_ops s = []"
    and rows: "decoded cx (sq_rows s) = fold (table_op stored_form) (sq_kept s) (decoded cx rows)"
    using s(2,3,4) by (auto simp: sqlite_inv_def store_log_def prefix_def)
  let ?s0 = "s\<lparr> sq_rows := rows, sq_since := [], sq_ops := [] \<rparr>"
  have v0: "sqlite_view cx ?s0 = decoded cx rows" by (simp add: sqlite_view_def)
  have v: "sqlite_view cx s = decoded cx (sq_rows s)" using k by (simp add: sqlite_view_def)
  have f: "sqlite_view cx s = fold (table_op stored_form) (trace_ops (b_trace b)) (sqlite_view cx ?s0)"
    unfolding v v0 rows k(1) ..
  have "set out = ran (sqlite_view cx s)" using out(2) v by simp
  from sq.restart [OF r [folded v0] on f this room] out(1) show ?thesis unfolding v0 toValid_id by auto
qed

theorem sqlite_restart_witness:
  "\<exists>sv. loadReconnects demo_cfg (sqlite_Load demo_codec True [1] demo_sqlite) empty_server = Some sv \<and>
     101 \<le> unat (sv_nextID sv) \<and>
     reconnect_id demo_cedar demo_cfg sv ''<ccb.example:9618>#1'' ''cookie'' ''10.0.0.7'' = Some 1"
proof -
  let ?b = "demo_run demo_reconnect"
  have d: "decoded demo_codec Map.empty = recs newMemoryStore" by (simp add: decoded_def newMemoryStore_def)
  note r = demo_stored [folded d]
  have on: "c_ReconnectStore demo_cfg" by (simp add: demo_cfg_def with_defaults_def example_bconfig_def)
  have g: "sq_given demo_sqlite = trace_ops (b_trace ?b)" "sq_before demo_sqlite = sq_given demo_sqlite"
    using demo_sqlite_state(1,2) by (simp_all add: demo_ops_def demo_reconnect_ops)
  have st: "\<not> sq_failed demo_sqlite \<and> sq_stopped demo_sqlite" using demo_sqlite_state by simp
  have ld: "set [1] = dom (sq_rows demo_sqlite)" using demo_sqlite_state(6) by simp
  have "sv_nextID (b_sv ?b) = 1" by code_simp
  then have room: "unat (sv_nextID (b_sv ?b)) + 100 < 2 ^ 64" by simp
  have ok: "validUTF8 (rr_cookie demo_record)" "validUTF8 (rr_peerIP demo_record)" by (rule ascii_valid, code_simp)+
  obtain sv where sv: "loadReconnects demo_cfg (sqlite_Load demo_codec True [1] demo_sqlite) empty_server = Some sv"
    and l: "\<And>i r. sv_reconnects (b_sv ?b) i = Some r \<Longrightarrow> \<not> unstored (decoded demo_codec Map.empty) ?b i \<Longrightarrow>
       validUTF8 (rr_cookie r) \<Longrightarrow> validUTF8 (rr_peerIP r) \<Longrightarrow>
       (\<forall>prev ck ip. reconnect_id demo_cedar demo_cfg (b_sv ?b) prev ck ip = Some i \<longrightarrow>
          reconnect_id demo_cedar demo_cfg sv prev ck ip = Some i) \<and> (i \<noteq> 0 \<longrightarrow> unat i + 100 \<le> unat (sv_nextID sv))"
    using sqlite_restart [OF r on demo_codec_ok demo_sqlite_reach g st ld room] by blast
  from l [OF demo_reconnect_record demo_put ok] demo_reclaims sv show ?thesis by simp
qed

end
