(* ===== verification/Ccb_Relay.thy ===== *)
theory Ccb_Relay
  imports Ccb_Registry
begin

text \<open>
  Properties of requests and relays (\<open>request.go\<close>, \<open>proxy.go\<close>): who owns the pending entries, how
  ids and routes are read, what becomes of a request, and how standard and proxied requests are
  completed.
\<close>

section \<open>Ownership\<close>

text \<open>
  C3. In every run and for every interleaving of the handlers, the tables hold exactly what is in
  progress: a pending standard request belongs to one handler, which is waiting for it, a pending
  proxy session belongs to one handler, the one of the requester's own connection, and is found
  under its own connect id; when no handler is waiting both tables are empty.
\<close>

theorem tables_owned:
  "reach (broker_start cfg) (broker_move cd cfg) b \<Longrightarrow>
   (sv_requests (b_sv b) n \<noteq> None \<longleftrightarrow> (\<exists>!i. kinds b i = Some (True, n))) \<and>
   (sv_proxies (b_sv b) k = Some n \<longleftrightarrow>
      (\<exists>i s. kinds b i = Some (False, n) \<and> sv_sessions (b_sv b) n = Some s \<and> ps_connectID s = k \<and>
         ps_requesterConn s = i \<and> (\<forall>j. kinds b j = Some (False, n) \<longrightarrow> j = i)))"
proof -
  assume r: "reach (broker_start cfg) (broker_move cd cfg) b"
  from ownership.reach_inv [OF r] have I: "own_inv (broker_own b)" by simp
  have sel: "ow_run (broker_own b) = kinds b" "ow_req (broker_own b) = dom (sv_requests (b_sv b))"
    "ow_px (broker_own b) = sv_proxies (b_sv b)"
    "ow_sess (broker_own b) = (\<lambda>n. map_option (\<lambda>s. (ps_connectID s, ps_requesterConn s)) (sv_sessions (b_sv b) n))"
    by (simp_all add: broker_own_def own_of_def)
  have uniq: "kinds b i = Some (q, n) \<Longrightarrow> kinds b j = Some (q', n) \<Longrightarrow> j = i" for i j q q'
    using own_unique [OF I] unfolding sel by blast
  have "(sv_requests (b_sv b) n \<noteq> None) = (\<exists>!i. kinds b i = Some (True, n))"
    using own_req [OF I, of n] uniq unfolding sel by (auto simp: dom_def)
  moreover have "sv_proxies (b_sv b) k = Some n \<longleftrightarrow>
      (\<exists>i s. kinds b i = Some (False, n) \<and> sv_sessions (b_sv b) n = Some s \<and> ps_connectID s = k \<and>
         ps_requesterConn s = i \<and> (\<forall>j. kinds b j = Some (False, n) \<longrightarrow> j = i))" (is "?L = ?R")
  proof
    assume ?L
    then show ?R using own_px [OF I, of k n] uniq unfolding sel by fastforce
  next
    assume ?R
    then show ?L using own_session [OF I, of _ n] unfolding sel by fastforce
  qed
  ultimately show ?thesis by simp
qed

definition demo_pending :: "demo_ad event list" where
  "demo_pending = take 6 demo_timeout"

lemma demo_pending_reach:
  "reach (broker_start demo_cfg) (broker_move demo_cedar demo_cfg) (demo_run demo_pending)"
  by (rule demo_reach) code_simp

theorem tables_owned_witness:
  "sv_proxies (b_sv (demo_run demo_pending)) ''secret'' = Some 1 \<and>
   (\<exists>i s. kinds (demo_run demo_pending) i = Some (False, 1) \<and> sv_sessions (b_sv (demo_run demo_pending)) 1 = Some s \<and>
      ps_connectID s = ''secret'' \<and> ps_requesterConn s = i)"
proof -
  have "sv_proxies (b_sv (demo_run demo_pending)) ''secret'' = Some 1" by code_simp
  with tables_owned [OF demo_pending_reach, of 1 "''secret''"] show ?thesis by blast
qed

text \<open>
  C14. The broker implements the abstract ownership machine: in every reachable state every event
  is, on the abstraction that forgets everything but who owns which request and which session,
  one step of that machine, in which numbers are handed out in order, an entry is made by its
  owner and only its owner removes it.
\<close>

theorem broker_refines_ownership:
  "reach (broker_start cfg) (broker_move cd cfg) b \<Longrightarrow> in_range ev b \<Longrightarrow>
   own_step (broker_own b) (broker_own (broker_step cd cfg ev b))"
  using ownership.reach_inv [of cfg cd b] broker_refines [of b ev cd cfg] by simp

theorem broker_refines_ownership_witness:
  "own_step (broker_own (demo_run demo_pending))
     (broker_own (broker_step demo_cedar demo_cfg (EvWait 3 WTimeout True True) (demo_run demo_pending)))"
proof -
  have "small_run [EvWait 3 WTimeout True True] (demo_run demo_pending)" by code_simp
  then have "in_range (EvWait 3 WTimeout True True :: demo_ad event) (demo_run demo_pending)"
    by (auto intro: small_in_range)
  from broker_refines_ownership [OF demo_pending_reach this] show ?thesis .
qed

section \<open>Ids and routes\<close>

lemma set_trimWith: "c \<in> set s \<Longrightarrow> \<not> P c \<Longrightarrow> c \<in> set (trimWith P s)"
proof -
  have "c \<in> set s \<Longrightarrow> \<not> P c \<Longrightarrow> c \<in> set (dropWhile P s)" for s
    by (induction s) auto
  then show "c \<in> set s \<Longrightarrow> \<not> P c \<Longrightarrow> c \<in> set (trimWith P s)" by (simp add: trimWith_def)
qed

text \<open>
  Target ids are parsed strictly: the decimal form of an id, with or without blanks around
  it, is that id, and whatever contains a \<open>#\<close>, as the rest of a nested contact that a client
  split at the wrong place, names no target.
\<close>

theorem parseTargetID_strict:
  "parseTargetID (formatUint (unat i)) = Some i \<and> parseTargetID ('' '' @ formatUint (unat i) @ '' '') = Some i \<and>
   (CHR ''#'' \<in> set s \<longrightarrow> parseTargetID s = None)"
proof -
  have sp: "isSpace (CHR '' '')" "\<not> isSpace (CHR ''#'')" by (simp_all add: isSpace_def)
  have w: "trimSpace (formatUint (unat i)) = formatUint (unat i)"
    by (rule trimSpace_word [OF formatUint_word])
  have "trimSpace ('' '' @ f @ '' '') = f" if "trimSpace f = f" "f \<noteq> []" for f
  proof -
    from that have "\<not> isSpace (hd f)" using trimWith_ends [of isSpace f] by (simp add: trimSpace_def)
    with that(2) have "dropWhile isSpace (f @ '' '') = f @ '' ''" by (cases f) auto
    moreover have "dropWhile isSpace f = f" using \<open>\<not> isSpace (hd f)\<close> by (cases f) auto
    ultimately show ?thesis using that sp by (simp add: trimSpace_def trimWith_def)
  qed
  note pad = this [OF w formatUint_not_Nil]
  have "parseTargetID s = None" if "CHR ''#'' \<in> set s"
  proof -
    have "CHR ''#'' \<in> set (trimSpace s)" using set_trimWith [OF that] sp by (simp add: trimSpace_def)
    moreover have "digit_val (CHR ''#'') = None" by (simp add: digit_val_def Let_def)
    ultimately show ?thesis using parseUint_digits [of "trimSpace s"]
      by (cases "parseUint (trimSpace s)") (auto simp: parseTargetID_def)
  qed
  then show ?thesis by (simp only: parseTargetID_def w pad parseUint_format) simp
qed

theorem parseTargetID_strict_witness: "parseTargetID ''42#17'' = None"
  using parseTargetID_strict [of 0 "''42#17''"] by simp

text \<open>A route is the decimal ids of the remaining hops, separated by blanks.\<close>

definition route_string :: "uint64 list \<Rightarrow> string" where
  "route_string ids = join (map (\<lambda>i. formatUint (unat i)) ids) '' ''"

lemma route_fields: "Go_Strings.fields (route_string ids) = map (\<lambda>i. formatUint (unat i)) ids"
  unfolding route_string_def by (rule fields_join) (auto simp: list_all_iff formatUint_word)

lemma splitRoute_Cons: "splitRoute (route_string (i # is)) = (formatUint (unat i), route_string is)"
  by (simp add: splitRoute_def route_fields) (simp add: route_string_def)

lemma splitRoute_Nil: "splitRoute (route_string []) = ([], [])"
  by (simp add: splitRoute_def route_fields)

lemma route_string_Nil: "route_string is = [] \<longleftrightarrow> is = []"
  using route_fields [of "is"] route_fields [of "[]"] by (cases "is") (auto simp: route_string_def)

lemma parseTargetID_format: "parseTargetID (formatUint (unat i)) = Some i"
  by (simp add: parseTargetID_def trimSpace_word formatUint_word)

lemma relay_hop:
  assumes "sv_targets sv i = Some t" "sv_proxies sv2 k = None" "im_Route meta = route_string (i # is)"
  shows "\<exists>rc sv' n. startInboundRelay cfg up meta (Some k) sv = (sv, [], ReqProxy False t k ''inbound-relay'' rc) \<and>
    proxyRelay cd cfg up False t k ''inbound-relay'' rc sv2 =
    (sv', [], PxForward n False t (forward_ad cd cfg k (formatUint (unat n)) ''inbound-relay''
       \<lparr> rt_route = route_string is, rt_originalRequester = im_OriginalRequester meta,
         rt_priorHop = proxyAddrSinful cfg \<rparr>))"
  using assms by (simp add: startInboundRelay_def splitRoute_Cons parseTargetID_format proxyRelay_def Let_def)

lemma forward_ad_fields:
  "map_of (forward_ad cd cfg k q name rc) AttrMyAddress = Some (VStr (proxyAddrSinful cfg))"
  "map_of (forward_ad cd cfg k q name rc) AttrClaimID = Some (VStr k)"
  "map_of (forward_ad cd cfg k q name rc) AttrCCBRoute = (if rt_route rc = [] then None else Some (VStr (rt_route rc)))"
  "map_of (forward_ad cd cfg k q name rc) AttrCCBOriginalRequester =
     (if rt_originalRequester rc = [] then None else Some (VStr (rt_originalRequester rc)))"
  "map_of (forward_ad cd cfg k q name rc) AttrCCBPriorHop =
     (if rt_priorHop rc = [] then None else Some (VStr (rt_priorHop rc)))"
  by (simp_all add: forward_ad_def)

definition field_str :: "ad_fields \<Rightarrow> attr \<Rightarrow> string" where
  "field_str fwd a = (case map_of fwd a of Some (VStr s) \<Rightarrow> s | _ \<Rightarrow> [])"

text \<open>
  A chain of brokers, each given as its configuration, its tables when it looks the target up,
  its tables when it enters the session, and the connect id it generates: every broker relays the
  connection its upstream hands it, and what it forwards to its target becomes the request the
  next broker sees, through \<open>meta_of\<close>, the listener of the cedar package.
\<close>

fun relay_chain :: "'ad cedar \<Rightarrow> (ad_fields \<Rightarrow> inboundMeta) \<Rightarrow> (bconfig \<times> server \<times> server \<times> string) list \<Rightarrow> inboundMeta \<Rightarrow>
    (target \<times> ad_fields) list option" where
  "relay_chain cd meta_of [] meta = Some []"
| "relay_chain cd meta_of ((cfg, sv, sv2, k) # hops) meta =
     (case startInboundRelay cfg 0 meta (Some k) sv of
        (_, _, ReqProxy rp t k' name rc) \<Rightarrow>
          (case proxyRelay cd cfg 0 rp t k' name rc sv2 of
             (_, _, PxForward n rp t fwd) \<Rightarrow> map_option (\<lambda>r. (t, fwd) # r) (relay_chain cd meta_of hops (meta_of fwd))
           | _ \<Rightarrow> None)
      | _ \<Rightarrow> None)"

text \<open>
  C27. A tunnelled connection follows its route through any number of brokers: if every broker of
  the chain has the registrant its part of the route names, each relays to exactly that
  registrant, the identity of the original requester arrives unchanged at every hop, every
  registrant is told to connect back to its own broker, and the last one gets no route, so the
  relay ends there. The hypotheses on the listener say that it hands over the route and the
  requester of the forwarded request.
\<close>

theorem route_followed:
  assumes listener: "\<And>fwd. im_Route (meta_of fwd) = field_str fwd AttrCCBRoute"
      "\<And>fwd. im_OriginalRequester (meta_of fwd) = field_str fwd AttrCCBOriginalRequester"
    and chain: "list_all2 (\<lambda>i (cfg, sv, sv2, k). sv_targets sv i \<noteq> None \<and> sv_proxies sv2 k = None) ids hops"
    and meta: "im_Route meta = route_string ids" "im_OriginalRequester meta = who" "who \<noteq> []"
  shows "\<exists>out. relay_chain cd meta_of hops meta = Some out \<and>
    list_all2 (\<lambda>(i, cfg, sv, sv2, k) (t, fwd). sv_targets sv i = Some t \<and>
      map_of fwd AttrCCBOriginalRequester = Some (VStr who) \<and>
      map_of fwd AttrMyAddress = Some (VStr (proxyAddrSinful cfg))) (zip ids hops) out \<and>
    (ids \<noteq> [] \<longrightarrow> map_of (snd (last out)) AttrCCBRoute = None)"
  using chain meta
proof (induction ids hops arbitrary: meta rule: list_all2_induct)
  case Nil
  then show ?case by simp
next
  case (Cons i "is" h hops)
  obtain cfg sv sv2 k where h: "h = (cfg, sv, sv2, k)" by (metis prod_cases4)
  with Cons.hyps(1) obtain t where t: "sv_targets sv i = Some t" "sv_proxies sv2 k = None" by auto
  from relay_hop [OF t Cons.prems(1), of cfg 0 cd] obtain rc sv' n where
    r: "startInboundRelay cfg 0 meta (Some k) sv = (sv, [], ReqProxy False t k ''inbound-relay'' rc)"
      "proxyRelay cd cfg 0 False t k ''inbound-relay'' rc sv2 = (sv', [], PxForward n False t
      (forward_ad cd cfg k (formatUint (unat n)) ''inbound-relay''
        \<lparr> rt_route = route_string is, rt_originalRequester = who, rt_priorHop = proxyAddrSinful cfg \<rparr>))"
    (is "_ = (_, _, PxForward n False t ?fwd)") unfolding Cons.prems(2) by blast
  have f: "map_of ?fwd AttrCCBRoute = (if is = [] then None else Some (VStr (route_string is)))"
    "map_of ?fwd AttrCCBOriginalRequester = Some (VStr who)"
    "map_of ?fwd AttrMyAddress = Some (VStr (proxyAddrSinful cfg))"
    using Cons.prems(3) by (simp_all add: forward_ad_fields route_string_Nil)
  have "im_Route (meta_of ?fwd) = route_string is" "im_OriginalRequester (meta_of ?fwd) = who"
    unfolding listener field_str_def f by (auto simp: route_string_def)
  from Cons.IH [OF this Cons.prems(3)] obtain out where out: "relay_chain cd meta_of hops (meta_of ?fwd) = Some out"
    "list_all2 (\<lambda>(i, cfg, sv, sv2, k) (t, fwd). sv_targets sv i = Some t \<and>
      map_of fwd AttrCCBOriginalRequester = Some (VStr who) \<and>
      map_of fwd AttrMyAddress = Some (VStr (proxyAddrSinful cfg))) (zip is hops) out"
    "is \<noteq> [] \<longrightarrow> map_of (snd (last out)) AttrCCBRoute = None" by blast
  have "length out = length (zip is hops)" using list_all2_lengthD [OF out(2)] by simp
  then have e: "out = [] \<longleftrightarrow> is = []" using list_all2_lengthD [OF Cons.hyps(2)] by (cases out) auto
  have "relay_chain cd meta_of (h # hops) meta = Some ((t, ?fwd) # out)" using h r out(1) by simp
  moreover have "list_all2 (\<lambda>(i, cfg, sv, sv2, k) (t, fwd). sv_targets sv i = Some t \<and>
      map_of fwd AttrCCBOriginalRequester = Some (VStr who) \<and>
      map_of fwd AttrMyAddress = Some (VStr (proxyAddrSinful cfg))) (zip (i # is) (h # hops)) ((t, ?fwd) # out)"
    using h out(2) t(1) f(2,3) by simp
  moreover have "map_of (snd (last ((t, ?fwd) # out))) AttrCCBRoute = None" using e out(3) f(1) by (cases "is = []") simp_all
  ultimately show ?case by blast
qed


definition demo_meta :: "ad_fields \<Rightarrow> inboundMeta" where
  "demo_meta fwd = \<lparr> im_Route = field_str fwd AttrCCBRoute,
     im_OriginalRequester = field_str fwd AttrCCBOriginalRequester, im_PriorHop = field_str fwd AttrCCBPriorHop \<rparr>"

definition demo_hops :: "(bconfig \<times> server \<times> server \<times> string) list" where
  "demo_hops = (let t = \<lambda>i. \<lparr> t_id = i, t_name = ''n'', t_cookie = ''c'', t_conn = 5 \<rparr>
     in [(demo_cfg, empty_server\<lparr> sv_targets := [1 \<mapsto> t 1] \<rparr>, empty_server, ''k1''),
         (demo_cfg, empty_server\<lparr> sv_targets := [7 \<mapsto> t 7] \<rparr>, empty_server, ''k2'')])"

theorem route_followed_witness:
  "\<exists>out. relay_chain demo_cedar demo_meta demo_hops
     \<lparr> im_Route = ''1 7'', im_OriginalRequester = ''alice at 1.2.3.4:5'', im_PriorHop = [] \<rparr> = Some out \<and> length out = 2"
proof -
  let ?meta = "\<lparr> im_Route = ''1 7'', im_OriginalRequester = ''alice at 1.2.3.4:5'', im_PriorHop = [] \<rparr>"
  have c: "list_all2 (\<lambda>i (cfg, sv, sv2, k). sv_targets sv i \<noteq> None \<and> sv_proxies sv2 k = None) [1, 7] demo_hops"
    by (simp add: demo_hops_def empty_server_def)
  have m: "im_Route ?meta = route_string [1, 7]" by code_simp
  obtain out where "relay_chain demo_cedar demo_meta demo_hops ?meta = Some out" "length (zip [1, 7 :: uint64] demo_hops) = length out"
    using route_followed [of demo_meta, OF _ _ c m, of "''alice at 1.2.3.4:5''" demo_cedar]
    by (auto simp: demo_meta_def dest: list_all2_lengthD)
  then show ?thesis by (auto simp: demo_hops_def)
qed

section \<open>Requests\<close>

text \<open>
  C16. What becomes of a request. It is forwarded only for an authorized peer and only to the
  target registered under the id it names. In proxy mode, which is chosen exactly when the
  requester asks for streaming, is itself behind a broker, or gives a route, the target is told,
  once the session is entered, to connect to the broker itself and not to the requester, and the
  audit identity comes from the authenticated connection and not from the request; only if the
  connect id is in use by then, the requester is sent one failure reply and nothing but the
  request counter changes. In standard mode the target gets the requester's own return address.
  A request that is not accepted changes nothing and is sent exactly one failure reply, or none if
  it could not be read; and it is one from an unauthorized peer, without a connect id or a return
  address, or for an id under which no target is registered.
\<close>

theorem request_outcome:
  "handleRequest cd cfg c ad sv = (sv', es, p) \<Longrightarrow>
   sv' = sv \<and>
   (case p of
     ReqProxy rp t k name rc \<Rightarrow> rp \<and> es = [] \<and> (\<exists>a i. ad = Some a \<and> authorize cfg c CommandRequest \<and>
       parseTargetID (AdString cd a AttrCCBID) = Some i \<and> sv_targets sv i = Some t \<and> k = AdString cd a AttrClaimID \<and>
       (fst (AdBool cd a AttrCCBStreamingRequired) \<or> sinfulIsCCB cd (AdString cd a AttrMyAddress) \<or>
        AdString cd a AttrCCBRoute \<noteq> [])) \<and>
       (\<forall>sv2. if sv_proxies sv2 k = None
          then \<exists>sv3 n fwd. proxyRelay cd cfg (cn_id c) rp t k name rc sv2 = (sv3, [], PxForward n True t fwd) \<and>
            map_of fwd AttrMyAddress = Some (VStr (proxyAddrSinful cfg)) \<and>
            map_of fwd AttrClaimID = Some (VStr k) \<and>
            map_of fwd AttrCCBOriginalRequester = Some (VStr (requesterIdentity c)) \<and>
            map_of fwd AttrCCBPriorHop = Some (VStr (proxyAddrSinful cfg)) \<and> sv_proxies sv3 k = Some n
          else \<exists>e. proxyRelay cd cfg (cn_id c) rp t k name rc sv2 =
            (sv2\<lparr> sv_nextReq := sv_nextReq sv2 + 1 \<rparr>, [SendAd (cn_id c) (replyFailure ''duplicate connect id'')], Done (HErr e)))
   | ReqStd t k ret name \<Rightarrow> es = [] \<and> (\<exists>a i. ad = Some a \<and> authorize cfg c CommandRequest \<and>
       parseTargetID (AdString cd a AttrCCBID) = Some i \<and> sv_targets sv i = Some t \<and>
       \<not> fst (AdBool cd a AttrCCBStreamingRequired) \<and> \<not> sinfulIsCCB cd (AdString cd a AttrMyAddress) \<and>
       AdString cd a AttrCCBRoute = [] \<and>
       (\<forall>sv2. \<exists>sv3 n fwd. handleStandardRequest cd t k ret name sv2 = (sv3, [], StdForward n t fwd) \<and>
          map_of fwd AttrMyAddress = Some (VStr (AdString cd a AttrMyAddress)) \<and>
          map_of fwd AttrClaimID = Some (VStr (AdString cd a AttrClaimID)) \<and>
          map_of fwd AttrRequestID = Some (VStr (formatUint (unat n))) \<and> sv_requests sv3 n \<noteq> None))
   | Done r \<Rightarrow> (\<exists>e. r = HErr e) \<and>
       (case ad of None \<Rightarrow> es = []
        | Some a \<Rightarrow> (\<exists>msg. es = [SendAd (cn_id c) (replyFailure msg)]) \<and>
            (\<not> authorize cfg c CommandRequest \<or> AdString cd a AttrClaimID = [] \<or> AdString cd a AttrMyAddress = [] \<or>
             (case parseTargetID (AdString cd a AttrCCBID) of None \<Rightarrow> True | Some i \<Rightarrow> sv_targets sv i = None)))
   | _ \<Rightarrow> False)"
proof -
  assume h: "handleRequest cd cfg c ad sv = (sv', es, p)"
  have ne: "requesterIdentity c \<noteq> []" "proxyAddrSinful cfg \<noteq> []"
    by (simp_all add: requesterIdentity_def proxyAddrSinful_def)
  show ?thesis
  proof (cases rule: handleRequest_cases [of ad cd cfg c sv])
    case (unread e)
    then show ?thesis using h by auto
  next
    case (fail a m)
    then have "sv' = sv" "es = [SendAd (cn_id c) (replyFailure m)]" "p = Done (HErr (''request failed: '' @ m))"
      using h by (simp_all add: fail_request_def)
    then show ?thesis using fail by auto
  next
    case (proxy a i t)
    then show ?thesis using h ne
      by (auto simp: proxyRelay_def proxyFail_def forward_ad_fields Let_def)
  next
    case (standard a i t)
    then show ?thesis using h by (auto simp: handleStandardRequest_def Let_def)
  qed
qed

theorem request_outcome_witness:
  "\<exists>t k name rc sv3 n fwd. handleRequest demo_cedar demo_cfg (demo_conn 8) (Some (stream_ad(AttrClaimID := ''other'')))
     (b_sv (demo_run demo_pending)) = (b_sv (demo_run demo_pending), [], ReqProxy True t k name rc) \<and>
     proxyRelay demo_cedar demo_cfg 8 True t k name rc empty_server = (sv3, [], PxForward n True t fwd) \<and>
     map_of fwd AttrCCBOriginalRequester = Some (VStr ''condor@pool at 10.0.0.7:4000'')"
proof -
  let ?h = "handleRequest demo_cedar demo_cfg (demo_conn 8) (Some (stream_ad(AttrClaimID := ''other''))) (b_sv (demo_run demo_pending))"
  obtain sv' es p where h: "?h = (sv', es, p)" by (metis prod_cases3)
  have "(case snd (snd ?h) of ReqProxy rp t k name rc \<Rightarrow> True | _ \<Rightarrow> False)" by code_simp
  then obtain rp t k name rc where p: "p = ReqProxy rp t k name rc" using h by (cases p) auto
  have i: "requesterIdentity (demo_conn 8) = ''condor@pool at 10.0.0.7:4000''" by code_simp
  note o = conjunct2 [OF request_outcome [OF h], unfolded p pc.case]
  have f: "sv' = b_sv (demo_run demo_pending)" "es = []" "rp" using request_outcome [OF h] o by simp_all
  have "\<exists>sv3 n fwd. proxyRelay demo_cedar demo_cfg (cn_id (demo_conn 8)) rp t k name rc empty_server =
      (sv3, [], PxForward n True t fwd) \<and>
      map_of fwd AttrCCBOriginalRequester = Some (VStr (requesterIdentity (demo_conn 8)))"
    using spec [OF conjunct2 [OF conjunct2 [OF conjunct2 [OF o]]], of empty_server] by (auto simp: empty_server_def)
  then show ?thesis using h f p i by (auto simp: demo_conn_def)
qed

section \<open>Completion\<close>

text \<open>The value a handler finds in its channel is what the target's report says.\<close>

definition report_of :: "'ad cedar \<Rightarrow> 'ad \<Rightarrow> ad_fields" where
  "report_of cd rep =
     (if fst (AdBool cd rep AttrResult) then replySuccess False else replyFailure (AdString cd rep AttrErrorString))"

text \<open>
  C29. A standard request is answered with what its target reports first. The forwarded request
  carries a request id; when, in whatever state the broker then is with the request still pending
  and unanswered, any ad that is not a heartbeat and carries that id arrives from a target, the
  waiting handler's next step sends the requester exactly one reply, success or the target's
  error message, and ends with the removal of the request. A second report for it, whatever it
  says and whoever sends it, changes nothing while the first waits in the channel or after the
  removal, and what it leaves between the two is removed with the request.
\<close>

theorem standard_request_answered:
  "handleStandardRequest cd t k ret name sv = (sv1, es, StdForward n t fwd) \<Longrightarrow>
   map_of fwd AttrRequestID = Some (VStr (AdString cd rep AttrRequestID)) \<Longrightarrow>
   AdInt cd rep AttrCommand = (cmd, ok) \<Longrightarrow> \<not> (ok \<and> cmd = commandNum cd CommandAlive) \<Longrightarrow>
   sv_requests sv2 n = Some req \<Longrightarrow> rq_replyCh req = None \<Longrightarrow>
   serveTarget cd cfg (Some rep) now t' sv2 = (sv3, es3, p3) \<Longrightarrow>
   p3 = Serving t' \<and> es3 = [] \<and>
   (\<exists>sv4 sv5 res. standard_wait c WReady True n t sv3 = (sv4, [SendAd (cn_id c) (report_of cd rep)], StdEnd n res) \<and>
     res = (if fst (AdBool cd rep AttrResult) then HNil else HErr (''request failed: '' @ AdString cd rep AttrErrorString)) \<and>
     standard_end n res sv4 = (sv5, [], Done res) \<and> sv_requests sv5 = (sv_requests sv2)(n := None) \<and>
     (\<forall>rep2 now2 t2. AdString cd rep2 AttrRequestID = AdString cd rep AttrRequestID \<longrightarrow>
        fst (serveTarget cd cfg (Some rep2) now2 t2 sv3) = sv3 \<and> fst (serveTarget cd cfg (Some rep2) now2 t2 sv5) = sv5 \<and>
        standard_end n res (fst (serveTarget cd cfg (Some rep2) now2 t2 sv4)) = (sv5, [], Done res)))"
proof -
  assume h: "handleStandardRequest cd t k ret name sv = (sv1, es, StdForward n t fwd)"
    and id: "map_of fwd AttrRequestID = Some (VStr (AdString cd rep AttrRequestID))"
    and cmd: "AdInt cd rep AttrCommand = (cmd, ok)" "\<not> (ok \<and> cmd = commandNum cd CommandAlive)"
    and req: "sv_requests sv2 n = Some req" "rq_replyCh req = None"
    and s: "serveTarget cd cfg (Some rep) now t' sv2 = (sv3, es3, p3)"
  have "AdString cd rep AttrRequestID = formatUint (unat n)"
    using h id by (auto simp: handleStandardRequest_def Let_def)
  then have n: "parseUint (AdString cd rep AttrRequestID) = Some n" by simp
  have d: "sv3 = deliverResult cd rep sv2" "es3 = []" "p3 = Serving t'"
    using s cmd by (auto simp: serveTarget_def)
  let ?res = "\<lparr> rp_success = fst (AdBool cd rep AttrResult), rp_errMsg = AdString cd rep AttrErrorString \<rparr>"
  let ?h = "if fst (AdBool cd rep AttrResult) then HNil else HErr (''request failed: '' @ AdString cd rep AttrErrorString)"
  let ?sv4 = "sv2\<lparr> sv_requests := (sv_requests sv2)(n \<mapsto> req\<lparr> rq_replyCh := None \<rparr>) \<rparr>"
  let ?sv5 = "sv2\<lparr> sv_requests := (sv_requests sv2)(n := None) \<rparr>"
  have sv3: "sv3 = sv2\<lparr> sv_requests := (sv_requests sv2)(n \<mapsto> req\<lparr> rq_replyCh := Some ?res \<rparr>) \<rparr>"
    using n req by (simp add: d(1) deliverResult_def Let_def)
  have w: "standard_wait c WReady True n t sv3 = (?sv4, [SendAd (cn_id c) (report_of cd rep)], StdEnd n ?h)"
    by (simp add: standard_wait_def report_of_def standard_fail_def sv3 Let_def)
  have e: "standard_end n res ?sv4 = (?sv5, [], Done res)" for res
    by (simp add: standard_end_def drop_request_def)
  have second: "fst (serveTarget cd cfg (Some rep2) now2 t2 sv3) = sv3" "fst (serveTarget cd cfg (Some rep2) now2 t2 ?sv5) = ?sv5"
    "standard_end n res (fst (serveTarget cd cfg (Some rep2) now2 t2 ?sv4)) = (?sv5, [], Done res)"
    if "AdString cd rep2 AttrRequestID = AdString cd rep AttrRequestID" for rep2 now2 t2 res
  proof -
    have "deliverResult cd rep2 sv3 = sv3" "deliverResult cd rep2 ?sv5 = ?sv5"
      "drop_request n (deliverResult cd rep2 ?sv4) = ?sv5"
      using n that by (simp_all add: deliverResult_def drop_request_def sv3 Let_def)
    then show "fst (serveTarget cd cfg (Some rep2) now2 t2 sv3) = sv3" "fst (serveTarget cd cfg (Some rep2) now2 t2 ?sv5) = ?sv5"
      "standard_end n res (fst (serveTarget cd cfg (Some rep2) now2 t2 ?sv4)) = (?sv5, [], Done res)"
      by (cases "AdInt cd rep2 AttrCommand"; simp add: serveTarget_def standard_end_def drop_request_def)+
  qed
  show ?thesis using d w e second by (intro conjI exI [of _ ?sv4] exI [of _ ?sv5] exI [of _ ?h]) auto
qed

definition direct_ad :: demo_ad where
  "direct_ad = demo_fields [(AttrCCBID, ''1''), (AttrClaimID, ''secret''), (AttrMyAddress, ''<10.1.1.1:9>''), (AttrName, ''schedd'')]"

definition report_ad :: demo_ad where
  "report_ad = demo_fields [(AttrRequestID, ''1''), (AttrResult, ''true'')]"

theorem standard_request_answered_witness:
  "\<exists>sv1 n t fwd sv3 p3 sv4 res. handleStandardRequest demo_cedar t ''secret'' ''<10.1.1.1:9>'' ''schedd'' empty_server =
     (sv1, [], StdForward n t fwd) \<and> serveTarget demo_cedar demo_cfg (Some report_ad) 6 t sv1 = (sv3, [], p3) \<and>
     standard_wait (demo_conn 3) WReady True n t sv3 = (sv4, [SendAd 3 (replySuccess False)], StdEnd n res)"
proof -
  define t where "t = \<lparr> t_id = 1, t_name = ''n'', t_cookie = ''c'', t_conn = 5 \<rparr>"
  let ?h = "handleStandardRequest demo_cedar t ''secret'' ''<10.1.1.1:9>'' ''schedd'' empty_server"
  obtain sv1 es p where h: "?h = (sv1, es, p)" by (metis prod_cases3)
  have "formatUint (unat (1 :: uint64)) = ''1''" by code_simp
  then obtain fwd req where p: "p = StdForward 1 t fwd" "es = []" "map_of fwd AttrRequestID = Some (VStr ''1'')"
    "sv_requests sv1 1 = Some req" "rq_replyCh req = None"
    using h by (auto simp: handleStandardRequest_def empty_server_def Let_def)
  obtain sv3 es3 p3 where s: "serveTarget demo_cedar demo_cfg (Some report_ad) 6 t sv1 = (sv3, es3, p3)" by (metis prod_cases3)
  have r: "AdString demo_cedar report_ad AttrRequestID = ''1''" "AdInt demo_cedar report_ad AttrCommand = (0, False)"
    "report_of demo_cedar report_ad = replySuccess False" by code_simp+
  have m: "map_of fwd AttrRequestID = Some (VStr (AdString demo_cedar report_ad AttrRequestID))" using p(3) r(1) by simp
  from standard_request_answered [OF h [unfolded p(1)] m r(2) _ p(4,5) s, of "demo_conn 3"]
  obtain sv4 res where "es3 = []" "standard_wait (demo_conn 3) WReady True 1 t sv3 = (sv4, [SendAd 3 (replySuccess False)], StdEnd 1 res)"
    using r(3) by (auto simp: demo_conn_def)
  then show ?thesis using h s p(1,2) by blast
qed

text \<open>What the tables say of the session a handler waits for or splices.\<close>

lemma pending_session:
  assumes r: "reach (broker_start cfg) (broker_move cd cfg) b" and i: "kinds b i = Some (False, n)"
    and k: "sv_proxies (b_sv b) k = Some n" and s: "sv_sessions (b_sv b) n = Some s"
  shows "ps_connectID s = k" "ps_requesterConn s = i"
proof -
  have I: "own_inv (broker_own b)" using ownership.reach_inv [OF r] by simp
  show "ps_connectID s = k" using own_px [OF I, of k n] k s by (auto simp: broker_own_def own_of_def)
  show "ps_requesterConn s = i" using own_session [OF I, of i n] i s by (auto simp: broker_own_def own_of_def)
qed

lemma handler_conn:
  "reach (broker_start cfg) (broker_move cd cfg) b \<Longrightarrow> b_run b i = Some (c, p) \<Longrightarrow> cn_id c = i"
  using ownership.reach_inv [of cfg cd b] by (auto simp: conn_ok_def)

text \<open>A reverse connection arrives: the session is looked up, then the connection is handed over.\<close>

definition reverse_arrives :: "'ad cedar \<Rightarrow> bconfig \<Rightarrow> ccb_conn \<Rightarrow> 'ad \<Rightarrow> broker \<Rightarrow> broker" where
  "reverse_arrives cd cfg c a b =
     broker_step cd cfg (EvGo (cn_id c)) (broker_step cd cfg (EvReverseConnect c (Some a)) b)"

lemma reverse_arrives_idle:
  assumes "idle b (cn_id c)"
  shows "reverse_arrives cd cfg c a b =
    (case sv_proxies (b_sv b) (AdString cd a AttrClaimID) of
       None \<Rightarrow> b\<lparr> b_run := (b_run b)(cn_id c \<mapsto> (c, Done (HErr ''reverse-connect: no pending proxy session for connect id''))) \<rparr>
     | Some n \<Rightarrow> (case reverse_hand (cn_id c) n (b_sv b) of (sv, es, p) \<Rightarrow>
         b\<lparr> b_sv := sv, b_run := (b_run b)(cn_id c \<mapsto> (c, p)), b_trace := b_trace b @ es \<rparr>))"
  using assms by (simp add: reverse_arrives_def start_handler_def commit_def handleReverseConnect_def resume_handler_def
      resume_def split: option.split prod.split)



text \<open>
  C26. A reverse connection that comes too late is kept and never closed. Once the handler of a
  session has taken a connection from the channel, the channel is empty again, so while the splice
  lasts a further reverse connection with the same connect id is accepted; it waits until the
  splice ends, is neither spliced nor answered, and its handler then keeps it open: the broker
  closes the two connections of the splice and sends nothing else.
\<close>

theorem late_reverse_connect_kept:
  assumes r: "reach (broker_start cfg) (broker_move cd cfg) b" and i: "b_run b i = Some (c, Splicing n tc)"
    and k: "sv_proxies (b_sv b) (AdString cd a AttrClaimID) = Some n"
    and s: "sv_sessions (b_sv b) n = Some s" "ps_targetCh s = None" and idle: "idle b (cn_id c')"
    and b1: "b1 = reverse_arrives cd cfg c' a b" and b2: "b2 = broker_step cd cfg (EvSpliceEnd i) b1"
    and b3: "b3 = broker_step cd cfg (EvGo i) b2" and b4: "b4 = broker_step cd cfg (EvReverseWait (cn_id c') False) b3"
  shows "b_run b1 (cn_id c') = Some (c', RcWait n) \<and> b_run b1 i = Some (c, Splicing n tc) \<and>
    b_run b3 i = Some (c, Done HKeepOpen) \<and> b_run b4 (cn_id c') = Some (c', Done HKeepOpen) \<and>
    b_trace b4 = b_trace b @ [CloseConn i, CloseConn tc] \<and> cn_id c' \<noteq> i \<and>
    sv_proxies (b_sv b4) (AdString cd a AttrClaimID) = None"
proof -
  have c: "cn_id c = i" by (rule handler_conn [OF r i])
  have "kinds b i = Some (False, n)" using i by (simp add: kinds_def)
  note sess = pending_session [OF r this k s(1)]
  have ne: "cn_id c' \<noteq> i" using idle i by (auto simp: idle_def)
  let ?s1 = "s\<lparr> ps_targetCh := Some (cn_id c') \<rparr>"
  have b1': "b1 = b\<lparr> b_sv := (b_sv b)\<lparr> sv_sessions := (sv_sessions (b_sv b))(n \<mapsto> ?s1) \<rparr>,
      b_run := (b_run b)(cn_id c' \<mapsto> (c', RcWait n)) \<rparr>"
    unfolding b1 reverse_arrives_idle [OF idle] using k s by (simp add: reverse_hand_def)
  have b2': "b2 = b\<lparr> b_sv := (b_sv b)\<lparr> sv_sessions := (sv_sessions (b_sv b))(n \<mapsto> ?s1\<lparr> ps_done := True \<rparr>) \<rparr>,
      b_run := (b_run b)(cn_id c' \<mapsto> (c', RcWait n), i \<mapsto> (c, PxEnd n HKeepOpen)),
      b_trace := b_trace b @ [CloseConn i, CloseConn tc] \<rparr>"
    using i ne c by (simp add: b2 b1' resume_handler_def resume_def splice_done_def finish_session_def)
  have b3': "b3 = b2\<lparr> b_sv := (b_sv b2)\<lparr> sv_proxies := (sv_proxies (b_sv b))(AdString cd a AttrClaimID := None) \<rparr>,
      b_run := (b_run b2)(i \<mapsto> (c, Done HKeepOpen)) \<rparr>"
    using ne sess by (simp add: b3 b2' resume_handler_def resume_def proxy_end_def drop_session_def)
  have b4': "b4 = b3\<lparr> b_run := (b_run b3)(cn_id c' \<mapsto> (c', Done HKeepOpen)) \<rparr>"
    using ne by (simp add: b4 b3' b2' resume_handler_def resume_def reverse_wait_def)
  show ?thesis using ne i by (simp add: b1' b2' b3' b4')
qed

definition demo_splice :: "demo_ad event list" where
  "demo_splice = demo_pending @ [EvReverseConnect (demo_conn 4) (Some hello_ad), EvGo 4, EvWait 3 WReady True True]"

theorem late_reverse_connect_kept_witness:
  "\<exists>b1. b1 = reverse_arrives demo_cedar demo_cfg (demo_conn 5) hello_ad (demo_run demo_splice) \<and>
     b_run b1 5 = Some (demo_conn 5, RcWait 1) \<and> b_run b1 3 = Some (demo_conn 3, Splicing 1 4)"
proof -
  let ?b = "demo_run demo_splice"
  have r: "reach (broker_start demo_cfg) (broker_move demo_cedar demo_cfg) ?b" by (rule demo_reach) code_simp
  have c: "b_run ?b 3 = Some (demo_conn 3, Splicing 1 4)"
    "AdString demo_cedar hello_ad AttrClaimID = ''secret''" "sv_proxies (b_sv ?b) ''secret'' = Some 1"
    "(case sv_sessions (b_sv ?b) 1 of Some s \<Rightarrow> ps_targetCh s = None | None \<Rightarrow> False)" "idle ?b 5" by code_simp+
  from c(4) obtain s where s: "sv_sessions (b_sv ?b) 1 = Some s" "ps_targetCh s = None" by (auto split: option.splits)
  have k: "sv_proxies (b_sv ?b) (AdString demo_cedar hello_ad AttrClaimID) = Some 1" using c(2,3) by simp
  have n: "idle ?b (cn_id (demo_conn 5))" using c(5) by (simp add: demo_conn_def)
  from late_reverse_connect_kept [OF r c(1) k s n refl refl refl refl] show ?thesis by (auto simp: demo_conn_def)
qed

end
