(* ===== verification/Go_Glob.thy ===== *)
theory Go_Glob
  imports Go_Strings
begin

text \<open>
  Go's \<open>filepath.Match\<close> on Unix, for ASCII patterns and names: the pattern is cut into chunks
  at its stars, a chunk is matched at the current position, and a star tries the following
  positions up to the next slash. \<open>None\<close> is \<open>ErrBadPattern\<close>.
\<close>

section \<open>Character classes\<close>

text \<open>\<open>getEsc\<close>: a possibly escaped character, which something must follow.\<close>

fun getEsc :: "string \<Rightarrow> (char \<times> string) option" where
  "getEsc [] = None"
| "getEsc (c # cs) =
     (if c = CHR ''-'' \<or> c = CHR '']'' then None
      else if c = CHR 0x5C then
        (case cs of d # r # rs \<Rightarrow> Some (d, r # rs) | _ \<Rightarrow> None)
      else if cs = [] then None else Some (c, cs))"

lemma getEsc_shorter: "getEsc s = Some (c, r) \<Longrightarrow> length r < length s"
  by (cases s) (auto split: if_splits list.splits)

text \<open>The ranges of a class after the opening bracket: whether the character matches one.\<close>

function classLoop :: "char option \<Rightarrow> bool \<Rightarrow> bool \<Rightarrow> string \<Rightarrow> (bool \<times> string) option" where
  "classLoop r any match chunk =
     (if any \<and> chunk \<noteq> [] \<and> hd chunk = CHR '']'' then Some (match, tl chunk)
      else case getEsc chunk of
        None \<Rightarrow> None
      | Some (lo, chunk1) \<Rightarrow>
          if hd chunk1 = CHR ''-'' then
            (case getEsc (tl chunk1) of
               None \<Rightarrow> None
             | Some (hi, chunk2) \<Rightarrow>
                 classLoop r True (match \<or> (case r of None \<Rightarrow> False | Some x \<Rightarrow> lo \<le> x \<and> x \<le> hi)) chunk2)
          else classLoop r True (match \<or> r = Some lo) chunk1)"
  by pat_completeness auto
termination
  by (relation "measure (\<lambda>(r, any, match, chunk). length chunk)")
    (auto dest!: getEsc_shorter)

declare classLoop.simps [simp del]

lemma classLoop_shorter: "classLoop r any match chunk = Some (m, rest) \<Longrightarrow> length rest < length chunk"
proof (induction "length chunk" arbitrary: r any match chunk rule: less_induct)
  case less
  have IH: "classLoop q a mt c = Some (m, rest) \<Longrightarrow> length c < length chunk \<Longrightarrow> length rest < length chunk"
    for q a mt c using less.hyps [of c q a mt] by simp
  from less.prems show ?case
    unfolding classLoop.simps [of r any match chunk]
    by (auto split: if_splits option.splits prod.splits dest!: getEsc_shorter elim!: IH)
qed

section \<open>Chunks\<close>

text \<open>
  \<open>matchChunk\<close>: \<open>Some (Some rest)\<close> is a match with the rest of the name, \<open>Some None\<close> no match.
  After a mismatch the chunk is still checked to the end for being well formed.
\<close>

function matchChunk :: "bool \<Rightarrow> string \<Rightarrow> string \<Rightarrow> string option option" where
  "matchChunk failed [] s = Some (if failed then None else Some s)"
| "matchChunk failed0 (c # chunk) s =
     (let failed = failed0 \<or> s = []
      in if c = CHR ''['' then
           let (negated, body) = (if chunk \<noteq> [] \<and> hd chunk = CHR ''^'' then (True, tl chunk) else (False, chunk))
           in case classLoop (if failed then None else Some (hd s)) False False body of
                None \<Rightarrow> None
              | Some (m, rest) \<Rightarrow> matchChunk (failed \<or> m = negated) rest (if failed then s else tl s)
         else if c = CHR ''?'' then
           matchChunk (failed \<or> hd s = CHR ''/'') chunk (if failed then s else tl s)
         else if c = CHR 0x5C then
           (case chunk of
              [] \<Rightarrow> None
            | d # rest \<Rightarrow> matchChunk (failed \<or> d \<noteq> hd s) rest (if failed then s else tl s))
         else matchChunk (failed \<or> c \<noteq> hd s) chunk (if failed then s else tl s))"
  by pat_completeness auto
termination
  by (relation "measure (\<lambda>(f, chunk, s). length chunk)")
    (auto dest!: classLoop_shorter split: if_splits simp: less_Suc_eq_le intro: less_imp_le_nat less_le_trans)

section \<open>Matching\<close>

text \<open>\<open>scanChunk\<close>: leading stars, then everything up to the next star outside a class.\<close>

fun chunkLen :: "bool \<Rightarrow> string \<Rightarrow> nat" where
  "chunkLen inrange [] = 0"
| "chunkLen inrange (c # cs) =
     (if c = CHR 0x5C then (case cs of [] \<Rightarrow> 1 | _ # r \<Rightarrow> 2 + chunkLen inrange r)
      else if c = CHR ''['' then 1 + chunkLen True cs
      else if c = CHR '']'' then 1 + chunkLen False cs
      else if c = CHR ''*'' \<and> \<not> inrange then 0
      else 1 + chunkLen inrange cs)"

definition scanChunk :: "string \<Rightarrow> bool \<times> string \<times> string" where
  "scanChunk pattern =
     (let p = dropWhile (\<lambda>c. c = CHR ''*'') pattern; i = chunkLen False p
      in (length p < length pattern, take i p, drop i p))"

lemma scanChunk_shorter: "pattern \<noteq> [] \<Longrightarrow> scanChunk pattern = (star, chunk, rest) \<Longrightarrow> length rest < length pattern"
proof -
  assume ne: "pattern \<noteq> []" and sc: "scanChunk pattern = (star, chunk, rest)"
  let ?p = "dropWhile (\<lambda>c. c = CHR ''*'') pattern"
  have r: "rest = drop (chunkLen False ?p) ?p" using sc by (simp add: scanChunk_def Let_def)
  show ?thesis
  proof (cases "length ?p < length pattern")
    case True
    then show ?thesis by (simp add: r)
  next
    case False
    then obtain c cs where "pattern = c # cs" "c \<noteq> CHR ''*''"
      using ne length_dropWhile_le [of "\<lambda>c. c = CHR ''*''" "tl pattern"]
      by (cases pattern) (auto split: if_splits)
    moreover from this have "0 < chunkLen False (c # cs)" by (auto split: list.splits)
    ultimately show ?thesis by (simp add: r)
  qed
qed

text \<open>The positions after a star at which the chunk may match: skipping one to all characters before a slash.\<close>

fun starMatch :: "string \<Rightarrow> bool \<Rightarrow> string \<Rightarrow> string option option" where
  "starMatch chunk lst [] = Some None"
| "starMatch chunk lst (c # name) =
     (if c = CHR ''/'' then Some None
      else case matchChunk False chunk name of
             None \<Rightarrow> None
           | Some (Some t) \<Rightarrow> if lst \<and> t \<noteq> [] then starMatch chunk lst name else Some (Some t)
           | Some None \<Rightarrow> starMatch chunk lst name)"

text \<open>The check of the rest of the pattern before a mismatch is reported.\<close>

function wellFormed :: "string \<Rightarrow> bool" where
  "wellFormed pattern =
     (if pattern = [] then True
      else let (star, chunk, rest) = scanChunk pattern
           in matchChunk False chunk [] \<noteq> None \<and> wellFormed rest)"
  by pat_completeness auto
termination
  by (relation "measure length") (auto dest: scanChunk_shorter [OF _ sym])

declare wellFormed.simps [simp del]

definition noMatch :: "string \<Rightarrow> bool option" where
  "noMatch pattern = (if wellFormed pattern then Some False else None)"

function filepathMatch :: "string \<Rightarrow> string \<Rightarrow> bool option" where
  "filepathMatch pattern name =
     (if pattern = [] then Some (name = [])
      else let (star, chunk, rest) = scanChunk pattern
           in if star \<and> chunk = [] then Some (CHR ''/'' \<notin> set name)
              else case matchChunk False chunk name of
                Some (Some t) \<Rightarrow>
                  if t = [] \<or> rest \<noteq> [] then filepathMatch rest t
                  else if star then
                    (case starMatch chunk (rest = []) name of
                       None \<Rightarrow> None | Some (Some t') \<Rightarrow> filepathMatch rest t' | Some None \<Rightarrow> noMatch rest)
                  else noMatch rest
              | Some None \<Rightarrow>
                  if star then
                    (case starMatch chunk (rest = []) name of
                       None \<Rightarrow> None | Some (Some t') \<Rightarrow> filepathMatch rest t' | Some None \<Rightarrow> noMatch rest)
                  else noMatch rest
              | None \<Rightarrow> None)"
  by pat_completeness auto
termination
  by (relation "measure (\<lambda>(p, n). length p)") (auto dest: scanChunk_shorter [OF _ sym])

declare filepathMatch.simps [simp del]

section \<open>Literal patterns and suffixes\<close>

text \<open>A character that stands for itself in a pattern.\<close>

definition plain :: "char \<Rightarrow> bool" where
  "plain c \<longleftrightarrow> c \<notin> {CHR ''*'', CHR ''?'', CHR ''['', CHR 0x5C}"

lemma matchChunk_plain:
  "list_all plain lit \<Longrightarrow>
   matchChunk f lit s = Some (if f \<or> \<not> hasPrefix s lit then None else Some (drop (length lit) s))"
proof (induction lit arbitrary: f s)
  case (Cons c lit)
  have c: "c \<noteq> CHR ''['' \<and> c \<noteq> CHR ''?'' \<and> c \<noteq> CHR 0x5C" using Cons.prems by (simp add: plain_def)
  show ?case
  proof (cases s)
    case Nil
    then show ?thesis using Cons c by (simp add: hasPrefix_def)
  next
    case (Cons d s')
    then show ?thesis using Cons.IH Cons.prems c by (auto simp: hasPrefix_def)
  qed
qed (simp add: hasPrefix_def)

lemma chunkLen_plain: "list_all plain lit \<Longrightarrow> chunkLen f lit = length lit"
  by (induction lit arbitrary: f) (auto simp: plain_def)

lemma scanChunk_star: "list_all plain lit \<Longrightarrow> scanChunk (CHR ''*'' # lit) = (True, lit, [])"
proof -
  assume p: "list_all plain lit"
  then have "dropWhile (\<lambda>c. c = CHR ''*'') lit = lit" by (cases lit) (auto simp: plain_def)
  then show ?thesis by (simp add: scanChunk_def chunkLen_plain [OF p])
qed

text \<open>A star in front of literal text matches the names that end in it, with no slash before.\<close>

lemma starMatch_plain:
  "list_all plain lit \<Longrightarrow> starMatch lit True name =
     Some (if \<exists>c x. name = c # x @ lit \<and> CHR ''/'' \<notin> set (c # x) then Some [] else None)"
proof (induction name)
  case (Cons c name)
  show ?case
  proof (cases "c = CHR ''/''")
    case True
    then show ?thesis by simp
  next
    case False
    have IH: "starMatch lit True name =
      Some (if \<exists>d x. name = d # x @ lit \<and> CHR ''/'' \<notin> set (d # x) then Some [] else None)"
      using Cons by simp
    show ?thesis
    proof (cases "name = lit")
      case True
      have "\<not> (\<exists>d x. name = d # x @ lit)" using True by (auto dest: arg_cong [where f = length])
      have "starMatch lit True (c # name) = Some (Some [])"
        using Cons.prems False True by (simp add: matchChunk_plain hasPrefix_def)
      moreover have "c # name = c # [] @ lit \<and> CHR ''/'' \<notin> set [c]" using False True by simp
      ultimately show ?thesis by auto
    next
      case ne: False
      have "starMatch lit True (c # name) = starMatch lit True name"
        using Cons.prems False ne
        by (auto simp: matchChunk_plain hasPrefix_def)
      moreover have "(\<exists>d x. c # name = d # x @ lit \<and> CHR ''/'' \<notin> set (d # x)) \<longleftrightarrow>
        (\<exists>d x. name = d # x @ lit \<and> CHR ''/'' \<notin> set (d # x))" (is "?L = ?R")
      proof
        assume ?L
        then obtain x where "name = x @ lit" "CHR ''/'' \<notin> set x" by auto
        with ne show ?R by (cases x) auto
      next
        assume ?R
        then obtain d x where "name = (d # x) @ lit" "CHR ''/'' \<notin> set (d # x)" by auto
        then have "c # name = c # (d # x) @ lit \<and> CHR ''/'' \<notin> set (c # d # x)" using False by auto
        then show ?L by blast
      qed
      ultimately show ?thesis using IH by simp
    qed
  qed
qed simp

lemma filepathMatch_suffix:
  assumes p: "list_all plain lit" and ne: "lit \<noteq> []"
  shows "filepathMatch (CHR ''*'' # lit) name = Some (\<exists>x. name = x @ lit \<and> CHR ''/'' \<notin> set x)"
proof -
  have end_match: "filepathMatch [] [] = Some True" "noMatch [] = Some False"
    by (simp_all add: filepathMatch.simps noMatch_def wellFormed.simps)
  have star: "(case starMatch lit True name of None \<Rightarrow> None | Some (Some t') \<Rightarrow> filepathMatch [] t' | Some None \<Rightarrow> noMatch []) =
    Some (\<exists>c x. name = c # x @ lit \<and> CHR ''/'' \<notin> set (c # x))"
    using end_match by (simp add: starMatch_plain [OF p])
  have ex: "(\<exists>x. name = x @ lit \<and> CHR ''/'' \<notin> set x) \<longleftrightarrow>
    name = lit \<or> (\<exists>c x. name = c # x @ lit \<and> CHR ''/'' \<notin> set (c # x))" (is "?L = ?R")
  proof
    assume ?L
    then obtain x where "name = x @ lit" "CHR ''/'' \<notin> set x" by auto
    then show ?R by (cases x) auto
  next
    assume ?R
    then show ?L
    proof
      assume "name = lit"
      then show ?L by (intro exI [of _ "[]"]) simp
    next
      assume "\<exists>c x. name = c # x @ lit \<and> CHR ''/'' \<notin> set (c # x)"
      then obtain c x where "name = (c # x) @ lit" "CHR ''/'' \<notin> set (c # x)" by auto
      then show ?L by blast
    qed
  qed
  show ?thesis
  proof (cases "hasPrefix name lit \<and> drop (length lit) name = []")
    case True
    then have "name = lit" by (metis append_Nil2 append_take_drop_id hasPrefix_def)
    then show ?thesis unfolding ex
      by (simp add: filepathMatch.simps [of "CHR ''*'' # lit"] scanChunk_star [OF p] matchChunk_plain [OF p] hasPrefix_def ne end_match)
  next
    case False
    then have "name \<noteq> lit" by (auto simp: hasPrefix_def)
    then show ?thesis unfolding ex using False star
      by (auto simp: filepathMatch.simps [of "CHR ''*'' # lit"] scanChunk_star [OF p] matchChunk_plain [OF p] ne)
  qed
qed

end
