(* ===== verification/Ccb_Outbound.thy ===== *)
theory Ccb_Outbound
  imports Ccb_Relay Go_Glob
begin

text \<open>
  The outbound proxy (\<open>outbound.go\<close>): the egress control of an exit broker, the two transports,
  and the handler of CCB_PROXY_CONNECT. Dialling is done by the network and by the cedar client;
  what they return is an argument. The handler does not touch the broker's tables; what it does
  to the outside is the list of its actions, in order.
\<close>

section \<open>Egress control\<close>

text \<open>
  The loop of \<open>matchAllowlist\<close>. A pattern with a syntax error matches nothing, since the source
  ignores the error of \<open>filepath.Match\<close>.
\<close>

fun allowlist_loop :: "string \<Rightarrow> ip option \<Rightarrow> bool \<Rightarrow> string list \<Rightarrow> bool" where
  "allowlist_loop host ip hasEntry [] \<longleftrightarrow> \<not> hasEntry"
| "allowlist_loop host ip hasEntry (pat0 # pats) \<longleftrightarrow>
     (let pat = trimSpace pat0
      in if pat = [] then allowlist_loop host ip hasEntry pats
         else case parseCIDR pat of
           Some cidr \<Rightarrow>
             if (case ip of None \<Rightarrow> False | Some a \<Rightarrow> ipnet_contains cidr a) then True
             else allowlist_loop host ip True pats
         | None \<Rightarrow>
             if containsAny pat ''*?['' then
               if filepathMatch (toLower pat) (toLower host) = Some True then True
               else allowlist_loop host ip True pats
             else if equalFold pat host then True
             else allowlist_loop host ip True pats)"

definition matchAllowlist :: "bconfig \<Rightarrow> string \<Rightarrow> bool" where
  "matchAllowlist cfg host = allowlist_loop host (parseIP host) False (c_OutboundTargetAllowlist cfg)"

definition local_scope :: "ip \<Rightarrow> bool" where
  "local_scope a \<longleftrightarrow> isLoopback a \<or> isLinkLocalUnicast a \<or> isLinkLocalMulticast a \<or> isUnspecified a"

text \<open>The error is the message relayed to the requester.\<close>

definition outboundTargetAllowed :: "'ad cedar \<Rightarrow> bconfig \<Rightarrow> string \<Rightarrow> string + string" where
  "outboundTargetAllowed cd cfg tgt =
     (case ParseSinful cd tgt of
        None \<Rightarrow> Inl (''bad target sinful '' @ quote tgt)
      | Some (host, port) \<Rightarrow>
          if host = [] \<or> port = [] then Inl (''target '' @ quote tgt @ '' has no host:port'')
          else if (case parseIP host of Some a \<Rightarrow> local_scope a | None \<Rightarrow> False)
          then Inl (''target '' @ quote host @ '' is loopback/link-local (refused)'')
          else if parseIP host = None \<and> equalFold host ''localhost''
          then Inl (''target '' @ quote host @ '' is loopback (refused)'')
          else if \<not> matchAllowlist cfg host
          then Inl (''target host '' @ quote host @ '' not permitted by CCB_OUTBOUND_TARGET_ALLOWLIST'')
          else Inr (joinHostPort host port))"

section \<open>Transports\<close>

datatype action =
    Reply connId ad_fields
  | DialTCP string
  | ForwardHop string string int
  | ClosePipe connId
  | Splice connId connId

text \<open>
  What dialling returns: \<open>net_dial\<close> for a TCP address, \<open>net_next\<close> for a proxy-connect forwarded to
  a next-hop broker (address, target, remaining hops). The left side is the error's text.
\<close>

record net_env =
  net_dial :: "string \<Rightarrow> string + connId"
  net_next :: "string \<Rightarrow> string \<Rightarrow> int \<Rightarrow> string + connId"

definition tcpDirect_connect ::
  "'ad cedar \<Rightarrow> bconfig \<Rightarrow> net_env \<Rightarrow> string \<Rightarrow> action list \<times> (string + connId)" where
  "tcpDirect_connect cd cfg env tgt =
     (case outboundTargetAllowed cd cfg tgt of
        Inl e \<Rightarrow> ([], Inl e)
      | Inr addr \<Rightarrow>
          ([DialTCP addr],
           case net_dial env addr of
             Inl e \<Rightarrow> Inl (''failed to dial target: '' @ e)
           | Inr conn \<Rightarrow> Inr conn))"

definition nextHop_connect ::
  "string \<Rightarrow> net_env \<Rightarrow> string \<Rightarrow> int \<Rightarrow> action list \<times> (string + connId)" where
  "nextHop_connect broker env tgt ttl =
     (if ttl \<le> 0 then ([], Inl ''outbound proxy TTL expired'')
      else ([ForwardHop broker tgt (ttl - 1)],
            case net_next env broker tgt (ttl - 1) of
              Inl e \<Rightarrow> Inl (''next-hop '' @ broker @ '': '' @ e)
            | Inr conn \<Rightarrow> Inr conn))"

definition outbound_connect ::
  "'ad cedar \<Rightarrow> bconfig \<Rightarrow> outbound \<Rightarrow> net_env \<Rightarrow> string \<Rightarrow> int \<Rightarrow> action list \<times> (string + connId)" where
  "outbound_connect cd cfg ob env tgt ttl =
     (case ob of
        TcpDirect \<Rightarrow> tcpDirect_connect cd cfg env tgt
      | NextHop broker timeout via \<Rightarrow> nextHop_connect broker env tgt ttl)"

section \<open>The handler\<close>

definition fail_connect :: "ccb_conn \<Rightarrow> string \<Rightarrow> action list \<times> handler_result" where
  "fail_connect c msg = ([Reply (cn_id c) (replyFailure msg)], HErr (''request failed: '' @ msg))"

definition request_ttl :: "'ad cedar \<Rightarrow> bconfig \<Rightarrow> 'ad \<Rightarrow> int" where
  "request_ttl cd cfg a =
     (case AdInt cd a AttrCCBTTL of
        (v, ok) \<Rightarrow> if ok then v else if c_OutboundTTL cfg \<le> 0 then 8 else c_OutboundTTL cfg)"

text \<open>\<open>ad\<close> is the request as it was read, \<open>wrote\<close> tells whether the success reply could be written.\<close>

definition handleProxyConnect ::
  "'ad cedar \<Rightarrow> bconfig \<Rightarrow> outbound \<Rightarrow> net_env \<Rightarrow> ccb_conn \<Rightarrow> 'ad option \<Rightarrow> bool \<Rightarrow> action list \<times> handler_result" where
  "handleProxyConnect cd cfg ob env c ad wrote =
     (if \<not> authorize cfg c CommandProxyConnect then fail_connect c ''authorization denied''
      else case ad of
        None \<Rightarrow> ([], HErr ''proxy-connect: reading ad'')
      | Some a \<Rightarrow>
          let tgt = AdString cd a AttrMyAddress; connectID = AdString cd a AttrClaimID
          in if tgt = [] \<or> connectID = [] then fail_connect c ''proxy-connect missing MyAddress or ClaimId''
             else case outbound_connect cd cfg ob env tgt (request_ttl cd cfg a) of
               (acts, Inl e) \<Rightarrow> (acts @ fst (fail_connect c e), snd (fail_connect c e))
             | (acts, Inr conn) \<Rightarrow>
                 if wrote
                 then (acts @ [Reply (cn_id c) (replySuccess False), Splice (cn_id c) conn], HKeepOpen)
                 else (acts @ [ClosePipe conn], HErr ''write''))"

section \<open>The allow-list\<close>

text \<open>What one entry admits, and the reference reading of a list.\<close>

definition entry_admits :: "string \<Rightarrow> string \<Rightarrow> bool" where
  "entry_admits host pat \<longleftrightarrow>
     (case parseCIDR pat of
        Some cidr \<Rightarrow> (\<exists>a. parseIP host = Some a \<and> ipnet_contains cidr a)
      | None \<Rightarrow> if containsAny pat ''*?['' then filepathMatch (toLower pat) (toLower host) = Some True
                else equalFold pat host)"

lemma entry_admits_iff: "entry_admits host pat \<longleftrightarrow>
   (case parseCIDR pat of
      Some cidr \<Rightarrow> (case parseIP host of None \<Rightarrow> False | Some a \<Rightarrow> ipnet_contains cidr a)
    | None \<Rightarrow> if containsAny pat ''*?['' then filepathMatch (toLower pat) (toLower host) = Some True
              else equalFold pat host)"
  by (auto simp: entry_admits_def split: option.splits)

definition entries :: "bconfig \<Rightarrow> string list" where
  "entries cfg = filter (\<lambda>p. p \<noteq> []) (map trimSpace (c_OutboundTargetAllowlist cfg))"

lemma allowlist_loop_spec:
  "allowlist_loop host (parseIP host) has pats \<longleftrightarrow>
   (let es = filter (\<lambda>p. p \<noteq> []) (map trimSpace pats)
    in (\<exists>p \<in> set es. entry_admits host p) \<or> es = [] \<and> \<not> has)"
proof (induction pats arbitrary: has)
  case (Cons pat pats)
  show ?case
  proof (cases "trimSpace pat = []")
    case True
    then show ?thesis using Cons.IH by simp
  next
    case False
    then show ?thesis using Cons.IH [of True]
      by (auto simp: entry_admits_def Let_def split: option.splits)
  qed
qed simp

lemma matchAllowlist_spec:
  "matchAllowlist cfg host \<longleftrightarrow> (\<exists>p \<in> set (entries cfg). entry_admits host p) \<or> entries cfg = []"
  by (simp add: matchAllowlist_def allowlist_loop_spec entries_def Let_def)

lemma outboundTargetAllowed_Inr:
  assumes "outboundTargetAllowed cd cfg tgt = Inr addr"
  obtains host port where "ParseSinful cd tgt = Some (host, port)" "host \<noteq> []" "port \<noteq> []"
    "\<And>a. parseIP host = Some a \<Longrightarrow> \<not> local_scope a" "parseIP host = None \<Longrightarrow> \<not> equalFold host ''localhost''"
    "matchAllowlist cfg host" "addr = joinHostPort host port"
  using assms by (auto simp: outboundTargetAllowed_def split: option.splits if_splits)

section \<open>Properties\<close>

text \<open>
  C37. The matching means what its documentation says, whatever the order and the blanks of the
  entries: given a list with at least one non-blank entry, a host is admitted exactly if some
  non-blank entry admits it, as a network containing its address, as a glob, or as the same name
  up to case; otherwise it is refused.
\<close>

theorem allowlist_reference:
  "\<exists>p \<in> set (c_OutboundTargetAllowlist cfg). trimSpace p \<noteq> [] \<Longrightarrow>
   matchAllowlist cfg host \<longleftrightarrow>
   (\<exists>p \<in> set (map trimSpace (c_OutboundTargetAllowlist cfg)). p \<noteq> [] \<and> entry_admits host p)"
  by (auto simp: matchAllowlist_spec entries_def filter_empty_conv)

theorem allowlist_reference_witness:
  "matchAllowlist (example_bconfig\<lparr> c_OutboundTargetAllowlist := ['' '', ''10.0.0.0/8''] \<rparr>) ''10.1.2.3'' \<and>
   \<not> matchAllowlist (example_bconfig\<lparr> c_OutboundTargetAllowlist := ['' '', ''10.0.0.0/8''] \<rparr>) ''11.1.2.3''"
proof -
  let ?c = "example_bconfig\<lparr> c_OutboundTargetAllowlist := ['' '', ''10.0.0.0/8''] \<rparr>"
  have t: "trimSpace '' '' = []" "trimSpace ''10.0.0.0/8'' = ''10.0.0.0/8''" by code_simp+
  then have "\<exists>p \<in> set (c_OutboundTargetAllowlist ?c). trimSpace p \<noteq> []" by simp
  note r = allowlist_reference [OF this]
  have "entry_admits ''10.1.2.3'' ''10.0.0.0/8''" "\<not> entry_admits ''11.1.2.3'' ''10.0.0.0/8''"
    unfolding entry_admits_iff by code_simp+
  then show ?thesis unfolding r using t by simp
qed

text \<open>A list without a non-blank entry refuses nothing, although the documentation of the setting calls that deny by default.\<close>

lemma allowlist_empty_admits: "\<forall>p \<in> set (c_OutboundTargetAllowlist cfg). trimSpace p = [] \<Longrightarrow> matchAllowlist cfg host"
  by (auto simp: matchAllowlist_spec entries_def filter_empty_conv)

text \<open>A domain as it is written in a pattern: plain characters without blanks and slashes.\<close>

definition domain :: "string \<Rightarrow> bool" where
  "domain d \<longleftrightarrow> d \<noteq> [] \<and> list_all (\<lambda>c. plain c \<and> \<not> isSpace c \<and> c \<noteq> CHR ''/'') d"

lemma lower_cases: "lower c = c \<or> (97 \<le> (of_char (lower c) :: nat) \<and> (of_char (lower c) :: nat) \<le> 122)"
  by (simp add: lower_def Let_def)

lemma plain_lower: "plain c \<Longrightarrow> plain (lower c)"
  using lower_cases [of c] by (auto simp: plain_def)

text \<open>
  The usual entry \<open>*.domain\<close> admits exactly the hosts of that domain: those that end, up to
  case, in a dot and the domain, with no slash in front of it. In particular it admits neither
  the bare domain nor a host that merely contains it.
\<close>

theorem allowlist_domain:
  "domain d \<Longrightarrow> c_OutboundTargetAllowlist cfg = [''*.'' @ d] \<Longrightarrow>
   matchAllowlist cfg host \<longleftrightarrow> (\<exists>x. toLower host = x @ ''.'' @ toLower d \<and> CHR ''/'' \<notin> set x)"
proof -
  assume d: "domain d" and cfg: "c_OutboundTargetAllowlist cfg = [''*.'' @ d]"
  let ?p = "''*.'' @ d"
  have "\<not> isSpace (last ?p)" "\<not> isSpace (hd ?p)" using d by (auto simp: domain_def list_all_iff isSpace_def)
  then have t: "trimSpace ?p = ?p" unfolding trimSpace_def by (intro trimWith_id) simp_all
  have "CHR ''/'' \<notin> set ?p" using d by (auto simp: domain_def list_all_iff)
  then have c: "parseCIDR ?p = None" by (simp add: parseCIDR_def cutAt_def)
  have any: "containsAny ?p ''*?[''" by (simp add: containsAny_def)
  have l: "toLower ?p = CHR ''*'' # ''.'' @ toLower d" by (simp add: toLower_def lower_def)
  have "list_all plain (''.'' @ toLower d)"
    using d plain_lower by (auto simp: domain_def list_all_iff toLower_def plain_def [of "CHR ''.''"])
  from filepathMatch_suffix [OF this] have
    "filepathMatch (toLower ?p) (toLower host) = Some (\<exists>x. toLower host = x @ ''.'' @ toLower d \<and> CHR ''/'' \<notin> set x)"
    unfolding l by simp
  moreover have "entries cfg = [?p]" using t by (simp add: entries_def cfg)
  ultimately show ?thesis unfolding matchAllowlist_spec using c any by (simp add: entry_admits_def)
qed

definition domain_cfg :: bconfig where
  "domain_cfg = example_bconfig\<lparr> c_OutboundTargetAllowlist := [''*.wisc.edu''] \<rparr>"

theorem allowlist_domain_witness:
  "matchAllowlist domain_cfg ''Submit.WISC.edu'' \<and> \<not> matchAllowlist domain_cfg ''wisc.edu.evil.org''"
proof -
  have d: "domain ''wisc.edu''" by code_simp
  have c: "c_OutboundTargetAllowlist domain_cfg = [''*.'' @ ''wisc.edu'']" by (simp add: domain_cfg_def)
  have "toLower ''Submit.WISC.edu'' = ''submit'' @ ''.'' @ toLower ''wisc.edu''" "CHR ''/'' \<notin> set ''submit''" by code_simp+
  then have "matchAllowlist domain_cfg ''Submit.WISC.edu''" using allowlist_domain [OF d c] by blast
  moreover have "\<not> matchAllowlist domain_cfg ''wisc.edu.evil.org''"
  proof
    assume "matchAllowlist domain_cfg ''wisc.edu.evil.org''"
    then obtain x where "toLower ''wisc.edu.evil.org'' = x @ ''.'' @ toLower ''wisc.edu''"
      using allowlist_domain [OF d c] by blast
    then have "last (toLower ''wisc.edu.evil.org'') = last (toLower ''wisc.edu'')" by (simp add: toLower_def)
    moreover have "last (toLower ''wisc.edu.evil.org'') \<noteq> last (toLower ''wisc.edu'')" by code_simp
    ultimately show False by simp
  qed
  ultimately show ?thesis by simp
qed

text \<open>
  C8. An exit broker dials only on behalf of a peer authorized for proxying and only addresses it
  may: whatever the request says, every TCP address the handler dials is a host and port whose
  host, read as an address literal, is neither loopback nor link-local nor unspecified, is not
  called localhost, and passes the allow-list; and the handler dials at most once.
\<close>

theorem outbound_dial_safe:
  "handleProxyConnect cd cfg TcpDirect env c ad wrote = (acts, r) \<Longrightarrow> DialTCP addr \<in> set acts \<Longrightarrow>
   authorize cfg c CommandProxyConnect \<and> (\<exists>rest. acts = DialTCP addr # rest \<and> (\<forall>x. DialTCP x \<notin> set rest)) \<and>
   (\<exists>host port. addr = joinHostPort host port \<and> host \<noteq> [] \<and> port \<noteq> [] \<and> matchAllowlist cfg host \<and>
      (parseIP host = None \<longrightarrow> \<not> equalFold host ''localhost'') \<and>
      (\<forall>a. parseIP host = Some a \<longrightarrow> \<not> isLoopback a \<and> \<not> isLinkLocalUnicast a \<and> \<not> isLinkLocalMulticast a \<and> \<not> isUnspecified a))"
proof -
  assume h: "handleProxyConnect cd cfg TcpDirect env c ad wrote = (acts, r)" and d: "DialTCP addr \<in> set acts"
  then obtain a where auth: "authorize cfg c CommandProxyConnect" and a: "ad = Some a"
    and tc: "AdString cd a AttrMyAddress \<noteq> []" "AdString cd a AttrClaimID \<noteq> []"
    by (auto simp: handleProxyConnect_def fail_connect_def Let_def split: if_splits option.splits)
  let ?tgt = "AdString cd a AttrMyAddress"
  show ?thesis
  proof (cases "outboundTargetAllowed cd cfg ?tgt")
    case (Inl e)
    then show ?thesis using h d auth a tc
      by (auto simp: handleProxyConnect_def outbound_connect_def tcpDirect_connect_def fail_connect_def Let_def)
  next
    case (Inr addr')
    have acts: "addr' = addr \<and> (\<exists>rest. acts = DialTCP addr # rest \<and> (\<forall>x. DialTCP x \<notin> set rest))"
      using h d auth a tc Inr
      by (auto simp: handleProxyConnect_def outbound_connect_def tcpDirect_connect_def fail_connect_def Let_def
          split: sum.splits if_splits)
    from Inr obtain host port where hp: "ParseSinful cd ?tgt = Some (host, port)" "host \<noteq> []" "port \<noteq> []"
      "\<And>a. parseIP host = Some a \<Longrightarrow> \<not> local_scope a" "parseIP host = None \<Longrightarrow> \<not> equalFold host ''localhost''"
      "matchAllowlist cfg host" "addr' = joinHostPort host port"
      by (rule outboundTargetAllowed_Inr) (rule that)
    have "addr = joinHostPort host port" using acts hp(7) by simp
    moreover have "\<forall>a. parseIP host = Some a \<longrightarrow> \<not> isLoopback a \<and> \<not> isLinkLocalUnicast a \<and> \<not> isLinkLocalMulticast a \<and> \<not> isUnspecified a"
      using hp(4) by (simp add: local_scope_def)
    ultimately show ?thesis using acts auth hp(2,3,5,6) by (intro conjI exI [of _ host] exI [of _ port]) simp_all
  qed
qed


definition dial_env :: net_env where
  "dial_env = \<lparr> net_dial = (\<lambda>a. Inr 77), net_next = (\<lambda>b t n. Inl ''no route'') \<rparr>"

definition proxy_ad :: "string \<Rightarrow> demo_ad" where
  "proxy_ad tgt = demo_fields [(AttrMyAddress, tgt), (AttrClaimID, ''id''), (AttrCCBTTL, ''3'')]"

theorem outbound_dial_safe_witness:
  "\<exists>r host port. handleProxyConnect demo_cedar demo_cfg TcpDirect dial_env (demo_conn 1) (Some (proxy_ad ''10.2.3.4:9618'')) True =
     ([DialTCP ''10.2.3.4:9618'', Reply 1 (replySuccess False), Splice 1 77], r) \<and>
     ''10.2.3.4:9618'' = joinHostPort host port \<and> matchAllowlist demo_cfg host"
proof -
  have h: "handleProxyConnect demo_cedar demo_cfg TcpDirect dial_env (demo_conn 1) (Some (proxy_ad ''10.2.3.4:9618'')) True =
     ([DialTCP ''10.2.3.4:9618'', Reply 1 (replySuccess False), Splice 1 77], HKeepOpen)" by code_simp
  have "DialTCP ''10.2.3.4:9618'' \<in> set [DialTCP ''10.2.3.4:9618'', Reply 1 (replySuccess False), Splice 1 77]"
    by (simp only: list.set_intros)
  from outbound_dial_safe [OF h this] obtain host port where
    "''10.2.3.4:9618'' = joinHostPort host port" "matchAllowlist demo_cfg host" by (elim conjE exE) (rule that)
  with h show ?thesis by (intro exI [of _ HKeepOpen] exI [of _ host] exI [of _ port] conjI)
qed

text \<open>
  The local-scope refusal can be passed with a zone: a host that carries a percent sign is no
  address for \<open>net.ParseIP\<close> and is not called localhost, so with an empty allow-list the broker
  dials a loopback or link-local literal with a zone such as \<open>::1%lo\<close>.
\<close>

theorem outbound_zone_bypass:
  "ParseSinful cd tgt = Some (host, port) \<Longrightarrow> CHR ''%'' \<in> set host \<Longrightarrow> port \<noteq> [] \<Longrightarrow> entries cfg = [] \<Longrightarrow>
   outboundTargetAllowed cd cfg tgt = Inr (joinHostPort host port)"
proof -
  assume h: "ParseSinful cd tgt = Some (host, port)" and z: "CHR ''%'' \<in> set host" and p: "port \<noteq> []" and e: "entries cfg = []"
  have "lower (CHR ''%'') = CHR ''%''" by (simp add: lower_def Let_def)
  then have "CHR ''%'' \<in> set (toLower host)" using z unfolding toLower_def by (metis image_eqI list.set_map)
  moreover have "CHR ''%'' \<notin> set (toLower ''localhost'')" by code_simp
  ultimately have "\<not> equalFold host ''localhost''" unfolding equalFold_def by metis
  then show ?thesis using h p e z parseIP_zone [OF z]
    by (auto simp: outboundTargetAllowed_def matchAllowlist_spec)
qed

theorem outbound_zone_bypass_witness:
  "outboundTargetAllowed demo_cedar demo_cfg ''[::1%lo]:22'' = Inr ''[::1%lo]:22''"
proof -
  have "ParseSinful demo_cedar ''[::1%lo]:22'' = Some (''::1%lo'', ''22'')" by code_simp
  moreover have "entries demo_cfg = []" by code_simp
  ultimately have "outboundTargetAllowed demo_cedar demo_cfg ''[::1%lo]:22'' = Inr (joinHostPort ''::1%lo'' ''22'')"
    by (intro outbound_zone_bypass) simp_all
  then show ?thesis by (simp add: joinHostPort_def)
qed

section \<open>Hop limit\<close>









end
