(* ===== verification/Ccb_Upstream.thy ===== *)
theory Ccb_Upstream
  imports Ccb_Server
begin

text \<open>
  The inside broker's link to its upstream (\<open>upstream.go\<close>): the registration it makes, the dispatch of
  what arrives over it, the goroutine that publishes the tunnel contact and the ready file, and
  the query for the contact. The upstream listener belongs to cedar; its contact is what a poll
  sees. Files are a map from names to contents, and the outcomes of file operations are arguments.
\<close>

section \<open>The registration\<close>

record listenerConfig =
  ul_BrokerAddr :: string
  ul_Security :: bool
  ul_Name :: string
  ul_HeartbeatInterval :: int
  ul_overCarrier :: bool

definition startUpstream :: "bconfig \<Rightarrow> carrierRef option \<Rightarrow> upstreamConfig \<Rightarrow> listenerConfig" where
  "startUpstream cfg cc up =
     \<lparr> ul_BrokerAddr = up_BrokerAddr up, ul_Security = up_Security up, ul_Name = ''ccb-inside '' @ c_PublicAddress cfg,
       ul_HeartbeatInterval = up_HeartbeatInterval up, ul_overCarrier = (cc \<noteq> None \<and> isCarrier (up_BrokerAddr up)) \<rparr>"

text \<open>A connection from upstream: with a route it is relayed, without one it is served like any other.\<close>

datatype upstream_action = UpstreamRelay segment | UpstreamServe

definition upstream_handler :: "bconfig \<Rightarrow> connId \<Rightarrow> inboundMeta \<Rightarrow> string option \<Rightarrow> server \<Rightarrow> upstream_action" where
  "upstream_handler cfg conn meta genID sv =
     (if im_Route meta \<noteq> [] then UpstreamRelay (startInboundRelay cfg conn meta genID sv) else UpstreamServe)"

section \<open>The tunnel contact\<close>

definition TunnelContact :: "server \<Rightarrow> string" where
  "TunnelContact sv = sv_tunnelContact sv"

definition handleGetTunnelAddress :: "bconfig \<Rightarrow> ccb_conn \<Rightarrow> bool \<Rightarrow> bool \<Rightarrow> server \<Rightarrow> effect list \<times> handler_result" where
  "handleGetTunnelAddress cfg c got wrote sv =
     (if \<not> authorize cfg c CommandGetTunnelAddress then
        ([SendAd (cn_id c) [(AttrResult, VBool False), (AttrErrorString, VStr ''authorization denied'')]], HNil)
      else if \<not> got then ([], HErr ''read'')
      else let tc = TunnelContact sv; res = (if wrote then HNil else HErr ''write'')
           in if tc = [] then
                ([SendAd (cn_id c) [(AttrResult, VBool False),
                    (AttrErrorString, VStr ''CCB has no tunnel address yet (not registered upstream)'')]], res)
              else ([SendAd (cn_id c) [(AttrResult, VBool True), (AttrCCBAddress, VStr tc)]], res))"

text \<open>
  \<open>watchTunnelReady\<close> with \<open>writeReadyFile\<close>: where it stands. A write that fails may leave anything in
  the temporary file.
\<close>

datatype ready_pc = RdPoll | RdWrite string | RdRename string | RdSignal | RdReturned

record tunnel =
  tn_sv :: server
  tn_files :: "string \<rightharpoonup> string"
  tn_ready :: bool
  tn_pc :: ready_pc

definition watch_poll :: "string \<Rightarrow> tunnel \<Rightarrow> tunnel" where
  "watch_poll c t =
     (if c \<noteq> [] then t\<lparr> tn_sv := (tn_sv t)\<lparr> sv_tunnelContact := c \<rparr>, tn_pc := RdWrite c \<rparr> else t)"

definition ready_write :: "string \<Rightarrow> bool \<Rightarrow> string option \<Rightarrow> string \<Rightarrow> tunnel \<Rightarrow> tunnel" where
  "ready_write f wrote junk c t =
     (if f = [] then t\<lparr> tn_pc := RdSignal \<rparr>
      else if \<not> wrote then t\<lparr> tn_files := (tn_files t)(f @ ''.tmp'' := junk), tn_pc := RdSignal \<rparr>
      else t\<lparr> tn_files := (tn_files t)(f @ ''.tmp'' \<mapsto> c @ [CHR 0x0A]), tn_pc := RdRename c \<rparr>)"

definition ready_rename :: "string \<Rightarrow> bool \<Rightarrow> tunnel \<Rightarrow> tunnel" where
  "ready_rename f renamed t =
     (let tmp = f @ ''.tmp''
      in if \<not> renamed then t\<lparr> tn_files := (tn_files t)(tmp := None), tn_pc := RdSignal \<rparr>
         else t\<lparr> tn_files := (tn_files t)(f := tn_files t tmp, tmp := None), tn_pc := RdSignal \<rparr>)"

definition ready_signal :: "tunnel \<Rightarrow> tunnel" where
  "ready_signal t = t\<lparr> tn_ready := True, tn_pc := RdReturned \<rparr>"

text \<open>\<open>WaitTunnelReady\<close>: the results it can return in a state; none means that it waits.\<close>

datatype wait_result = WaitNil | WaitCtxErr

definition WaitTunnelReady :: "bconfig \<Rightarrow> bool \<Rightarrow> tunnel \<Rightarrow> wait_result list" where
  "WaitTunnelReady cfg ctx_done t =
     (if c_Upstream cfg = None then [WaitNil]
      else (if tn_ready t then [WaitNil] else []) @ (if ctx_done then [WaitCtxErr] else []))"

text \<open>The steps of the goroutine, and handlers that change the tables but not the contact.\<close>

inductive tunnel_step :: "string \<Rightarrow> tunnel \<Rightarrow> tunnel \<Rightarrow> bool" for f where
  tn_poll: "tn_pc t = RdPoll \<Longrightarrow> tunnel_step f t (watch_poll c t)"
| tn_stop: "tn_pc t = RdPoll \<Longrightarrow> tunnel_step f t (t\<lparr> tn_pc := RdReturned \<rparr>)"
| tn_write: "tn_pc t = RdWrite c \<Longrightarrow> tunnel_step f t (ready_write f wrote junk c t)"
| tn_rename: "tn_pc t = RdRename c \<Longrightarrow> tunnel_step f t (ready_rename f renamed t)"
| tn_signal: "tn_pc t = RdSignal \<Longrightarrow> tunnel_step f t (ready_signal t)"
| tn_serve: "sv_tunnelContact sv = sv_tunnelContact (tn_sv t) \<Longrightarrow> tunnel_step f t (t\<lparr> tn_sv := sv \<rparr>)"

section \<open>Invariant\<close>

definition tunnel_start :: "(string \<rightharpoonup> string) \<Rightarrow> tunnel \<Rightarrow> bool" where
  "tunnel_start fs t \<longleftrightarrow> sv_tunnelContact (tn_sv t) = [] \<and> tn_files t = fs \<and> \<not> tn_ready t \<and> tn_pc t = RdPoll"

definition file_ok :: "string \<Rightarrow> (string \<rightharpoonup> string) \<Rightarrow> tunnel \<Rightarrow> bool" where
  "file_ok f fs t \<longleftrightarrow>
     (\<forall>p. p \<noteq> f \<longrightarrow> p \<noteq> f @ ''.tmp'' \<longrightarrow> tn_files t p = fs p) \<and>
     (f = [] \<longrightarrow> tn_files t = fs) \<and>
     (tn_files t f = fs f \<or> TunnelContact (tn_sv t) \<noteq> [] \<and> tn_files t f = Some (TunnelContact (tn_sv t) @ [CHR 0x0A]))"

definition pc_ok :: "string \<Rightarrow> tunnel \<Rightarrow> bool" where
  "pc_ok f t \<longleftrightarrow>
     (case tn_pc t of
        RdPoll \<Rightarrow> TunnelContact (tn_sv t) = []
      | RdWrite c \<Rightarrow> c \<noteq> [] \<and> TunnelContact (tn_sv t) = c
      | RdRename c \<Rightarrow> c \<noteq> [] \<and> TunnelContact (tn_sv t) = c \<and> tn_files t (f @ ''.tmp'') = Some (c @ [CHR 0x0A]) \<and> f \<noteq> []
      | RdSignal \<Rightarrow> TunnelContact (tn_sv t) \<noteq> []
      | RdReturned \<Rightarrow> tn_ready t \<or> TunnelContact (tn_sv t) = [])"

definition tunnel_inv :: "string \<Rightarrow> (string \<rightharpoonup> string) \<Rightarrow> tunnel \<Rightarrow> bool" where
  "tunnel_inv f fs t \<longleftrightarrow> file_ok f fs t \<and> pc_ok f t \<and> (tn_ready t \<longrightarrow> TunnelContact (tn_sv t) \<noteq> [] \<and> tn_pc t = RdReturned)"

lemma tunnel_inv_step: "tunnel_inv f fs t \<Longrightarrow> tunnel_step f t t' \<Longrightarrow> tunnel_inv f fs t'"
  by (erule tunnel_step.cases)
     (auto simp: tunnel_inv_def file_ok_def pc_ok_def TunnelContact_def watch_poll_def ready_write_def ready_rename_def
        ready_signal_def Let_def fun_upd_apply split: ready_pc.splits)

interpretation tunnel_machine: invariant_machine "tunnel_start fs" "tunnel_step f" "tunnel_inv f fs" for f fs
proof
  show "tunnel_inv f fs t" if "tunnel_start fs t" for t
    using that by (simp add: tunnel_start_def tunnel_inv_def file_ok_def pc_ok_def TunnelContact_def)
  show "tunnel_inv f fs t'" if "tunnel_inv f fs t" "tunnel_step f t t'" for t t'
    using that by (rule tunnel_inv_step)
qed

lemma contact_stays:
  assumes "tunnel_inv f fs t" "tunnel_step f t t'" "TunnelContact (tn_sv t) \<noteq> []"
  shows "TunnelContact (tn_sv t') = TunnelContact (tn_sv t)"
  using assms(2,1,3)
  by cases (auto simp: tunnel_inv_def pc_ok_def TunnelContact_def watch_poll_def ready_write_def ready_rename_def ready_signal_def Let_def)

section \<open>Properties\<close>

text \<open>
  C23. Readiness is announced after the fact and in one piece: in every run of the publishing
  goroutine, with every outcome of its file operations, whoever sees the ready signal or the
  new ready file sees a published contact; the ready file has its old contents or the contact
  with a newline, never part of it, and no other file but the temporary one changes; a contact
  once published never changes; and from the signal on, an authorized query for the tunnel
  address and the contacts of local registrants carry it.
\<close>

theorem tunnel_published:
  "reach (tunnel_start fs) (tunnel_step f) t \<Longrightarrow>
   (tn_files t f = fs f \<or> TunnelContact (tn_sv t) \<noteq> [] \<and> tn_files t f = Some (TunnelContact (tn_sv t) @ [CHR 0x0A])) \<and>
   (\<forall>p. p \<noteq> f \<longrightarrow> p \<noteq> f @ ''.tmp'' \<longrightarrow> tn_files t p = fs p) \<and>
   (\<forall>t'. tunnel_step f t t' \<longrightarrow> TunnelContact (tn_sv t) \<noteq> [] \<longrightarrow> TunnelContact (tn_sv t') = TunnelContact (tn_sv t)) \<and>
   (tn_ready t \<longrightarrow>
      TunnelContact (tn_sv t) \<noteq> [] \<and>
      contactString cd cfg (tn_sv t) i = TunnelContact (tn_sv t) @ ''#'' @ formatUint (unat i) \<and>
      (authorize cfg c CommandGetTunnelAddress \<longrightarrow>
         handleGetTunnelAddress cfg c True True (tn_sv t) =
           ([SendAd (cn_id c) [(AttrResult, VBool True), (AttrCCBAddress, VStr (TunnelContact (tn_sv t)))]], HNil)))"
proof -
  assume "reach (tunnel_start fs) (tunnel_step f) t"
  then have i: "tunnel_inv f fs t" by (rule tunnel_machine.reach_inv)
  have "tn_ready t \<longrightarrow> TunnelContact (tn_sv t) \<noteq> []" using i by (simp add: tunnel_inv_def)
  moreover have "contactString cd cfg (tn_sv t) i = TunnelContact (tn_sv t) @ ''#'' @ formatUint (unat i)" if "TunnelContact (tn_sv t) \<noteq> []"
    using that by (simp add: contactString_def TunnelContact_def)
  moreover have "handleGetTunnelAddress cfg c True True (tn_sv t) =
      ([SendAd (cn_id c) [(AttrResult, VBool True), (AttrCCBAddress, VStr (TunnelContact (tn_sv t)))]], HNil)"
    if "TunnelContact (tn_sv t) \<noteq> []" "authorize cfg c CommandGetTunnelAddress"
    using that by (simp add: handleGetTunnelAddress_def)
  moreover note contact_stays [OF i]
  moreover have "file_ok f fs t" using i by (simp add: tunnel_inv_def)
  ultimately show ?thesis unfolding file_ok_def by blast
qed

definition demo_tunnel :: tunnel where
  "demo_tunnel = \<lparr> tn_sv = empty_server, tn_files = Map.empty, tn_ready = False, tn_pc = RdPoll \<rparr>"

definition demo_published :: tunnel where
  "demo_published = ready_signal (ready_rename ''/run/ready'' True
     (ready_write ''/run/ready'' True None ''<out:9618>#7'' (watch_poll ''<out:9618>#7'' demo_tunnel)))"

theorem tunnel_published_witness:
  "tn_ready demo_published \<and> tn_files demo_published ''/run/ready'' = Some (''<out:9618>#7'' @ [CHR 0x0A]) \<and>
   TunnelContact (tn_sv demo_published) = ''<out:9618>#7'' \<and> tn_files demo_published ''/run/other'' = None"
proof -
  let ?R = "reach (tunnel_start Map.empty) (tunnel_step ''/run/ready'')"
  note d = demo_tunnel_def watch_poll_def ready_write_def ready_rename_def Let_def
  have "?R demo_tunnel" by (rule reach_start) (simp add: tunnel_start_def demo_tunnel_def empty_server_def)
  then have "?R (watch_poll ''<out:9618>#7'' demo_tunnel)" by (rule reach_step) (rule tn_poll, simp add: d)
  then have "?R (ready_write ''/run/ready'' True None ''<out:9618>#7'' (watch_poll ''<out:9618>#7'' demo_tunnel))"
    by (rule reach_step) (rule tn_write, simp add: d)
  then have "?R (ready_rename ''/run/ready'' True (ready_write ''/run/ready'' True None ''<out:9618>#7'' (watch_poll ''<out:9618>#7'' demo_tunnel)))"
    by (rule reach_step) (rule tn_rename, simp add: d)
  then have r: "?R demo_published" unfolding demo_published_def by (rule reach_step) (rule tn_signal, simp add: d)
  have s: "tn_ready demo_published" "tn_files demo_published ''/run/ready'' \<noteq> None" "TunnelContact (tn_sv demo_published) = ''<out:9618>#7''"
    by code_simp+
  note a = tunnel_published [OF r]
  from a have "\<forall>p. p \<noteq> ''/run/ready'' \<longrightarrow> p \<noteq> ''/run/ready'' @ ''.tmp'' \<longrightarrow> tn_files demo_published p = Map.empty p"
    by (rule conjunct1 [OF conjunct2])
  then have o: "tn_files demo_published ''/run/other'' = None" by simp
  from a have "tn_files demo_published ''/run/ready'' = Map.empty ''/run/ready'' \<or>
      TunnelContact (tn_sv demo_published) \<noteq> [] \<and> tn_files demo_published ''/run/ready'' = Some (TunnelContact (tn_sv demo_published) @ [CHR 0x0A])"
    by (rule conjunct1)
  then have "tn_files demo_published ''/run/ready'' = Some (''<out:9618>#7'' @ [CHR 0x0A])" using s(2,3) by simp
  then show ?thesis using o s(1,3) by simp
qed

end
