(* ===== verification/Ccb_Splice.thy ===== *)
theory Ccb_Splice
  imports Ccb_Prelude
begin

text \<open>
  Splicing two connections (\<open>spliceConns\<close> of \<open>proxy.go\<close>): two goroutines, each of which copies from one
  connection to the other until reading or writing fails or the source ends, then closes both.
  A direction is named by its source: \<open>True\<close> copies from the first connection to the second. The
  peers send bytes, end their half of a connection, and connections may fail; a write that fails
  may have sent part of its bytes.
\<close>

section \<open>The machine\<close>

datatype copy_pc = Reading | Writing "byte list" | ClosingDst | ClosingSrc | Finished

record direction =
  dr_sent :: "byte list"
  dr_eof :: bool
  dr_read :: nat
  dr_out :: "byte list"
  dr_pc :: copy_pc

record splice =
  sp_dir :: "bool \<Rightarrow> direction"
  sp_closed :: "bool \<Rightarrow> bool"
  sp_failed :: bool

definition spliceConns :: splice where
  "spliceConns = \<lparr> sp_dir = (\<lambda>_. \<lparr> dr_sent = [], dr_eof = False, dr_read = 0, dr_out = [], dr_pc = Reading \<rparr>),
     sp_closed = (\<lambda>_. False), sp_failed = False \<rparr>"

definition on_dir :: "bool \<Rightarrow> (direction \<Rightarrow> direction) \<Rightarrow> splice \<Rightarrow> splice" where
  "on_dir d f s = s\<lparr> sp_dir := (sp_dir s)(d := f (sp_dir s d)) \<rparr>"

text \<open>A round of \<open>io.Copy\<close>: a read of some bytes, or its end, then a write, which may fail after \<open>k\<close> bytes.\<close>

definition copy_read :: "nat \<Rightarrow> direction \<Rightarrow> direction" where
  "copy_read n r = r\<lparr> dr_pc := Writing (take n (drop (dr_read r) (dr_sent r))), dr_read := dr_read r + n \<rparr>"

definition copy_end :: "direction \<Rightarrow> direction" where
  "copy_end r = r\<lparr> dr_pc := ClosingDst \<rparr>"

definition copy_wrote :: "byte list \<Rightarrow> direction \<Rightarrow> direction" where
  "copy_wrote bs r = r\<lparr> dr_out := dr_out r @ bs, dr_pc := Reading \<rparr>"

definition copy_broke :: "nat \<Rightarrow> byte list \<Rightarrow> direction \<Rightarrow> direction" where
  "copy_broke k bs r = r\<lparr> dr_out := dr_out r @ take k bs, dr_pc := ClosingDst \<rparr>"

text \<open>The two closes after the copy.\<close>

definition close_dst :: "bool \<Rightarrow> splice \<Rightarrow> splice" where
  "close_dst d s = on_dir d (\<lambda>r. r\<lparr> dr_pc := ClosingSrc \<rparr>) (s\<lparr> sp_closed := (sp_closed s)(\<not> d := True) \<rparr>)"

definition close_src :: "bool \<Rightarrow> splice \<Rightarrow> splice" where
  "close_src d s = on_dir d (\<lambda>r. r\<lparr> dr_pc := Finished \<rparr>) (s\<lparr> sp_closed := (sp_closed s)(d := True) \<rparr>)"

inductive copy_step :: "bool \<Rightarrow> splice \<Rightarrow> splice \<Rightarrow> bool" for d where
  sp_read: "dr_pc (sp_dir s d) = Reading \<Longrightarrow> \<not> sp_closed s d \<Longrightarrow> 0 < n \<Longrightarrow> dr_read (sp_dir s d) + n \<le> length (dr_sent (sp_dir s d)) \<Longrightarrow>
    copy_step d s (on_dir d (copy_read n) s)"
| sp_end: "dr_pc (sp_dir s d) = Reading \<Longrightarrow>
    sp_closed s d \<or> dr_eof (sp_dir s d) \<and> dr_read (sp_dir s d) = length (dr_sent (sp_dir s d)) \<Longrightarrow>
    copy_step d s (on_dir d copy_end s)"
| sp_wrote: "dr_pc (sp_dir s d) = Writing bs \<Longrightarrow> \<not> sp_closed s (\<not> d) \<Longrightarrow> copy_step d s (on_dir d (copy_wrote bs) s)"
| sp_refused: "dr_pc (sp_dir s d) = Writing bs \<Longrightarrow> sp_closed s (\<not> d) \<Longrightarrow> copy_step d s (on_dir d (copy_broke k bs) s)"
| sp_close_dst: "dr_pc (sp_dir s d) = ClosingDst \<Longrightarrow> copy_step d s (close_dst d s)"
| sp_close_src: "dr_pc (sp_dir s d) = ClosingSrc \<Longrightarrow> copy_step d s (close_src d s)"

inductive splice_step :: "splice \<Rightarrow> splice \<Rightarrow> bool" where
  sp_copy: "copy_step d s s' \<Longrightarrow> splice_step s s'"
| sp_send: "\<not> dr_eof (sp_dir s d) \<Longrightarrow> splice_step s (on_dir d (\<lambda>r. r\<lparr> dr_sent := dr_sent r @ bs \<rparr>) s)"
| sp_half_close: "splice_step s (on_dir d (\<lambda>r. r\<lparr> dr_eof := True \<rparr>) s)"
| sp_read_fails: "dr_pc (sp_dir s d) = Reading \<Longrightarrow> splice_step s (on_dir d copy_end (s\<lparr> sp_failed := True \<rparr>))"
| sp_write_fails: "dr_pc (sp_dir s d) = Writing bs \<Longrightarrow> splice_step s (on_dir d (copy_broke k bs) (s\<lparr> sp_failed := True \<rparr>))"

inductive_cases copy_stepE: "copy_step d s s'"

section \<open>Invariant\<close>

definition pending :: "copy_pc \<Rightarrow> byte list" where
  "pending pc = (case pc of Writing bs \<Rightarrow> bs | _ \<Rightarrow> [])"

definition copying :: "copy_pc \<Rightarrow> bool" where
  "copying pc \<longleftrightarrow> (case pc of Reading \<Rightarrow> True | Writing bs \<Rightarrow> True | _ \<Rightarrow> False)"

definition dir_inv :: "bool \<Rightarrow> splice \<Rightarrow> bool" where
  "dir_inv d s \<longleftrightarrow>
     (let r = sp_dir s d
      in dr_read r \<le> length (dr_sent r) \<and>
         (copying (dr_pc r) \<longrightarrow> dr_out r @ pending (dr_pc r) = take (dr_read r) (dr_sent r)) \<and>
         prefix (dr_out r) (dr_sent r) \<and>
         (dr_pc r = ClosingSrc \<or> dr_pc r = Finished \<longrightarrow> sp_closed s (\<not> d)) \<and> (dr_pc r = Finished \<longrightarrow> sp_closed s d))"

lemmas on_dir_simps = on_dir_def copy_read_def copy_end_def copy_wrote_def copy_broke_def close_dst_def close_src_def
  dir_inv_def Let_def copying_def pending_def

lemma dir_inv_other: "dir_inv e s \<Longrightarrow> e \<noteq> d \<Longrightarrow> dir_inv e (on_dir d f s)"
  by (simp add: dir_inv_def on_dir_def)

lemma dir_inv_frame:
  "dir_inv e s \<Longrightarrow> sp_dir s' e = sp_dir s e \<Longrightarrow> (\<And>x. sp_closed s x \<Longrightarrow> sp_closed s' x) \<Longrightarrow> dir_inv e s'"
  by (auto simp: dir_inv_def Let_def)

lemma take_prefix_out: "xs @ bs = take n ys \<Longrightarrow> prefix (xs @ take k bs) ys"
  by (metis append_take_drop_id append_assoc prefixI)

lemma copy_step_frame:
  "copy_step d s s' \<Longrightarrow> e \<noteq> d \<Longrightarrow> sp_dir s' e = sp_dir s e" "copy_step d s s' \<Longrightarrow> sp_closed s x \<Longrightarrow> sp_closed s' x"
  "copy_step d s s' \<Longrightarrow> sp_failed s' = sp_failed s"
  by (auto elim!: copy_stepE simp: on_dir_def close_dst_def close_src_def)

lemma copy_step_inv: "copy_step d s s' \<Longrightarrow> dir_inv d s \<Longrightarrow> dir_inv d s'"
proof (induction rule: copy_step.induct)
  case (sp_read s n)
  then show ?case by (auto simp: on_dir_simps take_add)
next
  case (sp_wrote s bs)
  then show ?case by (auto simp: on_dir_simps) (metis take_is_prefix)
next
  case (sp_refused s bs k)
  then show ?case by (auto simp: on_dir_simps intro: take_prefix_out)
qed (auto simp: on_dir_simps)

lemma splice_step_inv: "splice_step s s' \<Longrightarrow> dir_inv True s \<and> dir_inv False s \<Longrightarrow> dir_inv True s' \<and> dir_inv False s'"
proof (induction rule: splice_step.induct)
  case (sp_copy d s s')
  have "dir_inv e s'" for e
  proof (cases "e = d")
    case True
    then show ?thesis using sp_copy copy_step_inv by (cases d) auto
  next
    case False
    then show ?thesis using sp_copy copy_step_frame [OF sp_copy(1)] dir_inv_frame [of e s s'] by (cases e) auto
  qed
  then show ?case by blast
next
  case (sp_send s d bs)
  then show ?case by (cases d) (auto simp: on_dir_simps)
next
  case (sp_half_close s d)
  then show ?case by (cases d) (auto simp: on_dir_simps)
next
  case (sp_read_fails s d)
  then show ?case by (cases d) (auto simp: on_dir_simps)
next
  case (sp_write_fails s d bs k)
  then show ?case by (cases d) (auto simp: on_dir_simps intro: take_prefix_out)
qed

interpretation splice_machine: invariant_machine "\<lambda>s. s = spliceConns" splice_step "\<lambda>s. dir_inv True s \<and> dir_inv False s"
proof
  show "dir_inv True s \<and> dir_inv False s" if "s = spliceConns" for s using that by (simp add: on_dir_simps spliceConns_def)
  show "dir_inv True s' \<and> dir_inv False s'" if "dir_inv True s \<and> dir_inv False s" "splice_step s s'" for s s'
    using splice_step_inv that by blast
qed

section \<open>Properties\<close>

fun copy_rank :: "copy_pc \<Rightarrow> nat" where
  "copy_rank Reading = 3"
| "copy_rank (Writing bs) = 3"
| "copy_rank ClosingDst = 2"
| "copy_rank ClosingSrc = 1"
| "copy_rank Finished = 0"

lemma copy_winds_up:
  assumes "sp_closed s True" "sp_closed s False"
  shows "dr_pc (sp_dir s d) = Finished \<or> (\<exists>s'. copy_step d s s')"
    "copy_step d s s' \<Longrightarrow> copy_rank (dr_pc (sp_dir s' d)) < copy_rank (dr_pc (sp_dir s d))"
proof -
  have c: "sp_closed s x" for x using assms by (cases x) auto
  show "dr_pc (sp_dir s d) = Finished \<or> (\<exists>s'. copy_step d s s')"
    using c by (cases "dr_pc (sp_dir s d)") (blast intro: copy_step.intros)+
  show "copy_rank (dr_pc (sp_dir s' d)) < copy_rank (dr_pc (sp_dir s d))" if "copy_step d s s'"
    using that c by cases (auto simp: on_dir_simps)
qed

text \<open>
  C24. Splicing relays faithfully and ends: in every interleaving, with every failure, what a
  peer gets is a prefix of what the other sent, in order and without repetition; while a
  direction copies, everything read from its source has been written or is being written; and
  once one direction has returned, both connections are closed, and the other direction can
  always go on and takes at most three steps until it has returned too.
\<close>

theorem splice_relay:
  "reach (\<lambda>s. s = spliceConns) splice_step s \<Longrightarrow>
   prefix (dr_out (sp_dir s d)) (dr_sent (sp_dir s d)) \<and>
   (copying (dr_pc (sp_dir s d)) \<longrightarrow>
      dr_out (sp_dir s d) @ pending (dr_pc (sp_dir s d)) = take (dr_read (sp_dir s d)) (dr_sent (sp_dir s d))) \<and>
   (dr_pc (sp_dir s (\<not> d)) = Finished \<longrightarrow>
      sp_closed s True \<and> sp_closed s False \<and> (dr_pc (sp_dir s d) = Finished \<or> (\<exists>s'. copy_step d s s')) \<and>
      copy_rank (dr_pc (sp_dir s d)) \<le> 3 \<and>
      (\<forall>s'. copy_step d s s' \<longrightarrow> copy_rank (dr_pc (sp_dir s' d)) < copy_rank (dr_pc (sp_dir s d))))"
proof -
  assume "reach (\<lambda>s. s = spliceConns) splice_step s"
  then have "dir_inv True s \<and> dir_inv False s" by (rule splice_machine.reach_inv)
  then have i: "dir_inv e s" for e by (cases e) auto
  have c: "sp_closed s True \<and> sp_closed s False" if "dr_pc (sp_dir s (\<not> d)) = Finished"
    using i [of "\<not> d"] that by (cases d) (auto simp: dir_inv_def Let_def)
  have "copy_rank pc \<le> 3" for pc by (cases pc) auto
  then show ?thesis using i [of d] c copy_winds_up [of s d] by (auto simp: dir_inv_def Let_def)
qed

definition demo_splice :: splice where
  "demo_splice = close_src True (close_dst True (on_dir True copy_end (on_dir True (copy_wrote [1, 2]) (on_dir True (copy_read 2)
     (on_dir True (\<lambda>r. r\<lparr> dr_eof := True \<rparr>) (on_dir True (\<lambda>r. r\<lparr> dr_sent := dr_sent r @ [1, 2] \<rparr>) spliceConns))))))"

theorem splice_relay_witness:
  "dr_out (sp_dir demo_splice True) = [1, 2] \<and> dr_pc (sp_dir demo_splice True) = Finished \<and>
   sp_closed demo_splice True \<and> sp_closed demo_splice False \<and> (\<exists>s'. copy_step False demo_splice s')"
proof -
  let ?R = "reach (\<lambda>s. s = spliceConns) splice_step"
  let ?s1 = "on_dir True (\<lambda>r. r\<lparr> dr_sent := dr_sent r @ [1, 2] \<rparr>) spliceConns"
  let ?s2 = "on_dir True (\<lambda>r. r\<lparr> dr_eof := True \<rparr>) ?s1"
  let ?s4 = "on_dir True (copy_wrote [1, 2]) (on_dir True (copy_read 2) ?s2)"
  note d = spliceConns_def on_dir_simps
  have "?R spliceConns" by (rule reach_start) (rule refl)
  then have "?R ?s1" by (rule reach_step) (rule sp_send, simp add: d)
  then have "?R ?s2" by (rule reach_step) (rule sp_half_close)
  then have "?R (on_dir True (copy_read 2) ?s2)" by (rule reach_step) (rule sp_copy, rule sp_read; simp add: d)
  then have "?R ?s4" by (rule reach_step) (rule sp_copy, rule sp_wrote; simp add: d)
  then have "?R (on_dir True copy_end ?s4)" by (rule reach_step) (rule sp_copy, rule sp_end; simp add: d)
  then have "?R (close_dst True (on_dir True copy_end ?s4))" by (rule reach_step) (rule sp_copy, rule sp_close_dst, simp add: d)
  then have r: "?R demo_splice" unfolding demo_splice_def by (rule reach_step) (rule sp_copy, rule sp_close_src, simp add: d)
  have s: "dr_out (sp_dir demo_splice True) = [1, 2]" "dr_pc (sp_dir demo_splice True) = Finished"
    "dr_pc (sp_dir demo_splice False) = Reading" by (simp_all add: demo_splice_def d)
  from splice_relay [OF r, of False] s show ?thesis by simp
qed

end
