(* ===== verification/Go_Url.thy ===== *)
theory Go_Url
  imports Go_Net
begin

text \<open>
  Go's \<open>net/url\<close> as far as the sources use it: \<open>url.Parse\<close> of a \<open>ws\<close> or \<open>wss\<close> URL, of which they
  read the host and the path. \<open>None\<close> is an error. The query is not examined, as in the library.
\<close>

section \<open>Percent encoding\<close>

datatype url_mode = ModePath | ModeHost | ModeZone | ModeOther

definition host_plain :: "char \<Rightarrow> bool" where
  "host_plain c \<longleftrightarrow>
     (let n = (of_char c :: nat)
      in 97 \<le> n \<and> n \<le> 122 \<or> 65 \<le> n \<and> n \<le> 90 \<or> 48 \<le> n \<and> n \<le> 57 \<or> 128 \<le> n
         \<or> c \<in> set ''-_.~!$&()*+,;=:[]<>'' \<or> c = CHR 0x22 \<or> c = CHR 0x27)"

fun unescape :: "url_mode \<Rightarrow> string \<Rightarrow> string option" where
  "unescape m [] = Some []"
| "unescape m (c # cs) =
     (if c = CHR ''%'' then
        (case cs of
           a # b # rest \<Rightarrow>
             (case (hex_val a, hex_val b) of
                (Some x, Some y) \<Rightarrow>
                  let d = char_of (16 * x + y)
                  in if m = ModeHost \<and> x < 8 \<and> [a, b] \<noteq> ''25'' then None
                     else if m = ModeZone \<and> [a, b] \<noteq> ''25'' \<and> d \<noteq> CHR '' '' \<and> \<not> host_plain d then None
                     else map_option (Cons d) (unescape m rest)
              | _ \<Rightarrow> None)
         | _ \<Rightarrow> None)
      else if (m = ModeHost \<or> m = ModeZone) \<and> \<not> host_plain c then None
      else map_option (Cons c) (unescape m cs))"

section \<open>Parsing\<close>

definition validOptionalPort :: "string \<Rightarrow> bool" where
  "validOptionalPort p \<longleftrightarrow> p = [] \<or> hd p = CHR '':'' \<and> list_all (\<lambda>c. digit_val c \<noteq> None) (tl p)"

definition parseHost :: "string \<Rightarrow> string option" where
  "parseHost host =
     (if hasPrefix host ''['' then
        (case cutLast (CHR '']'') host of
           None \<Rightarrow> None
         | Some (inside, port) \<Rightarrow>
             if \<not> validOptionalPort port then None
             else (case cutAt (CHR ''%'') inside of
                     Some (addr, zone) \<Rightarrow>
                       if hasPrefix zone ''25'' then
                         (case (unescape ModeHost addr, unescape ModeZone (CHR ''%'' # zone), unescape ModeHost (CHR '']'' # port)) of
                            (Some h1, Some h2, Some h3) \<Rightarrow> Some (h1 @ h2 @ h3)
                          | _ \<Rightarrow> None)
                       else unescape ModeHost host
                   | None \<Rightarrow> unescape ModeHost host))
      else case cutLast (CHR '':'') host of
             Some (h, port) \<Rightarrow> if validOptionalPort (CHR '':'' # port) then unescape ModeHost host else None
           | None \<Rightarrow> unescape ModeHost host)"

definition userinfo_ok :: "string \<Rightarrow> bool" where
  "userinfo_ok s \<longleftrightarrow>
     list_all (\<lambda>c. let n = (of_char c :: nat)
                   in 97 \<le> n \<and> n \<le> 122 \<or> 65 \<le> n \<and> n \<le> 90 \<or> 48 \<le> n \<and> n \<le> 57
                      \<or> c \<in> set ''-._:~!$&()*+,;=%@'' \<or> c = CHR 0x27) s
     \<and> unescape ModeOther s \<noteq> None"

definition parseAuthority :: "string \<Rightarrow> string option" where
  "parseAuthority a =
     (case cutLast (CHR ''@'') a of
        None \<Rightarrow> parseHost a
      | Some (user, host) \<Rightarrow> if userinfo_ok user then parseHost host else None)"

definition ctl_byte :: "char \<Rightarrow> bool" where
  "ctl_byte c \<longleftrightarrow> (let n = (of_char c :: nat) in n < 32 \<or> n = 127)"

text \<open>The scheme is known to be there: the argument starts with \<open>ws://\<close> or \<open>wss://\<close>.\<close>

definition urlParse :: "string \<Rightarrow> (string \<times> string) option" where
  "urlParse s =
     (let u = takeWhile (\<lambda>c. c \<noteq> CHR ''#'') s;
          frag = tl (dropWhile (\<lambda>c. c \<noteq> CHR ''#'') s);
          rest = takeWhile (\<lambda>c. c \<noteq> CHR ''?'') (drop 3 (dropWhile (\<lambda>c. c \<noteq> CHR '':'') u));
          auth = takeWhile (\<lambda>c. c \<noteq> CHR ''/'') rest;
          path = dropWhile (\<lambda>c. c \<noteq> CHR ''/'') rest
      in if list_ex ctl_byte u then None
         else case (parseAuthority auth, unescape ModePath path, unescape ModeOther frag) of
                (Some host, Some p, Some _) \<Rightarrow> Some (host, p)
              | _ \<Rightarrow> None)"

section \<open>Plain URLs\<close>

text \<open>A URL whose host, port and path need no escapes is taken apart as written.\<close>

definition plain_part :: "string \<Rightarrow> bool" where
  "plain_part s \<longleftrightarrow> list_all (\<lambda>c. host_plain c \<and> c \<notin> set ''[]'') s"

lemma unescape_plain: "list_all (\<lambda>c. c \<noteq> CHR ''%'' \<and> (m = ModeHost \<longrightarrow> host_plain c) \<and> m \<noteq> ModeZone) s \<Longrightarrow> unescape m s = Some s"
  by (induction s) auto

lemma host_plain_not: "host_plain c \<Longrightarrow> c \<notin> {CHR ''%'', CHR ''#'', CHR ''?'', CHR ''/'', CHR ''@''} \<and> \<not> ctl_byte c"
  by (auto simp: host_plain_def ctl_byte_def Let_def)

lemma parseHost_plain:
  assumes "plain_part h" "list_all (\<lambda>c. digit_val c \<noteq> None) p"
  shows "parseHost (h @ '':'' @ p) = Some (h @ '':'' @ p)"
proof -
  have dig: "c \<noteq> CHR '':'' \<and> c \<noteq> CHR ''%'' \<and> host_plain c" if "digit_val c \<noteq> None" for c
    using that by (auto simp: digit_val_def host_plain_def Let_def split: if_splits)
  have p: "CHR '':'' \<notin> set p" "list_all (\<lambda>c. c \<noteq> CHR ''%'' \<and> host_plain c) p" using assms(2) dig by (auto simp: list_all_iff)
  have "\<not> hasPrefix (h @ '':'' @ p) ''[''" using assms(1) by (cases h) (auto simp: plain_part_def hasPrefix_def)
  moreover have "cutLast (CHR '':'') (h @ '':'' @ p) = Some (h, p)" using cutLast_some [OF p(1), of h] by simp
  moreover have "validOptionalPort (CHR '':'' # p)" using assms(2) by (simp add: validOptionalPort_def)
  moreover have "unescape ModeHost (h @ '':'' @ p) = Some (h @ '':'' @ p)"
    using assms(1) p(2) host_plain_not by (intro unescape_plain) (fastforce simp: plain_part_def list_all_iff host_plain_def)
  ultimately show ?thesis unfolding parseHost_def by simp
qed

end
