(* ===== verification/Ws_Auth.thy ===== *)
theory Ws_Auth
  imports Go_Path
begin

text \<open>
  Bearer tokens of the WebSocket carrier: discovery and verification (\<open>wscarrier_auth.go\<close>), and the
  \<open>Authorization\<close> header (\<open>bearerToken\<close> of \<open>transport/wscarrier/ws.go\<close>).

  The environment variables, files and directories a discovery meets are the record \<open>token_env\<close>.
  The token functions of cedar's security package are the record \<open>token_lib\<close>: whether a token is a
  SciToken, the issuer and subject of one that verifies, and the subject of an IDTOKEN that
  verifies under the server's keys. \<open>None\<close> is an error.
\<close>

section \<open>Discovery\<close>

record token_env =
  te_getenv :: "string \<Rightarrow> string"
  te_uid :: nat
  te_files :: "string \<Rightarrow> string option"
  te_dirs :: "string \<Rightarrow> (string \<times> bool) list option"

definition userHomeDir :: "token_env \<Rightarrow> string option" where
  "userHomeDir e = (let h = te_getenv e ''HOME'' in if h \<noteq> [] then Some h else None)"

definition readFirstToken :: "token_env \<Rightarrow> string \<Rightarrow> string option" where
  "readFirstToken e path =
     (case te_files e path of
        None \<Rightarrow> None
      | Some data \<Rightarrow> find (\<lambda>t. t \<noteq> []) (map trimSpace (splitOn (CHR 0x0A) data)))"

fun token_entries :: "token_env \<Rightarrow> string \<Rightarrow> (string \<times> bool) list \<Rightarrow> string option" where
  "token_entries e d [] = None"
| "token_entries e d ((name, isdir) # es) =
     (if isdir then token_entries e d es
      else case readFirstToken e (filepathJoin [d, name]) of
             None \<Rightarrow> token_entries e d es
           | Some t \<Rightarrow> if t \<noteq> [] then Some t else token_entries e d es)"

fun token_dirs :: "token_env \<Rightarrow> string list \<Rightarrow> string option" where
  "token_dirs e [] = None"
| "token_dirs e (d # ds) =
     (case te_dirs e d of
        None \<Rightarrow> token_dirs e ds
      | Some es \<Rightarrow> (case token_entries e d es of None \<Rightarrow> token_dirs e ds | Some t \<Rightarrow> Some t))"

definition discoverIDToken :: "token_env \<Rightarrow> string option" where
  "discoverIDToken e =
     (let d = te_getenv e ''SEC_TOKEN_DIRECTORY''
      in token_dirs e
           ((if d \<noteq> [] then [d] else [])
            @ (case userHomeDir e of None \<Rightarrow> [] | Some home \<Rightarrow> [filepathJoin [home, ''.condor'', ''tokens.d'']])
            @ [''/etc/condor/tokens.d'']))"

definition DiscoverBearerToken :: "token_env \<Rightarrow> string option" where
  "DiscoverBearerToken e =
     (let t = trimSpace (te_getenv e ''BEARER_TOKEN'') in
      if t \<noteq> [] then Some t
      else let f = te_getenv e ''BEARER_TOKEN_FILE'' in
      case (if f \<noteq> [] then readFirstToken e f else None) of Some t \<Rightarrow> Some t
      | None \<Rightarrow>
      let xdg = te_getenv e ''XDG_RUNTIME_DIR''; bt = ''bt_u'' @ formatUint (te_uid e) in
      case (if xdg \<noteq> [] then readFirstToken e (filepathJoin [xdg, bt]) else None) of Some t \<Rightarrow> Some t
      | None \<Rightarrow>
      case readFirstToken e (''/tmp/'' @ bt) of Some t \<Rightarrow> Some t
      | None \<Rightarrow> discoverIDToken e)"

section \<open>The header\<close>

definition bearerToken :: "string \<Rightarrow> string" where
  "bearerToken h =
     (let p = ''Bearer ''
      in if length h > length p \<and> equalFold (take (length p) h) p then trimSpace (drop (length p) h) else [])"

section \<open>Verification\<close>

record token_lib =
  tl_isSciToken :: "string \<Rightarrow> bool"
  tl_verifySciToken :: "string \<Rightarrow> (string \<times> string) option"
  tl_verifyIDToken :: "string \<Rightarrow> string option"

definition SciTokenVerifier :: "token_lib \<Rightarrow> string \<Rightarrow> string option" where
  "SciTokenVerifier lib token =
     (if \<not> tl_isSciToken lib token then None
      else case tl_verifySciToken lib token of
             None \<Rightarrow> None
           | Some (issuer, subject) \<Rightarrow> Some (issuer @ ''/'' @ subject))"

definition IDTokenVerifier :: "token_lib \<Rightarrow> string \<Rightarrow> string option" where
  "IDTokenVerifier lib token = (case tl_verifyIDToken lib token of None \<Rightarrow> None | Some subject \<Rightarrow> Some subject)"

definition BearerTokenVerifier :: "token_lib \<Rightarrow> string \<Rightarrow> string option" where
  "BearerTokenVerifier lib token =
     (if tl_isSciToken lib token then SciTokenVerifier lib token else IDTokenVerifier lib token)"

section \<open>Lemmas\<close>

text \<open>A token as it can stand in a header: not empty, without white space at its ends.\<close>

definition token_ok :: "string \<Rightarrow> bool" where
  "token_ok t \<longleftrightarrow> t \<noteq> [] \<and> \<not> isSpace (hd t) \<and> \<not> isSpace (last t)"

lemma token_ok_trim: "trimSpace s \<noteq> [] \<Longrightarrow> token_ok (trimSpace s)"
  using trimWith_ends [of isSpace s] by (simp add: token_ok_def trimSpace_def)

lemma trim_token: "token_ok t \<Longrightarrow> trimSpace t = t"
  unfolding token_ok_def trimSpace_def by (simp add: trimWith_id)

lemma bearerToken_header: "token_ok t \<Longrightarrow> bearerToken (''Bearer '' @ t) = t"
  by (simp add: bearerToken_def trim_token token_ok_def)

lemma bearerToken_ok: "bearerToken h \<noteq> [] \<Longrightarrow> token_ok (bearerToken h)"
  by (simp add: bearerToken_def Let_def token_ok_trim split: if_splits)

lemma readFirstToken_ok: "readFirstToken e p = Some t \<Longrightarrow> token_ok t"
  by (auto simp: readFirstToken_def find_Some_iff token_ok_trim split: option.splits)

lemma token_entries_Some:
  "token_entries e d es = Some t \<Longrightarrow> \<exists>name. (name, False) \<in> set es \<and> readFirstToken e (filepathJoin [d, name]) = Some t"
  by (induction e d es rule: token_entries.induct) (auto split: if_splits option.splits)

lemma token_dirs_Some: "token_dirs e ds = Some t \<Longrightarrow> \<exists>p. readFirstToken e p = Some t"
  by (induction e ds rule: token_dirs.induct) (auto split: option.splits dest: token_entries_Some)

lemma discoverIDToken_Some: "discoverIDToken e = Some t \<Longrightarrow> \<exists>p. readFirstToken e p = Some t"
  unfolding discoverIDToken_def Let_def by (rule token_dirs_Some)

lemma discover_sources:
  "DiscoverBearerToken e = Some t \<Longrightarrow> t = trimSpace (te_getenv e ''BEARER_TOKEN'') \<and> t \<noteq> [] \<or> (\<exists>p. readFirstToken e p = Some t)"
  unfolding DiscoverBearerToken_def Let_def by (simp split: if_splits option.splits) (blast dest: discoverIDToken_Some)+

lemma discover_ok: "DiscoverBearerToken e = Some t \<Longrightarrow> token_ok t"
  using discover_sources token_ok_trim readFirstToken_ok by blast

section \<open>Properties\<close>

text \<open>
  C34. Every discovered token is well formed: it is not empty and has no white space at its ends,
  wherever it was found, so it passes through the \<open>Authorization\<close> header unchanged; and a token
  in the environment variable takes precedence over all files.
\<close>

theorem discovered_token:
  "DiscoverBearerToken e = Some t \<Longrightarrow>
   token_ok t \<and> bearerToken (''Bearer '' @ t) = t \<and>
   (trimSpace (te_getenv e ''BEARER_TOKEN'') \<noteq> [] \<longrightarrow> t = trimSpace (te_getenv e ''BEARER_TOKEN''))"
proof -
  assume d: "DiscoverBearerToken e = Some t"
  have "token_ok t" using d by (rule discover_ok)
  moreover have "trimSpace (te_getenv e ''BEARER_TOKEN'') \<noteq> [] \<Longrightarrow> t = trimSpace (te_getenv e ''BEARER_TOKEN'')"
    using d by (simp add: DiscoverBearerToken_def Let_def)
  ultimately show ?thesis using bearerToken_header by blast
qed

definition demo_env :: token_env where
  "demo_env = \<lparr> te_getenv = (\<lambda>v. if v = ''HOME'' then ''/home/condor/'' else []), te_uid = 1000,
     te_files = (\<lambda>p. if p = ''/home/condor/.condor/tokens.d/pool'' then Some [CHR 0x0A, CHR '' '', CHR ''t'', CHR ''1'', CHR 0x0D, CHR 0x0A, CHR ''t'', CHR ''2''] else None),
     te_dirs = (\<lambda>d. if d = ''/home/condor/.condor/tokens.d'' then Some [(''old'', True), (''gone'', False), (''pool'', False)] else None) \<rparr>"

theorem discovered_token_witness:
  "DiscoverBearerToken demo_env = Some ''t1'' \<and> bearerToken ''Bearer t1'' = ''t1''"
proof -
  have d: "DiscoverBearerToken demo_env = Some ''t1''" by code_simp
  with discovered_token [OF d] show ?thesis by simp
qed

end
