(* ===== verification/Ws_Carrier.thy ===== *)
theory Ws_Carrier
  imports Ws_Auth
begin

text \<open>
  The WebSocket carrier (\<open>transport/wscarrier/ws.go\<close>): the listener with one handler goroutine per
  request, and the dialler. The WebSocket library upgrades a request or not, and answers a dial;
  both are arguments. A handler is cut at its two waits: for \<open>Accept\<close> to take the pipe, and for the
  pipe to be closed. TLS configurations are flags.
\<close>

section \<open>The listener\<close>

definition DefaultPath :: string where "DefaultPath = ''/ccb/tunnel''"

record listenConfig =
  lc_Addr :: string
  lc_Path :: string
  lc_TLS :: bool
  lc_Verify :: "(string \<Rightarrow> string option) option"
  lc_ReadLimit :: int

datatype ws_result = Unauthorized string | NotUpgraded | GoingAway | PipeClosed

datatype ws_pc = WsOffer | WsHold | WsReturned ws_result

text \<open>
  Handlers are numbered by request; \<open>wl_reqs\<close> has the \<open>Authorization\<close> header of each and where it
  stands, \<open>wl_limit\<close> the read limit of each upgraded connection, \<open>wl_done\<close> the pipes whose wrapper has
  signalled that it was closed, \<open>wl_shut\<close> the connections that were closed, and \<open>wl_accepted\<close> what
  \<open>Accept\<close> has returned.
\<close>

record ws_listener =
  wl_addr :: string
  wl_path :: string
  wl_tls :: bool
  wl_verify :: "string \<Rightarrow> string option"
  wl_readLimit :: int
  wl_closed :: bool
  wl_reqs :: "nat \<rightharpoonup> string \<times> ws_pc"
  wl_limit :: "nat \<rightharpoonup> int"
  wl_done :: "nat set"
  wl_shut :: "nat set"
  wl_accepted :: "nat list"

definition ws_Listen :: "listenConfig \<Rightarrow> bool \<Rightarrow> string + ws_listener" where
  "ws_Listen cfg bound =
     (case lc_Verify cfg of
        None \<Rightarrow> Inl ''wscarrier: ListenConfig.Verify is required''
      | Some verify \<Rightarrow>
          if \<not> bound then Inl ''listen''
          else Inr \<lparr> wl_addr = lc_Addr cfg, wl_path = (if lc_Path cfg = [] then DefaultPath else lc_Path cfg),
                     wl_tls = lc_TLS cfg, wl_verify = verify, wl_readLimit = lc_ReadLimit cfg, wl_closed = False,
                     wl_reqs = Map.empty, wl_limit = Map.empty, wl_done = {}, wl_shut = {}, wl_accepted = [] \<rparr>)"

text \<open>The handler up to the offer of the pipe.\<close>

definition handle_start :: "(string \<Rightarrow> string option) \<Rightarrow> string \<Rightarrow> bool \<Rightarrow> ws_pc" where
  "handle_start verify hdr upgraded =
     (let token = bearerToken hdr
      in if token = [] then WsReturned (Unauthorized ''missing bearer token'')
         else if verify token = None then WsReturned (Unauthorized ''unauthorized'')
         else if \<not> upgraded then WsReturned NotUpgraded
         else WsOffer)"

definition read_limit :: "int \<Rightarrow> int" where
  "read_limit l = (if l \<noteq> 0 then l else -1)"

definition handle_begin :: "nat \<Rightarrow> string \<Rightarrow> bool \<Rightarrow> ws_listener \<Rightarrow> ws_listener" where
  "handle_begin n hdr upgraded w =
     (let pc = handle_start (wl_verify w) hdr upgraded
      in w\<lparr> wl_reqs := (wl_reqs w)(n \<mapsto> (hdr, pc)),
            wl_limit := (if pc = WsOffer then (wl_limit w)(n \<mapsto> read_limit (wl_readLimit w)) else wl_limit w) \<rparr>)"

definition set_pc :: "nat \<Rightarrow> ws_pc \<Rightarrow> ws_listener \<Rightarrow> ws_listener" where
  "set_pc n pc w = w\<lparr> wl_reqs := (wl_reqs w)(n := map_option (\<lambda>(hdr, _). (hdr, pc)) (wl_reqs w n)) \<rparr>"

text \<open>\<open>Accept\<close> meets a handler that offers; the other branches are a closed listener and a closed pipe.\<close>

definition ws_Accept :: "nat \<Rightarrow> ws_listener \<Rightarrow> ws_listener" where
  "ws_Accept n w = (set_pc n WsHold w)\<lparr> wl_accepted := wl_accepted w @ [n] \<rparr>"

definition handle_cancelled :: "nat \<Rightarrow> ws_listener \<Rightarrow> ws_listener" where
  "handle_cancelled n w = (set_pc n (WsReturned GoingAway) w)\<lparr> wl_shut := insert n (wl_shut w) \<rparr>"

definition handle_released :: "nat \<Rightarrow> ws_listener \<Rightarrow> ws_listener" where
  "handle_released n w = set_pc n (WsReturned PipeClosed) w"

text \<open>\<open>connWrap.Close\<close>: the signal, given once, then the close of the connection.\<close>

definition wrap_signal :: "nat \<Rightarrow> ws_listener \<Rightarrow> ws_listener" where
  "wrap_signal n w = w\<lparr> wl_done := insert n (wl_done w) \<rparr>"

definition wrap_close :: "nat \<Rightarrow> ws_listener \<Rightarrow> ws_listener" where
  "wrap_close n w = w\<lparr> wl_shut := insert n (wl_shut w) \<rparr>"

definition ws_Close :: "ws_listener \<Rightarrow> ws_listener" where
  "ws_Close w = w\<lparr> wl_closed := True \<rparr>"

inductive ws_step :: "ws_listener \<Rightarrow> ws_listener \<Rightarrow> bool" where
  ws_request: "wl_reqs w n = None \<Longrightarrow> ws_step w (handle_begin n hdr upgraded w)"
| ws_accept: "wl_reqs w n = Some (hdr, WsOffer) \<Longrightarrow> ws_step w (ws_Accept n w)"
| ws_cancel: "wl_closed w \<Longrightarrow> wl_reqs w n = Some (hdr, pc) \<Longrightarrow> pc \<in> {WsOffer, WsHold} \<Longrightarrow> ws_step w (handle_cancelled n w)"
| ws_release: "wl_reqs w n = Some (hdr, WsHold) \<Longrightarrow> n \<in> wl_done w \<Longrightarrow> ws_step w (handle_released n w)"
| ws_signal: "n \<in> set (wl_accepted w) \<Longrightarrow> ws_step w (wrap_signal n w)"
| ws_shut: "n \<in> wl_done w \<Longrightarrow> ws_step w (wrap_close n w)"
| ws_close: "ws_step w (ws_Close w)"

section \<open>The dialler\<close>

record dialConfig =
  dc_URL :: string
  dc_Token :: string
  dc_TokenSource :: bool
  dc_TLS :: bool
  dc_HandshakeTimeout :: int
  dc_ReadLimit :: int

datatype dial_reply = Connected | Refused "nat option"

datatype dial_error = NoURL | TokenSourceFailed | DialUnauthorized | DialFailed

text \<open>
  \<open>source\<close> is what the token source answers, \<open>reply\<close> what the library answers to a URL, an
  \<open>Authorization\<close> header (empty for none) and a timeout. The value of a dial is the read limit of the pipe.
\<close>

definition ws_Dial :: "dialConfig \<Rightarrow> string option \<Rightarrow> (string \<Rightarrow> string \<Rightarrow> int \<Rightarrow> dial_reply) \<Rightarrow> dial_error + int" where
  "ws_Dial cfg source reply =
     (if dc_URL cfg = [] then Inl NoURL
      else case (if dc_Token cfg = [] \<and> dc_TokenSource cfg then source else Some (dc_Token cfg)) of
             None \<Rightarrow> Inl TokenSourceFailed
           | Some token \<Rightarrow>
               let hdr = (if token \<noteq> [] then ''Bearer '' @ token else []);
                   hsTimeout = (if dc_HandshakeTimeout cfg \<le> 0 then 30 * second else dc_HandshakeTimeout cfg)
               in case reply (dc_URL cfg) hdr hsTimeout of
                    Refused status \<Rightarrow> if status = Some 401 then Inl DialUnauthorized else Inl DialFailed
                  | Connected \<Rightarrow> Inr (read_limit (dc_ReadLimit cfg)))"

section \<open>The invariant of the listener\<close>

definition authentic :: "(string \<Rightarrow> string option) \<Rightarrow> string \<Rightarrow> bool" where
  "authentic verify hdr \<longleftrightarrow> bearerToken hdr \<noteq> [] \<and> verify (bearerToken hdr) \<noteq> None"

definition req_ok :: "(string \<Rightarrow> string option) \<Rightarrow> ws_listener \<Rightarrow> nat \<Rightarrow> string \<Rightarrow> ws_pc \<Rightarrow> bool" where
  "req_ok verify w n hdr pc \<longleftrightarrow>
     (case pc of
        WsOffer \<Rightarrow> authentic verify hdr \<and> n \<notin> set (wl_accepted w)
      | WsHold \<Rightarrow> authentic verify hdr \<and> n \<in> set (wl_accepted w)
      | WsReturned (Unauthorized _) \<Rightarrow> \<not> authentic verify hdr \<and> n \<notin> set (wl_accepted w)
      | WsReturned NotUpgraded \<Rightarrow> n \<notin> set (wl_accepted w)
      | WsReturned GoingAway \<Rightarrow> authentic verify hdr \<and> wl_closed w \<and> n \<in> wl_shut w
      | WsReturned PipeClosed \<Rightarrow> authentic verify hdr \<and> n \<in> wl_done w \<and> n \<in> set (wl_accepted w))"

definition ws_inv :: "(string \<Rightarrow> string option) \<Rightarrow> ws_listener \<Rightarrow> bool" where
  "ws_inv verify w \<longleftrightarrow>
     wl_verify w = verify \<and> distinct (wl_accepted w) \<and> wl_done w \<subseteq> set (wl_accepted w) \<and>
     set (wl_accepted w) \<subseteq> dom (wl_reqs w) \<and>
     (\<forall>n hdr pc. wl_reqs w n = Some (hdr, pc) \<longrightarrow> req_ok verify w n hdr pc)"

lemma ws_inv_req: "ws_inv verify w \<Longrightarrow> wl_reqs w n = Some (hdr, pc) \<Longrightarrow> req_ok verify w n hdr pc"
  by (simp add: ws_inv_def)

text \<open>A step of one handler, and a step of none.\<close>

lemma ws_inv_move:
  assumes "ws_inv verify w" "wl_verify w' = wl_verify w" "wl_reqs w' = (wl_reqs w)(n \<mapsto> (hdr, pc))"
    "distinct (wl_accepted w')" "wl_done w' \<subseteq> set (wl_accepted w')" "set (wl_accepted w') \<subseteq> insert n (dom (wl_reqs w))"
    "req_ok verify w' n hdr pc" "\<And>m h p. m \<noteq> n \<Longrightarrow> req_ok verify w m h p \<Longrightarrow> req_ok verify w' m h p"
  shows "ws_inv verify w'"
  using assms by (auto simp: ws_inv_def)

lemma ws_inv_frame:
  assumes "ws_inv verify w" "wl_verify w' = wl_verify w" "wl_reqs w' = wl_reqs w" "wl_accepted w' = wl_accepted w"
    "wl_done w' \<subseteq> set (wl_accepted w)" "\<And>m h p. req_ok verify w m h p \<Longrightarrow> req_ok verify w' m h p"
  shows "ws_inv verify w'"
  using assms by (auto simp: ws_inv_def)

lemmas ws_cases = ws_pc.split ws_result.split

lemma ws_inv_step:
  assumes i: "ws_inv verify w" and st: "ws_step w w'"
  shows "ws_inv verify w'"
proof -
  have I: "wl_verify w = verify" "distinct (wl_accepted w)" "wl_done w \<subseteq> set (wl_accepted w)" "set (wl_accepted w) \<subseteq> dom (wl_reqs w)"
    using i by (simp_all add: ws_inv_def)
  from st show ?thesis
  proof cases
    case (ws_request n hdr upgraded)
    then have "n \<notin> set (wl_accepted w)" using I by blast
    then have "req_ok verify w n hdr (handle_start verify hdr upgraded)"
      by (auto simp: req_ok_def handle_start_def authentic_def Let_def)
    then show ?thesis using ws_request I
      by (intro ws_inv_move [OF i, of w' n hdr "handle_start verify hdr upgraded"])
         (auto simp: handle_begin_def Let_def req_ok_def split: ws_cases)
  next
    case (ws_accept n hdr)
    then show ?thesis using ws_inv_req [OF i ws_accept(2)] I
      by (intro ws_inv_move [OF i, of w' n hdr WsHold])
         (auto simp: ws_Accept_def set_pc_def req_ok_def split: ws_cases)
  next
    case (ws_cancel n hdr pc)
    then show ?thesis using ws_inv_req [OF i ws_cancel(3)] I
      by (intro ws_inv_move [OF i, of w' n hdr "WsReturned GoingAway"])
         (auto simp: handle_cancelled_def set_pc_def req_ok_def split: ws_cases)
  next
    case (ws_release n hdr)
    then show ?thesis using ws_inv_req [OF i ws_release(2)] I
      by (intro ws_inv_move [OF i, of w' n hdr "WsReturned PipeClosed"])
         (auto simp: handle_released_def set_pc_def req_ok_def split: ws_cases)
  next
    case (ws_signal n)
    then show ?thesis using I
      by (intro ws_inv_frame [OF i]) (auto simp: wrap_signal_def req_ok_def split: ws_cases)
  next
    case (ws_shut n)
    then show ?thesis using I
      by (intro ws_inv_frame [OF i]) (auto simp: wrap_close_def req_ok_def split: ws_cases)
  next
    case ws_close
    then show ?thesis using I
      by (intro ws_inv_frame [OF i]) (auto simp: ws_Close_def req_ok_def split: ws_cases)
  qed
qed

definition ws_started :: "(string \<Rightarrow> string option) \<Rightarrow> ws_listener \<Rightarrow> bool" where
  "ws_started verify w \<longleftrightarrow> (\<exists>cfg bound. lc_Verify cfg = Some verify \<and> ws_Listen cfg bound = Inr w)"

interpretation ws_machine: invariant_machine "ws_started verify" ws_step "ws_inv verify" for verify
proof
  show "ws_inv verify w" if "ws_started verify w" for w
    using that by (auto simp: ws_started_def ws_Listen_def ws_inv_def split: if_splits)
  show "ws_inv verify w'" if "ws_inv verify w" "ws_step w w'" for w w'
    using that by (rule ws_inv_step)
qed

lemma ws_accepted:
  assumes "reach (ws_started verify) ws_step w" "n \<in> set (wl_accepted w)"
  obtains hdr pc who where "wl_reqs w n = Some (hdr, pc)" "bearerToken hdr \<noteq> []" "verify (bearerToken hdr) = Some who"
    "pc = WsHold \<or> n \<in> wl_done w \<or> wl_closed w \<and> n \<in> wl_shut w"
proof -
  have i: "ws_inv verify w" using assms(1) by (rule ws_machine.reach_inv)
  obtain hdr pc where r: "wl_reqs w n = Some (hdr, pc)" using i assms(2) by (auto simp: ws_inv_def)
  from ws_inv_req [OF i this] assms(2) have "authentic verify hdr" "pc = WsHold \<or> n \<in> wl_done w \<or> wl_closed w \<and> n \<in> wl_shut w"
    by (auto simp: req_ok_def split: ws_pc.splits ws_result.splits)
  then show ?thesis using that [OF r] by (auto simp: authentic_def)
qed

lemma ws_accepted_verified:
  "reach (ws_started verify) ws_step w \<Longrightarrow> n \<in> set (wl_accepted w) \<Longrightarrow> \<exists>hdr pc who. wl_reqs w n = Some (hdr, pc) \<and> verify (bearerToken hdr) = Some who"
  by (erule (1) ws_accepted) blast

section \<open>Properties\<close>

text \<open>
  C10. Only authenticated peers get in: in every interleaving of requests, \<open>Accept\<close>, closes of pipes
  and \<open>Close\<close>, each pipe \<open>Accept\<close> returns belongs to one request, whose header carries a token the
  verifier accepted; no request yields two pipes; and the handler that keeps the hijacked
  connection alive has not returned unless the pipe was closed or the listener was.
\<close>

theorem ws_authenticated:
  "reach (ws_started verify) ws_step w \<Longrightarrow>
   distinct (wl_accepted w) \<and>
   (\<forall>n \<in> set (wl_accepted w). \<exists>hdr pc who.
      wl_reqs w n = Some (hdr, pc) \<and> bearerToken hdr \<noteq> [] \<and> verify (bearerToken hdr) = Some who \<and>
      (pc = WsHold \<or> n \<in> wl_done w \<or> wl_closed w \<and> n \<in> wl_shut w))"
proof -
  assume r: "reach (ws_started verify) ws_step w"
  then have "distinct (wl_accepted w)" using ws_machine.reach_inv by (auto simp: ws_inv_def)
  then show ?thesis by (auto elim!: ws_accepted [OF r])
qed

definition demo_verify :: "string \<Rightarrow> string option" where
  "demo_verify t = (if t = ''t1'' then Some ''condor@pool'' else None)"

definition demo_listenConfig :: listenConfig where
  "demo_listenConfig = \<lparr> lc_Addr = '':8443'', lc_Path = [], lc_TLS = True, lc_Verify = Some demo_verify, lc_ReadLimit = 0 \<rparr>"

definition demo_ws :: ws_listener where
  "demo_ws = projr (ws_Listen demo_listenConfig True)"

lemma demo_ws_started: "ws_started demo_verify demo_ws"
  unfolding ws_started_def
  by (intro exI [of _ demo_listenConfig] exI [of _ True]) (simp add: demo_ws_def demo_listenConfig_def ws_Listen_def)

definition demo_ws_run :: ws_listener where
  "demo_ws_run = ws_Accept 1 (handle_begin 1 ''bearer t1 '' True (handle_begin 0 ''Bearer t2'' True demo_ws))"

theorem ws_authenticated_witness:
  "wl_accepted demo_ws_run = [1] \<and> (\<exists>who. demo_verify (bearerToken ''bearer t1 '') = Some who) \<and>
   wl_reqs demo_ws_run 0 = Some (''Bearer t2'', WsReturned (Unauthorized ''unauthorized''))"
proof -
  let ?w = "handle_begin 1 ''bearer t1 '' True (handle_begin 0 ''Bearer t2'' True demo_ws)"
  have "reach (ws_started demo_verify) ws_step demo_ws" by (rule reach_start) (rule demo_ws_started)
  then have "reach (ws_started demo_verify) ws_step (handle_begin 0 ''Bearer t2'' True demo_ws)"
    by (rule reach_step) (rule ws_request, simp add: demo_ws_def ws_Listen_def demo_listenConfig_def)
  then have "reach (ws_started demo_verify) ws_step ?w"
    by (rule reach_step) (rule ws_request, simp add: demo_ws_def ws_Listen_def demo_listenConfig_def handle_begin_def Let_def)
  moreover have "ws_step ?w demo_ws_run" unfolding demo_ws_run_def by (rule ws_accept) code_simp
  ultimately have r: "reach (ws_started demo_verify) ws_step demo_ws_run" by (rule reach_step)
  have s: "wl_accepted demo_ws_run = [1]" "wl_reqs demo_ws_run 1 = Some (''bearer t1 '', WsHold)"
    "wl_reqs demo_ws_run 0 = Some (''Bearer t2'', WsReturned (Unauthorized ''unauthorized''))" by code_simp+
  from ws_authenticated [OF r] s show ?thesis by auto
qed

end
