(* ===== verification/Carrier_Mux.thy ===== *)
theory Carrier_Mux
  imports Ccb_Prelude
begin

text \<open>
  Multiplexing over a carrier pipe (\<open>transport/carrier/mux.go\<close>): the listener with its goroutines, one
  that accepts pipes and one per yamux session that accepts streams, and the call that opens a
  stream. The yamux library is not part of the sources; what it answers chooses the step, and its
  documented behaviour that closing a session closes all its streams is part of the step that
  ends a session. A session is numbered like its pipe, and a stream that a session yields has a
  number of its own.
\<close>

section \<open>The listener\<close>

text \<open>Where the goroutine of a session stands: waiting for a stream, offering one, or returned with the session closed.\<close>

datatype sess_pc = SessAwait | SessHold nat | SessEnded

record mux_listener =
  ml_closed :: bool
  ml_inner_closed :: bool
  ml_accepting :: bool
  ml_sess :: "nat \<rightharpoonup> sess_pc"
  ml_dropped :: "nat set"
  ml_streams :: "(nat \<times> nat) list"
  ml_returned :: "nat list"
  ml_st_closed :: "nat set"

definition NewMuxListener :: mux_listener where
  "NewMuxListener = \<lparr> ml_closed = False, ml_inner_closed = False, ml_accepting = True, ml_sess = Map.empty, ml_dropped = {},
     ml_streams = [], ml_returned = [], ml_st_closed = {} \<rparr>"

text \<open>A round of \<open>acceptPipes\<close>: the inner listener fails, or gives a pipe, which yamux takes or not.\<close>

definition acceptPipes_round :: "(nat \<times> bool) option \<Rightarrow> mux_listener \<Rightarrow> mux_listener" where
  "acceptPipes_round r l =
     (case r of
        None \<Rightarrow> l\<lparr> ml_accepting := False \<rparr>
      | Some (pipe, ok) \<Rightarrow>
          if \<not> ok then l\<lparr> ml_dropped := insert pipe (ml_dropped l) \<rparr>
          else l\<lparr> ml_sess := (ml_sess l)(pipe \<mapsto> SessAwait) \<rparr>)"

text \<open>The deferred \<open>sess.Close()\<close> of \<open>acceptStreams\<close>, which runs however it returns.\<close>

definition end_session :: "nat \<Rightarrow> mux_listener \<Rightarrow> mux_listener" where
  "end_session s l = l\<lparr> ml_sess := (ml_sess l)(s \<mapsto> SessEnded),
     ml_st_closed := ml_st_closed l \<union> set (map fst (filter (\<lambda>(_, t). t = s) (ml_streams l))) \<rparr>"

text \<open>\<open>acceptStreams\<close> after \<open>AcceptStream\<close>, and its two ways out of the offer.\<close>

definition acceptStreams_got :: "nat \<Rightarrow> nat option \<Rightarrow> mux_listener \<Rightarrow> mux_listener" where
  "acceptStreams_got s r l =
     (case r of
        None \<Rightarrow> end_session s l
      | Some st \<Rightarrow> l\<lparr> ml_sess := (ml_sess l)(s \<mapsto> SessHold st), ml_streams := (st, s) # ml_streams l \<rparr>)"

definition mux_Accept :: "nat \<Rightarrow> nat \<Rightarrow> mux_listener \<Rightarrow> mux_listener" where
  "mux_Accept s st l = l\<lparr> ml_sess := (ml_sess l)(s \<mapsto> SessAwait), ml_returned := ml_returned l @ [st] \<rparr>"

definition acceptStreams_cancelled :: "nat \<Rightarrow> nat \<Rightarrow> mux_listener \<Rightarrow> mux_listener" where
  "acceptStreams_cancelled s st l =
     end_session s (l\<lparr> ml_st_closed := insert st (ml_st_closed l) \<rparr>)"

definition mux_Close :: "mux_listener \<Rightarrow> mux_listener" where
  "mux_Close l = l\<lparr> ml_closed := True, ml_inner_closed := True \<rparr>"

inductive mux_step :: "mux_listener \<Rightarrow> mux_listener \<Rightarrow> bool" where
  mx_pipe: "ml_accepting l \<Longrightarrow> pipe \<notin> dom (ml_sess l) \<union> ml_dropped l \<Longrightarrow> mux_step l (acceptPipes_round (Some (pipe, ok)) l)"
| mx_end: "ml_accepting l \<Longrightarrow> mux_step l (acceptPipes_round None l)"
| mx_stream: "ml_sess l s = Some SessAwait \<Longrightarrow> st \<notin> fst ` set (ml_streams l) \<Longrightarrow> mux_step l (acceptStreams_got s (Some st) l)"
| mx_died: "ml_sess l s = Some SessAwait \<Longrightarrow> mux_step l (acceptStreams_got s None l)"
| mx_accept: "ml_sess l s = Some (SessHold st) \<Longrightarrow> mux_step l (mux_Accept s st l)"
| mx_cancel: "ml_closed l \<Longrightarrow> ml_sess l s = Some (SessHold st) \<Longrightarrow> mux_step l (acceptStreams_cancelled s st l)"
| mx_close: "mux_step l (mux_Close l)"

section \<open>Opening a stream\<close>

text \<open>
  \<open>MuxDialer.Open\<close>: a goroutine opens the stream and puts what it got into a channel with one slot;
  the caller waits for the channel or its context. \<open>oc_got\<close> is what the goroutine was given and has
  sent, \<open>oc_ch\<close> what is in the channel, \<open>oc_result\<close> what the caller returned.
\<close>

datatype open_result = Opened nat | OpenFailed | OpenCancelled

record open_call =
  oc_got :: "nat option option"
  oc_ch :: "nat option option"
  oc_result :: "open_result option"

definition open_begin :: open_call where
  "open_begin = \<lparr> oc_got = None, oc_ch = None, oc_result = None \<rparr>"

definition open_send :: "nat option \<Rightarrow> open_call \<Rightarrow> open_call" where
  "open_send r c = c\<lparr> oc_got := Some r, oc_ch := Some r \<rparr>"

definition open_recv :: "nat option \<Rightarrow> open_call \<Rightarrow> open_call" where
  "open_recv r c = c\<lparr> oc_ch := None, oc_result := Some (case r of Some st \<Rightarrow> Opened st | None \<Rightarrow> OpenFailed) \<rparr>"

definition open_cancel :: "open_call \<Rightarrow> open_call" where
  "open_cancel c = c\<lparr> oc_result := Some OpenCancelled \<rparr>"

inductive open_step :: "open_call \<Rightarrow> open_call \<Rightarrow> bool" where
  op_send: "oc_got c = None \<Longrightarrow> open_step c (open_send r c)"
| op_recv: "oc_result c = None \<Longrightarrow> oc_ch c = Some r \<Longrightarrow> open_step c (open_recv r c)"
| op_cancel: "oc_result c = None \<Longrightarrow> open_step c (open_cancel c)"

inductive_cases open_stepE: "open_step c c'"

section \<open>Invariants\<close>

definition held :: "mux_listener \<Rightarrow> nat set" where
  "held l = {st. \<exists>s. ml_sess l s = Some (SessHold st)}"

text \<open>
  What is known of a stream by the state of its session: it has been returned, unless it is the one
  being offered, or the session ended while it was offered, which takes a closed listener; and it
  is closed exactly if the session has ended.
\<close>

definition accounted :: "mux_listener \<Rightarrow> nat \<Rightarrow> nat \<Rightarrow> bool" where
  "accounted l st s \<longleftrightarrow>
     (case ml_sess l s of
        None \<Rightarrow> False
      | Some SessAwait \<Rightarrow> st \<in> set (ml_returned l)
      | Some (SessHold u) \<Rightarrow> st \<in> set (ml_returned l) \<longleftrightarrow> st \<noteq> u
      | Some SessEnded \<Rightarrow> st \<in> set (ml_returned l) \<or> ml_closed l) \<and>
     (st \<in> ml_st_closed l \<longleftrightarrow> ml_sess l s = Some SessEnded)"

definition mux_inv :: "mux_listener \<Rightarrow> bool" where
  "mux_inv l \<longleftrightarrow>
     distinct (map fst (ml_streams l)) \<and> distinct (ml_returned l) \<and> set (ml_returned l) \<subseteq> fst ` set (ml_streams l) \<and>
     ml_st_closed l \<subseteq> fst ` set (ml_streams l) \<and> (ml_closed l \<longleftrightarrow> ml_inner_closed l) \<and>
     (\<forall>s st. ml_sess l s = Some (SessHold st) \<longrightarrow> (st, s) \<in> set (ml_streams l)) \<and>
     (\<forall>st s. (st, s) \<in> set (ml_streams l) \<longrightarrow> accounted l st s)"

lemma mux_invD:
  assumes "mux_inv l"
  shows "distinct (map fst (ml_streams l))" "distinct (ml_returned l)" "set (ml_returned l) \<subseteq> fst ` set (ml_streams l)"
    "ml_st_closed l \<subseteq> fst ` set (ml_streams l)" "ml_closed l \<longleftrightarrow> ml_inner_closed l"
    and "ml_sess l s = Some (SessHold st) \<Longrightarrow> (st, s) \<in> set (ml_streams l)"
    and "(st, s) \<in> set (ml_streams l) \<Longrightarrow> accounted l st s"
  using assms by (simp_all add: mux_inv_def)

lemma mux_invI:
  assumes "distinct (map fst (ml_streams l))" "distinct (ml_returned l)" "set (ml_returned l) \<subseteq> fst ` set (ml_streams l)"
    "ml_st_closed l \<subseteq> fst ` set (ml_streams l)" "ml_closed l \<longleftrightarrow> ml_inner_closed l"
    and "\<And>s st. ml_sess l s = Some (SessHold st) \<Longrightarrow> (st, s) \<in> set (ml_streams l)"
    and "\<And>st s. (st, s) \<in> set (ml_streams l) \<Longrightarrow> accounted l st s"
  shows "mux_inv l"
  using assms by (simp add: mux_inv_def)

lemma stream_owner: "mux_inv l \<Longrightarrow> (st, s) \<in> set (ml_streams l) \<Longrightarrow> (st, t) \<in> set (ml_streams l) \<Longrightarrow> s = t"
  by (rule eq_key_imp_eq_value [OF mux_invD(1)])

lemma offered_not_returned: "mux_inv l \<Longrightarrow> ml_sess l s = Some (SessHold st) \<Longrightarrow> st \<notin> set (ml_returned l)"
  using mux_invD(7) [of l st s] mux_invD(6) [of l s st] by (simp add: accounted_def)

lemma end_session_closed:
  "st \<in> ml_st_closed (end_session s l) \<longleftrightarrow> st \<in> ml_st_closed l \<or> (st, s) \<in> set (ml_streams l)"
  by (force simp: end_session_def)

lemma end_session_simps [simp]:
  "ml_sess (end_session s l) = (ml_sess l)(s \<mapsto> SessEnded)" "ml_streams (end_session s l) = ml_streams l"
  "ml_returned (end_session s l) = ml_returned l" "ml_closed (end_session s l) = ml_closed l"
  "ml_inner_closed (end_session s l) = ml_inner_closed l"
  by (simp_all add: end_session_def)

lemma mux_inv_end:
  assumes i: "mux_inv l" and s: "ml_sess l s = Some pc" "pc \<noteq> SessEnded" "\<And>st. pc = SessHold st \<Longrightarrow> ml_closed l"
  shows "mux_inv (end_session s l)"
proof (rule mux_invI)
  show "ml_st_closed (end_session s l) \<subseteq> fst ` set (ml_streams (end_session s l))"
    using mux_invD(4) [OF i] by (force simp: end_session_closed)
  fix st t assume m: "(st, t) \<in> set (ml_streams (end_session s l))"
  then have a: "accounted l st t" using mux_invD(7) [OF i] by simp
  have "(st, s) \<in> set (ml_streams l) \<longleftrightarrow> t = s" using m stream_owner [OF i] by auto
  then show "accounted (end_session s l) st t"
    using a s by (cases "t = s"; cases pc) (auto simp: accounted_def end_session_closed split: option.splits sess_pc.splits)
qed (use mux_invD [OF i] in \<open>auto split: if_splits\<close>)

lemma mux_inv_step:
  assumes i: "mux_inv l" and st: "mux_step l l'"
  shows "mux_inv l'"
  using st
proof cases
  case (mx_pipe p ok)
  have "ml_sess l p = None" using mx_pipe(3) by auto
  then have "accounted (acceptPipes_round (Some (p, ok)) l) st s" if "(st, s) \<in> set (ml_streams l)" for st s
    using mux_invD(7) [OF i that] by (cases "s = p") (auto simp: accounted_def acceptPipes_round_def split: option.splits sess_pc.splits)
  then show ?thesis unfolding mx_pipe(1)
    by (intro mux_invI) (use mux_invD [OF i] in \<open>auto simp: acceptPipes_round_def split: if_splits\<close>)
next
  case mx_end
  have "accounted (acceptPipes_round None l) st s = accounted l st s" for st s
    by (simp add: accounted_def acceptPipes_round_def split: option.split sess_pc.split)
  then show ?thesis using i mx_end by (simp add: mux_inv_def acceptPipes_round_def)
next
  case (mx_stream s st)
  have n: "st \<notin> set (ml_returned l)" "st \<notin> ml_st_closed l" using mx_stream(3) mux_invD(3,4) [OF i] by auto
  have "accounted (acceptStreams_got s (Some st) l) u t" if "(u, t) \<in> set (ml_streams l)" for u t
  proof -
    have "u \<noteq> st" using that mx_stream(3) by force
    then show ?thesis using mux_invD(7) [OF i that] mx_stream(2)
      by (cases "t = s") (auto simp: accounted_def acceptStreams_got_def split: option.splits sess_pc.splits)
  qed
  moreover have "accounted (acceptStreams_got s (Some st) l) st s" using n by (simp add: accounted_def acceptStreams_got_def)
  ultimately show ?thesis unfolding mx_stream(1)
    by (intro mux_invI) (use mux_invD [OF i] mx_stream(3) in \<open>auto simp: acceptStreams_got_def split: if_splits\<close>)
next
  case (mx_died s)
  then show ?thesis using mux_inv_end [OF i mx_died(2)] by (simp add: acceptStreams_got_def)
next
  case (mx_accept s st)
  have o: "(st, s) \<in> set (ml_streams l)" "st \<notin> set (ml_returned l)"
    using mux_invD(6) [OF i mx_accept(2)] offered_not_returned [OF i mx_accept(2)] .
  have "accounted (mux_Accept s st l) u t" if "(u, t) \<in> set (ml_streams l)" for u t
  proof -
    have "t \<noteq> s \<Longrightarrow> u \<noteq> st" using stream_owner [OF i o(1)] that by auto
    then show ?thesis using mux_invD(7) [OF i that] mx_accept(2)
      by (cases "t = s") (auto simp: accounted_def mux_Accept_def split: option.splits sess_pc.splits)
  qed
  moreover have "st \<in> fst ` set (ml_streams l)" using o(1) by force
  ultimately show ?thesis unfolding mx_accept(1)
    by (intro mux_invI) (use mux_invD [OF i] o(2) in \<open>auto simp: mux_Accept_def split: if_splits\<close>)
next
  case (mx_cancel s st)
  have "(st, s) \<in> set (ml_streams l)" by (rule mux_invD(6) [OF i mx_cancel(3)])
  then have "st \<in> set (map fst (filter (\<lambda>(_, t). t = s) (ml_streams l)))" by force
  then have "insert st (ml_st_closed l) \<union> set (map fst (filter (\<lambda>(_, t). t = s) (ml_streams l))) =
    ml_st_closed l \<union> set (map fst (filter (\<lambda>(_, t). t = s) (ml_streams l)))" by blast
  then have "l' = end_session s l" by (simp add: mx_cancel(1) acceptStreams_cancelled_def end_session_def)
  then show ?thesis using mux_inv_end [OF i mx_cancel(3)] mx_cancel(2) by simp
next
  case mx_close
  have "accounted (mux_Close l) st s" if "(st, s) \<in> set (ml_streams l)" for st s
    using mux_invD(7) [OF i that] by (auto simp: accounted_def mux_Close_def split: option.splits sess_pc.splits)
  then show ?thesis unfolding mx_close
    by (intro mux_invI) (use mux_invD [OF i] in \<open>auto simp: mux_Close_def\<close>)
qed

interpretation mux_machine: invariant_machine "\<lambda>l. l = NewMuxListener" mux_step mux_inv
proof
  show "mux_inv l" if "l = NewMuxListener" for l using that by (simp add: mux_inv_def held_def NewMuxListener_def)
  show "mux_inv l'" if "mux_inv l" "mux_step l l'" for l l' using that by (rule mux_inv_step)
qed

definition open_inv :: "open_call \<Rightarrow> bool" where
  "open_inv c \<longleftrightarrow>
     (oc_got c = None \<longrightarrow> oc_ch c = None \<and> oc_result c \<in> {None, Some OpenCancelled}) \<and>
     (\<forall>r. oc_got c = Some r \<longrightarrow>
        oc_ch c = Some r \<and> oc_result c \<in> {None, Some OpenCancelled} \<or>
        oc_ch c = None \<and> oc_result c = Some (case r of Some st \<Rightarrow> Opened st | None \<Rightarrow> OpenFailed))"

interpretation open_machine: invariant_machine "\<lambda>c. c = open_begin" open_step open_inv
proof
  show "open_inv c" if "c = open_begin" for c using that by (simp add: open_inv_def open_begin_def)
  show "open_inv c'" if "open_inv c" "open_step c c'" for c c'
    using that(2,1) by cases (auto simp: open_inv_def open_send_def open_recv_def open_cancel_def)
qed

section \<open>Properties\<close>

text \<open>
  C13. No stream is lost or duplicated. In every interleaving every stream a session has yielded
  has been returned by \<open>Accept\<close>, exactly once, or is being offered by the goroutine of its session,
  or was closed while it was offered, and then the listener had been closed. The listener
  has closed a stream exactly if it has ended its session, whether the stream was returned or not;
  and it ends a session only when
  yamux reports an error, or when its goroutine is offering a stream and the listener has been
  closed, so closing the listener alone closes no stream.
\<close>

theorem mux_streams:
  "reach (\<lambda>l. l = NewMuxListener) mux_step l \<Longrightarrow>
   distinct (map fst (ml_streams l)) \<and> distinct (ml_returned l) \<and> set (ml_returned l) \<inter> held l = {} \<and>
   set (ml_returned l) \<union> held l \<subseteq> fst ` set (ml_streams l) \<and>
   (\<forall>(st, s) \<in> set (ml_streams l).
      (st \<in> set (ml_returned l) \<or> st \<in> held l \<or> ml_closed l \<and> st \<in> ml_st_closed l) \<and>
      (st \<in> ml_st_closed l \<longleftrightarrow> ml_sess l s = Some SessEnded)) \<and>
   (\<forall>l' s. mux_step l l' \<longrightarrow> ml_sess l s \<noteq> Some SessEnded \<longrightarrow> ml_sess l' s = Some SessEnded \<longrightarrow>
      l' = acceptStreams_got s None l \<or>
      ml_closed l \<and> (\<exists>st. ml_sess l s = Some (SessHold st) \<and> l' = acceptStreams_cancelled s st l))"
proof (intro conjI allI impI ballI)
  assume r: "reach (\<lambda>l. l = NewMuxListener) mux_step l"
  have i: "mux_inv l" using r by (rule mux_machine.reach_inv)
  show "distinct (map fst (ml_streams l))" "distinct (ml_returned l)" using mux_invD [OF i] by simp_all
  show "set (ml_returned l) \<inter> held l = {}" using offered_not_returned [OF i] by (auto simp: held_def)
  show "set (ml_returned l) \<union> held l \<subseteq> fst ` set (ml_streams l)" using mux_invD(3,6) [OF i] by (force simp: held_def)
  fix x assume x: "x \<in> set (ml_streams l)"
  obtain st s where xs: "x = (st, s)" by fastforce
  have "accounted l st s" using mux_invD(7) [OF i] x xs by simp
  then show "case x of (st, s) \<Rightarrow> (st \<in> set (ml_returned l) \<or> st \<in> held l \<or> ml_closed l \<and> st \<in> ml_st_closed l) \<and>
      (st \<in> ml_st_closed l \<longleftrightarrow> ml_sess l s = Some SessEnded)"
    unfolding xs by (auto simp: accounted_def held_def split: option.splits sess_pc.splits)
next
  fix l' s assume st: "mux_step l l'" and e: "ml_sess l s \<noteq> Some SessEnded" "ml_sess l' s = Some SessEnded"
  show "l' = acceptStreams_got s None l \<or>
      ml_closed l \<and> (\<exists>st. ml_sess l s = Some (SessHold st) \<and> l' = acceptStreams_cancelled s st l)"
    using st
  proof cases
    case (mx_pipe p ok)
    then show ?thesis using e by (cases ok) (auto simp: acceptPipes_round_def split: if_splits)
  qed (use e in \<open>auto simp: acceptPipes_round_def acceptStreams_got_def mux_Accept_def acceptStreams_cancelled_def
        mux_Close_def split: if_splits\<close>)
qed

definition demo_mux :: mux_listener where
  "demo_mux = acceptStreams_cancelled 2 8 (mux_Close (mux_Accept 1 7
     (acceptStreams_got 2 (Some 8) (acceptStreams_got 1 (Some 7)
       (acceptPipes_round (Some (2, True)) (acceptPipes_round (Some (1, True)) NewMuxListener))))))"

lemma demo_mux_reach: "reach (\<lambda>l. l = NewMuxListener) mux_step demo_mux"
proof -
  let ?R = "reach (\<lambda>l. l = NewMuxListener) mux_step"
  let ?l2 = "acceptPipes_round (Some (2, True)) (acceptPipes_round (Some (1, True)) NewMuxListener)"
  let ?l4 = "acceptStreams_got 2 (Some 8) (acceptStreams_got 1 (Some 7) ?l2)"
  note d = NewMuxListener_def acceptPipes_round_def acceptStreams_got_def mux_Accept_def mux_Close_def
  have "?R NewMuxListener" by (rule reach_start) (rule refl)
  then have "?R (acceptPipes_round (Some (1, True)) NewMuxListener)" by (rule reach_step) (rule mx_pipe; simp add: d)
  then have "?R ?l2" by (rule reach_step) (rule mx_pipe; simp add: d)
  then have "?R (acceptStreams_got 1 (Some 7) ?l2)" by (rule reach_step) (rule mx_stream; simp add: d)
  then have "?R ?l4" by (rule reach_step) (rule mx_stream; simp add: d)
  then have "?R (mux_Accept 1 7 ?l4)" by (rule reach_step) (rule mx_accept; simp add: d)
  then have "?R (mux_Close (mux_Accept 1 7 ?l4))" by (rule reach_step) (rule mx_close)
  then show ?thesis unfolding demo_mux_def by (rule reach_step) (rule mx_cancel; simp add: d)
qed

theorem mux_streams_witness:
  "ml_returned demo_mux = [7] \<and> held demo_mux = {} \<and> map fst (ml_streams demo_mux) = [8, 7] \<and>
   8 \<in> ml_st_closed demo_mux \<and> 7 \<notin> ml_st_closed demo_mux"
proof -
  note d = demo_mux_def acceptStreams_cancelled_def mux_Close_def mux_Accept_def acceptStreams_got_def
        acceptPipes_round_def NewMuxListener_def
  have s: "ml_returned demo_mux = [7]" "ml_streams demo_mux = [(8, 2), (7, 1)]" "ml_sess demo_mux 1 = Some SessAwait"
    "ml_sess demo_mux 2 = Some SessEnded"
    by (simp_all add: d)
  note m = mux_streams [OF demo_mux_reach]
  have "(8 \<in> ml_st_closed demo_mux \<longleftrightarrow> ml_sess demo_mux 2 = Some SessEnded) \<and>
    (7 \<in> ml_st_closed demo_mux \<longleftrightarrow> ml_sess demo_mux 1 = Some SessEnded)"
    using m s(2) by simp
  moreover have "held demo_mux = {}" by (auto simp: held_def d split: if_splits)
  ultimately show ?thesis using s by simp
qed

text \<open>
  A cancelled \<open>Open\<close> leaks its stream: once the caller has returned because its context ended and
  the goroutine has been given a stream, the stream stays in the channel, nothing can happen any
  more, and so it is neither returned nor closed.
\<close>

theorem open_cancel_leaks:
  "reach (\<lambda>c. c = open_begin) open_step c \<Longrightarrow> oc_result c = Some OpenCancelled \<Longrightarrow> oc_got c = Some (Some st) \<Longrightarrow>
   oc_ch c = Some (Some st) \<and> \<not> (\<exists>c'. open_step c c')"
proof -
  assume r: "reach (\<lambda>c. c = open_begin) open_step c" and c: "oc_result c = Some OpenCancelled" "oc_got c = Some (Some st)"
  have "open_inv c" using r by (rule open_machine.reach_inv)
  then show ?thesis using c by (auto simp: open_inv_def elim: open_stepE)
qed

theorem open_cancel_leaks_witness:
  "oc_ch (open_send (Some 5) (open_cancel open_begin)) = Some (Some 5) \<and>
   \<not> (\<exists>c'. open_step (open_send (Some 5) (open_cancel open_begin)) c')"
proof -
  have r0: "reach (\<lambda>c. c = open_begin) open_step open_begin" by (rule reach_start) (rule refl)
  then have "reach (\<lambda>c. c = open_begin) open_step (open_cancel open_begin)"
    by (rule reach_step) (rule op_cancel, simp add: open_begin_def)
  then have "reach (\<lambda>c. c = open_begin) open_step (open_send (Some 5) (open_cancel open_begin))"
    by (rule reach_step) (rule op_send, simp add: open_begin_def open_cancel_def)
  from open_cancel_leaks [OF this, of 5] show ?thesis by (simp add: open_send_def open_cancel_def open_begin_def)
qed

text \<open>
  \<open>Close\<close> does not reach the sessions: a session that waits for a stream goes on waiting until yamux
  yields a stream or an error, whatever the listener does.
\<close>

lemma mux_close_idle:
  assumes "ml_sess l s = Some SessAwait" "mux_step l l'"
  shows "ml_sess l' s = Some SessAwait \<or> (\<exists>r. l' = acceptStreams_got s r l)"
  using assms(2,1)
proof cases
  case (mx_pipe p ok)
  then show ?thesis using assms(1) by (cases ok) (auto simp: acceptPipes_round_def)
qed (auto simp: acceptPipes_round_def acceptStreams_got_def mux_Accept_def acceptStreams_cancelled_def mux_Close_def split: option.splits)

end
