(* ===== verification/Ccb_Carrier.thy ===== *)
theory Ccb_Carrier
  imports Ccb_Config Go_Url Ws_Carrier Carrier_Mux Fstun_Config
begin

text \<open>
  The broker's side of the carriers (\<open>carrier.go\<close>, and \<open>startBackground\<close> of \<open>server.go\<close>): the shared
  session of an inside broker, and the listener of an outside broker.

  Dialling a pipe and starting yamux over it are answered from outside; pipes are numbered, and
  the session over a pipe has its number. Ghost components record the pipes that were dialled,
  those closed directly, the sessions, and the sessions that are closed, by the client or by
  themselves.
\<close>

section \<open>The client\<close>

record carrierClient =
  cl_ref :: carrierRef
  cl_token :: string
  cl_tokenSource :: bool
  cl_clientTLS :: bool
  cl_md :: "nat option"
  cl_done :: bool
  cl_pipes :: "nat set"
  cl_pipe_closed :: "nat set"
  cl_sess :: "nat set"
  cl_sess_closed :: "nat set"

definition newCarrierClient :: "carrierRef \<Rightarrow> bconfig \<Rightarrow> carrierClient" where
  "newCarrierClient ref cfg =
     \<lparr> cl_ref = ref, cl_token = c_CarrierToken cfg, cl_tokenSource = c_CarrierTokenSource cfg,
       cl_clientTLS = c_CarrierClientTLS cfg, cl_md = None, cl_done = False,
       cl_pipes = {}, cl_pipe_closed = {}, cl_sess = {}, cl_sess_closed = {} \<rparr>"

definition fstunConfig :: "carrierRef \<Rightarrow> fs_config" where
  "fstunConfig r =
     \<lparr> cfg_Root = cr_path r, cfg_SegmentSize = 0, cfg_Window = 0, cfg_MaxFrame = 0, cfg_PollInterval = 0, cfg_PollMax = 0,
       cfg_FlushInterval = 0, cfg_NetworkFS = None, cfg_Heartbeat = 0, cfg_IdleTimeout = 0, cfg_HandshakeTimeout = 0,
       cfg_Sync = False, cfg_AgeSweepInterval = 0, cfg_AgeSweepThreshold = 0 \<rparr>"

text \<open>\<open>dialPipe\<close> chooses whom to ask: \<open>fstun.Dial\<close> or \<open>wscarrier.Dial\<close>, with these configurations.\<close>

datatype pipe_dial = DialFs fs_config | DialWs dialConfig | DialUnknown string

definition dialPipe :: "carrierClient \<Rightarrow> pipe_dial" where
  "dialPipe c =
     (if cr_scheme (cl_ref c) = ''fs'' then DialFs (fstunConfig (cl_ref c))
      else if cr_scheme (cl_ref c) = ''ws'' then
        DialWs \<lparr> dc_URL = cr_url (cl_ref c), dc_Token = cl_token c, dc_TokenSource = cl_tokenSource c, dc_TLS = cl_clientTLS c,
                 dc_HandshakeTimeout = 0, dc_ReadLimit = 0 \<rparr>
      else DialUnknown (''ccbserver: unknown carrier scheme '' @ quote (cr_scheme (cl_ref c))))"

definition describe :: "carrierClient \<Rightarrow> string" where
  "describe c =
     (if cr_scheme (cl_ref c) = ''ws'' then ''ws:'' @ cr_url (cl_ref c)
      else cr_scheme (cl_ref c) @ '':'' @ cr_path (cl_ref c))"

datatype session_error = SessionClosed | DialingPipe string | YamuxClient string

text \<open>\<open>session\<close>; \<open>answer\<close> is the pipe \<open>dialPipe\<close> obtains, if any, and whether yamux starts over it.\<close>

definition establish :: "(pipe_dial \<Rightarrow> (nat \<times> bool) option) \<Rightarrow> carrierClient \<Rightarrow> carrierClient \<times> (session_error + nat)" where
  "establish answer c =
     (case answer (dialPipe c) of
        None \<Rightarrow> (c, Inl (DialingPipe (describe c)))
      | Some (pipe, ok) \<Rightarrow>
          let c1 = c\<lparr> cl_pipes := insert pipe (cl_pipes c) \<rparr>
          in if \<not> ok then (c1\<lparr> cl_pipe_closed := insert pipe (cl_pipe_closed c) \<rparr>, Inl (YamuxClient (describe c)))
             else (c1\<lparr> cl_sess := insert pipe (cl_sess c), cl_md := Some pipe \<rparr>, Inr pipe))"

definition session :: "(pipe_dial \<Rightarrow> (nat \<times> bool) option) \<Rightarrow> carrierClient \<Rightarrow> carrierClient \<times> (session_error + nat)" where
  "session answer c =
     (if cl_done c then (c, Inl SessionClosed)
      else case cl_md c of
             Some m \<Rightarrow>
               if m \<notin> cl_sess_closed c then (c, Inr m)
               else establish answer (c\<lparr> cl_sess_closed := insert m (cl_sess_closed c), cl_md := None \<rparr>)
           | None \<Rightarrow> establish answer c)"

text \<open>\<open>dial\<close>: a stream of the session; \<open>open_stream\<close> is what \<open>MuxDialer.Open\<close> returns on it.\<close>

datatype dial_result = DialSession session_error | DialStream open_result

definition carrier_dial ::
  "(pipe_dial \<Rightarrow> (nat \<times> bool) option) \<Rightarrow> (nat \<Rightarrow> open_result) \<Rightarrow> carrierClient \<Rightarrow> carrierClient \<times> dial_result" where
  "carrier_dial answer open_stream c =
     (case session answer c of
        (c', Inl e) \<Rightarrow> (c', DialSession e)
      | (c', Inr m) \<Rightarrow> (c', DialStream (open_stream m)))"

definition carrier_close :: "carrierClient \<Rightarrow> carrierClient" where
  "carrier_close c =
     (case cl_md c of
        None \<Rightarrow> c\<lparr> cl_done := True \<rparr>
      | Some m \<Rightarrow> c\<lparr> cl_done := True, cl_sess_closed := insert m (cl_sess_closed c), cl_md := None \<rparr>)"

text \<open>The steps: dials, whose pipes are new, the close, and sessions that die by themselves.\<close>

inductive client_step :: "carrierClient \<Rightarrow> carrierClient \<Rightarrow> bool" where
  cs_dial: "\<forall>d p ok. answer d = Some (p, ok) \<longrightarrow> p \<notin> cl_pipes c \<Longrightarrow> client_step c (fst (carrier_dial answer open_stream c))"
| cs_close: "client_step c (carrier_close c)"
| cs_died: "m \<in> cl_sess c \<Longrightarrow> client_step c (c\<lparr> cl_sess_closed := insert m (cl_sess_closed c) \<rparr>)"

section \<open>The listener\<close>

datatype net_listener = FsListener fs_config | WsListener listenConfig

definition carrierNetListener :: "bconfig \<Rightarrow> carrierRef \<Rightarrow> string + net_listener" where
  "carrierNetListener cfg ref =
     (if cr_scheme ref = ''fs'' then Inr (FsListener (fstunConfig ref))
      else if cr_scheme ref = ''ws'' then
        (if c_CarrierTokenVerify cfg = None then Inl ''ccbserver: a WebSocket CarrierListen requires CarrierTokenVerify''
         else case urlParse (cr_url ref) of
                None \<Rightarrow> Inl (''ccbserver: bad carrier URL '' @ quote (cr_url ref))
              | Some (host, path) \<Rightarrow>
                  if cr_tls ref \<and> \<not> c_CarrierTLS cfg then Inl ''ccbserver: a wss:// CarrierListen requires CarrierTLS''
                  else Inr (WsListener \<lparr> lc_Addr = host, lc_Path = path, lc_TLS = c_CarrierTLS cfg,
                                         lc_Verify = c_CarrierTokenVerify cfg, lc_ReadLimit = 0 \<rparr>))
      else Inl (''ccbserver: unknown carrier scheme '' @ quote (cr_scheme ref)))"

text \<open>\<open>startCarrierListener\<close>: what is served over yamux, or the error that is logged.\<close>

definition startCarrierListener :: "bconfig \<Rightarrow> string + net_listener" where
  "startCarrierListener cfg =
     (case parseCarrierRef (c_CarrierListen cfg) of
        None \<Rightarrow> Inl ''CarrierListen is not a recognized carrier address''
      | Some ref \<Rightarrow> carrierNetListener cfg ref)"

datatype background = SweepLoop | CarrierListener "string + net_listener" | CarrierCloser | UpstreamLoop

definition startBackground :: "bconfig \<Rightarrow> carrierRef option \<Rightarrow> background list" where
  "startBackground cfg cc =
     (if c_ReconnectStore cfg then [SweepLoop] else [])
     @ (if c_CarrierListen cfg \<noteq> [] then [CarrierListener (startCarrierListener cfg)] else [])
     @ (if cc \<noteq> None then [CarrierCloser] else [])
     @ (if c_Upstream cfg \<noteq> None then [UpstreamLoop] else [])"

section \<open>Invariant of the client\<close>

definition live :: "carrierClient \<Rightarrow> nat set" where
  "live c = cl_sess c - cl_sess_closed c"

definition client_inv :: "carrierClient \<Rightarrow> bool" where
  "client_inv c \<longleftrightarrow>
     cl_pipes c = cl_pipe_closed c \<union> cl_sess c \<and> cl_pipe_closed c \<inter> cl_sess c = {} \<and> cl_sess_closed c \<subseteq> cl_sess c \<and>
     live c \<subseteq> set_option (cl_md c) \<and> set_option (cl_md c) \<subseteq> cl_sess c \<and> (cl_done c \<longrightarrow> cl_md c = None)"

lemma establish_inv:
  assumes "client_inv c" "cl_md c = None" "\<not> cl_done c" "\<forall>d p ok. answer d = Some (p, ok) \<longrightarrow> p \<notin> cl_pipes c"
  shows "client_inv (fst (establish answer c))"
    "snd (establish answer c) = Inr m \<Longrightarrow> m \<in> live (fst (establish answer c)) \<and> cl_md (fst (establish answer c)) = Some m"
proof -
  have f: "\<And>p ok. answer (dialPipe c) = Some (p, ok) \<Longrightarrow> p \<notin> cl_pipes c" using assms(4) by blast
  show "client_inv (fst (establish answer c))"
    using assms(1-3) f by (auto simp: establish_def client_inv_def live_def Let_def split: option.split prod.split)
  show "m \<in> live (fst (establish answer c)) \<and> cl_md (fst (establish answer c)) = Some m" if "snd (establish answer c) = Inr m"
  proof -
    have "answer (dialPipe c) = Some (m, True)"
      using that by (auto simp: establish_def Let_def split: option.splits if_splits)
    then show ?thesis using assms(1) f by (auto simp: establish_def client_inv_def live_def)
  qed
qed

lemma session_inv:
  assumes "client_inv c" "\<forall>d p ok. answer d = Some (p, ok) \<longrightarrow> p \<notin> cl_pipes c"
  shows "client_inv (fst (session answer c))"
    "snd (session answer c) = Inr m \<Longrightarrow> m \<in> live (fst (session answer c)) \<and> cl_md (fst (session answer c)) = Some m"
proof -
  let ?c = "\<lambda>m. c\<lparr> cl_sess_closed := insert m (cl_sess_closed c), cl_md := None \<rparr>"
  have e: "client_inv (?c m)" "cl_md (?c m) = None" "\<forall>d p ok. answer d = Some (p, ok) \<longrightarrow> p \<notin> cl_pipes (?c m)"
    if "cl_md c = Some m" "m \<in> cl_sess_closed c" for m
    using assms that by (auto simp: client_inv_def live_def)
  show "client_inv (fst (session answer c))"
    using assms e establish_inv(1) [of c answer] establish_inv(1) [of "?c m" answer for m]
    by (auto simp: session_def split: option.split)
  show "m \<in> live (fst (session answer c)) \<and> cl_md (fst (session answer c)) = Some m" if "snd (session answer c) = Inr m"
    using assms that e establish_inv(2) [of c answer m] establish_inv(2) [of "?c k" answer m for k]
    by (auto simp: session_def client_inv_def live_def split: option.splits if_splits)
qed

lemma carrier_dial_session: "fst (carrier_dial answer open_stream c) = fst (session answer c)"
  by (simp add: carrier_dial_def split: prod.split sum.split)

interpretation client_machine: invariant_machine "\<lambda>c. \<exists>ref cfg. c = newCarrierClient ref cfg" client_step client_inv
proof
  show "client_inv c" if "\<exists>ref cfg. c = newCarrierClient ref cfg" for c
    using that by (auto simp: client_inv_def live_def newCarrierClient_def)
  show "client_inv c'" if "client_inv c" "client_step c c'" for c c'
    using that(2)
  proof cases
    case (cs_dial answer open_stream)
    then show ?thesis using session_inv(1) [OF that(1)] by (simp add: carrier_dial_session)
  next
    case cs_close
    then show ?thesis using that(1) by (auto simp: client_inv_def live_def carrier_close_def split: option.split)
  next
    case (cs_died m)
    then show ?thesis using that(1) by (auto simp: client_inv_def live_def)
  qed
qed

section \<open>Properties\<close>

text \<open>
  C12. An inside broker has one carrier session: in every interleaving of dials, with every outcome,
  of sessions that die and of the close, every pipe that was dialled is closed or has a session;
  at most the current session is alive; a dial that gets a stream gets it on the current, live
  session, the same one as long as it lives; and after the close no session is alive and every
  dial is refused.
\<close>

theorem carrier_one_session:
  "reach (\<lambda>c. \<exists>ref cfg. c = newCarrierClient ref cfg) client_step c \<Longrightarrow>
   \<forall>d p ok. answer d = Some (p, ok) \<longrightarrow> p \<notin> cl_pipes c \<Longrightarrow>
   cl_pipes c = cl_pipe_closed c \<union> cl_sess c \<and> live c \<subseteq> set_option (cl_md c) \<and>
   (\<forall>c' r. carrier_dial answer open_stream c = (c', DialStream r) \<longrightarrow>
      (\<exists>m. cl_md c' = Some m \<and> m \<in> live c' \<and> r = open_stream m \<and> (live c \<noteq> {} \<longrightarrow> c' = c))) \<and>
   (cl_done c \<longrightarrow> live c = {} \<and> carrier_dial answer open_stream c = (c, DialSession SessionClosed))"
proof -
  assume "reach (\<lambda>c. \<exists>ref cfg. c = newCarrierClient ref cfg) client_step c"
    and f: "\<forall>d p ok. answer d = Some (p, ok) \<longrightarrow> p \<notin> cl_pipes c"
  then have i: "client_inv c" by (blast intro: client_machine.reach_inv)
  have "\<exists>m. cl_md c' = Some m \<and> m \<in> live c' \<and> r = open_stream m \<and> (live c \<noteq> {} \<longrightarrow> c' = c)"
    if d: "carrier_dial answer open_stream c = (c', DialStream r)" for c' r
  proof -
    obtain m where m: "session answer c = (c', Inr m)" "r = open_stream m"
      using d by (auto simp: carrier_dial_def split: prod.splits sum.splits)
    have "c' = c" if l: "live c \<noteq> {}"
    proof -
      obtain k where k: "cl_md c = Some k" "k \<notin> cl_sess_closed c" using i l by (cases "cl_md c") (auto simp: client_inv_def live_def)
      moreover have "\<not> cl_done c" using i k(1) by (auto simp: client_inv_def)
      ultimately show ?thesis using m(1) by (simp add: session_def)
    qed
    then show ?thesis using session_inv(2) [OF i f, of m] m by simp
  qed
  moreover have "live c = {} \<and> carrier_dial answer open_stream c = (c, DialSession SessionClosed)" if "cl_done c"
    using i that by (auto simp: client_inv_def carrier_dial_def session_def)
  ultimately show ?thesis using i by (simp add: client_inv_def)
qed

definition demo_ref :: carrierRef where
  "demo_ref = \<lparr> cr_scheme = ''fs'', cr_path = ''/gpfs/ccb'', cr_url = [], cr_tls = False \<rparr>"

definition demo_client :: carrierClient where
  "demo_client = (fst (carrier_dial (\<lambda>_. Some (3, True)) Opened (newCarrierClient demo_ref example_bconfig)))\<lparr> cl_sess_closed := {3} \<rparr>"

theorem carrier_one_session_witness:
  "carrier_dial (\<lambda>_. Some (4, True)) Opened demo_client =
     (demo_client\<lparr> cl_pipes := {3, 4}, cl_sess := {3, 4}, cl_md := Some 4 \<rparr>, DialStream (Opened 4)) \<and>
   cl_pipes demo_client = cl_pipe_closed demo_client \<union> cl_sess demo_client \<and> live demo_client \<subseteq> {3}"
proof -
  let ?R = "reach (\<lambda>c. \<exists>ref cfg. c = newCarrierClient ref cfg) client_step"
  let ?n = "newCarrierClient demo_ref example_bconfig" and ?c1 = "fst (carrier_dial (\<lambda>_. Some (3, True)) Opened (newCarrierClient demo_ref example_bconfig))"
  note d = newCarrierClient_def carrier_dial_def session_def establish_def
  have c1: "?c1 = ?n\<lparr> cl_pipes := {3}, cl_sess := {3}, cl_md := Some 3 \<rparr>" by (simp add: d)
  have "?R ?n" by (rule reach_start) blast
  then have "?R ?c1" by (rule reach_step) (rule cs_dial, simp add: newCarrierClient_def)
  then have "?R (?c1\<lparr> cl_sess_closed := insert 3 (cl_sess_closed ?c1) \<rparr>)" by (rule reach_step) (rule cs_died, simp only: c1, simp)
  then have r: "?R demo_client" by (simp only: demo_client_def c1) (simp add: newCarrierClient_def)
  have s: "demo_client = ?n\<lparr> cl_pipes := {3}, cl_sess := {3}, cl_md := Some 3, cl_sess_closed := {3} \<rparr>"
    by (simp add: demo_client_def c1)
  have f: "\<forall>d p ok. (\<lambda>_::pipe_dial. Some (4, True)) d = Some (p, ok) \<longrightarrow> p \<notin> cl_pipes demo_client" by (simp add: s)
  have "carrier_dial (\<lambda>_. Some (4, True)) Opened demo_client =
     (demo_client\<lparr> cl_pipes := {3, 4}, cl_sess := {3, 4}, cl_md := Some 4 \<rparr>, DialStream (Opened 4))"
    by (simp add: s d insert_commute)
  then show ?thesis using carrier_one_session [OF r f, of Opened] by (simp add: s)
qed

end
