(* ===== verification/Ccb_Main.thy ===== *)
theory Ccb_Main
  imports Ccb_Carrier Ccb_Upstream
begin

text \<open>
  The daemon (\<open>cmd/golang-ccb/main.go\<close>): how flags, configuration knobs and the environment become the
  broker's configuration. The HTCondor libraries (configuration files, the DaemonCore daemon, the
  session cache, credentials, the authorization policy) are not part of the sources: what they
  answer is the record \<open>boot\<close>. The steps of \<open>run\<close> are in the order of the source, each with its error.
\<close>

section \<open>Knobs\<close>

type_synonym knobs = "string \<Rightarrow> string option"

definition configBool :: "knobs \<Rightarrow> string \<Rightarrow> bool \<Rightarrow> bool" where
  "configBool cfg key dfl =
     (case cfg key of
        None \<Rightarrow> dfl
      | Some v \<Rightarrow>
          let w = toLower (trimSpace v)
          in if w \<in> set [''true'', ''t'', ''yes'', ''y'', ''1''] then True
             else if w \<in> set [''false'', ''f'', ''no'', ''n'', ''0''] then False
             else dfl)"

definition isWSCarrier :: "string \<Rightarrow> bool" where
  "isWSCarrier addr \<longleftrightarrow> hasPrefix addr ''ws://'' \<or> hasPrefix addr ''wss://''"

text \<open>\<open>Get\<close> with its second result dropped.\<close>

definition knob :: "knobs \<Rightarrow> string \<Rightarrow> string" where
  "knob cfg key = (case cfg key of None \<Rightarrow> [] | Some v \<Rightarrow> v)"

section \<open>Carrier settings\<close>

record carrierSettings =
  cs_listen :: string
  cs_tls :: bool
  cs_verify :: "(string \<Rightarrow> string option) option"
  cs_clientTLS :: bool
  cs_token :: string
  cs_tokenSource :: bool

text \<open>Whether a certificate and key load, what a file contains, whether it holds certificates.\<close>

record tls_env =
  tv_keyPair :: "string \<Rightarrow> string \<Rightarrow> bool"
  tv_files :: "string \<Rightarrow> string option"
  tv_certs :: "string \<Rightarrow> bool"

definition loadCarrierClientTLS :: "tls_env \<Rightarrow> string \<Rightarrow> string option" where
  "loadCarrierClientTLS env caFile =
     (case tv_files env caFile of
        None \<Rightarrow> Some ''read''
      | Some pem \<Rightarrow> if \<not> tv_certs env pem then Some (''no certificates found in '' @ caFile) else None)"

definition listen_settings :: "knobs \<Rightarrow> token_lib \<Rightarrow> tls_env \<Rightarrow> string + carrierSettings" where
  "listen_settings cfg lib env =
     (let listen = knob cfg ''CCB_CARRIER_LISTEN'';
          cc = \<lparr> cs_listen = listen, cs_tls = False, cs_verify = None, cs_clientTLS = False, cs_token = [], cs_tokenSource = False \<rparr>
      in if \<not> isWSCarrier listen then Inr cc
         else let cc = cc\<lparr> cs_verify := Some (BearerTokenVerifier lib) \<rparr>
              in if \<not> hasPrefix listen ''wss://'' then Inr cc
                 else let certFile = knob cfg ''CCB_CARRIER_TLS_CERT''; keyFile = knob cfg ''CCB_CARRIER_TLS_KEY''
                      in if certFile = [] \<or> keyFile = [] then
                           Inl ''CCB_CARRIER_LISTEN is wss:// but CCB_CARRIER_TLS_CERT / CCB_CARRIER_TLS_KEY are not set''
                         else if \<not> tv_keyPair env certFile keyFile then Inl ''loading carrier TLS cert/key''
                         else Inr (cc\<lparr> cs_tls := True \<rparr>))"

definition client_settings :: "knobs \<Rightarrow> tls_env \<Rightarrow> carrierSettings \<Rightarrow> string + carrierSettings" where
  "client_settings cfg env cc =
     (let cc = (if knob cfg ''CCB_CARRIER_TOKEN'' \<noteq> [] then cc\<lparr> cs_token := knob cfg ''CCB_CARRIER_TOKEN'' \<rparr>
                else cc\<lparr> cs_tokenSource := True \<rparr>);
          caFile = knob cfg ''CCB_CARRIER_CA_FILE''
      in if caFile = [] then Inr cc
         else case loadCarrierClientTLS env caFile of
                Some e \<Rightarrow> Inl (''loading carrier CA file: '' @ e)
              | None \<Rightarrow> Inr (cc\<lparr> cs_clientTLS := True \<rparr>))"

definition buildCarrierSettings ::
  "knobs \<Rightarrow> token_lib \<Rightarrow> tls_env \<Rightarrow> string \<Rightarrow> upstreamConfig option \<Rightarrow> string + carrierSettings" where
  "buildCarrierSettings cfg lib env outboundNextHop upstream =
     (case listen_settings cfg lib env of
        Inl e \<Rightarrow> Inl e
      | Inr cc \<Rightarrow>
          if isWSCarrier outboundNextHop \<or> (case upstream of None \<Rightarrow> False | Some u \<Rightarrow> isWSCarrier (up_BrokerAddr u))
          then client_settings cfg env cc else Inr cc)"

section \<open>Starting\<close>

record flags =
  fl_listenExplicit :: bool
  fl_public :: string

datatype laddr = TcpAddr "ip option" nat | UnixAddr

definition addr_String :: "ip option \<Rightarrow> nat \<Rightarrow> string" where
  "addr_String a port = joinHostPort (case a of None \<Rightarrow> [] | Some i \<Rightarrow> ip_String i) (formatUint port)"

text \<open>\<open>buildSessionStore\<close>: an error, no store, or a store, which may be a shared database.\<close>

datatype session_store = NoStore | PlainStore | SharedStore

definition buildSessionStore :: "knobs \<Rightarrow> bool \<Rightarrow> session_store option \<Rightarrow> string + session_store" where
  "buildSessionStore cfg keysLoaded opened =
     (if knob cfg ''CCB_SESSION_CACHE_FILE'' = [] then Inr NoStore
      else if \<not> keysLoaded then Inl ''loading signing keys for session cache''
      else case opened of None \<Rightarrow> Inl ''opening session cache store'' | Some s \<Rightarrow> Inr s)"

record boot =
  bt_config :: bool
  bt_daemon :: bool
  bt_keys :: bool
  bt_sessions :: "session_store option"
  bt_listener :: "laddr option"
  bt_inherited :: bool
  bt_bindPublic :: "laddr option"
  bt_sinful :: "string option"
  bt_security :: bool
  bt_openStore :: bool
  bt_nextHopSec :: bool
  bt_authz :: "(string \<Rightarrow> string \<Rightarrow> string \<Rightarrow> bool) option"
  bt_levels :: bool
  bt_splitList :: "string \<Rightarrow> string list"
  bt_tls :: tls_env

datatype run_error =
    RunConfig | RunDaemon | RunListen | RunBindPublic | RunNoAddress | RunSecurity | RunOpenStore
  | RunNextHopSecurity | RunCarrier string | RunAuthz | RunNew new_error | RunLevels

text \<open>The listeners, and the one whose address is advertised.\<close>

definition run_listeners :: "flags \<Rightarrow> boot \<Rightarrow> run_error + laddr list \<times> laddr" where
  "run_listeners fl bt =
     (case bt_listener bt of
        None \<Rightarrow> Inl RunListen
      | Some ln \<Rightarrow>
          if bt_inherited bt \<and> fl_listenExplicit fl then
            (case bt_bindPublic bt of None \<Rightarrow> Inl RunBindPublic | Some pubLn \<Rightarrow> Inr ([ln, pubLn], pubLn))
          else Inr ([ln], ln))"

definition run_public :: "flags \<Rightarrow> boot \<Rightarrow> laddr \<Rightarrow> run_error + string" where
  "run_public fl bt directLn =
     (if fl_public fl \<noteq> [] then Inr (fl_public fl)
      else case directLn of
             TcpAddr a port \<Rightarrow> Inr (addr_String a port)
           | UnixAddr \<Rightarrow> (case bt_sinful bt of Some sinful \<Rightarrow> Inr sinful | None \<Rightarrow> Inl RunNoAddress))"

text \<open>Whether there is a reconnect store: the session cache is a shared database.\<close>

definition run_store :: "knobs \<Rightarrow> boot \<Rightarrow> run_error + bool" where
  "run_store cfg bt =
     (case buildSessionStore cfg (bt_keys bt) (bt_sessions bt) of
        Inr SharedStore \<Rightarrow> if bt_openStore bt then Inr True else Inl RunOpenStore
      | _ \<Rightarrow> Inr False)"

text \<open>The roles of an inside broker: the next hop, whether there is security for it, the upstream.\<close>

definition run_inside :: "knobs \<Rightarrow> boot \<Rightarrow> run_error + string \<times> bool \<times> upstreamConfig option" where
  "run_inside cfg bt =
     (let hop = knob cfg ''CCB_OUTBOUND_NEXT_HOP''
      in if hop = [] then Inr ([], False, None)
         else if \<not> bt_nextHopSec bt then Inl RunNextHopSecurity
         else Inr (hop, True, Some \<lparr> up_BrokerAddr = hop, up_Security = True, up_HeartbeatInterval = 0,
                                      up_ReadyFile = knob cfg ''CCB_TUNNEL_READY_FILE'' \<rparr>))"

text \<open>The settings of an exit: whether it proxies outbound, and its allow-list.\<close>

definition run_outbound :: "knobs \<Rightarrow> boot \<Rightarrow> bool \<times> string list" where
  "run_outbound cfg bt =
     (configBool cfg ''CCB_OUTBOUND_PROXY'' False,
      case cfg ''CCB_OUTBOUND_TARGET_ALLOWLIST'' of None \<Rightarrow> [] | Some v \<Rightarrow> bt_splitList bt v)"

definition run_config ::
  "knobs \<Rightarrow> boot \<Rightarrow> string \<Rightarrow> bool \<Rightarrow> string \<times> bool \<times> upstreamConfig option \<Rightarrow> carrierSettings \<Rightarrow> bconfig" where
  "run_config cfg bt pub store = (\<lambda>(hop, hopSec, upstream) cc.
     \<lparr> c_PublicAddress = pub, c_Security = True, c_RequestTimeout = 0, c_TargetIdleTimeout = 0, c_Authorizer = None,
       c_ReconnectStore = store, c_ReconnectAllowAnyIP = configBool cfg ''CCB_RECONNECT_ALLOWED_FROM_ANY_IP'' False,
       c_ReconnectTTL = 0, c_OutboundProxy = fst (run_outbound cfg bt),
       c_OutboundTargetAllowlist = snd (run_outbound cfg bt),
       c_OutboundNextHop = hop, c_OutboundNextHopSecurity = hopSec, c_OutboundTTL = 0, c_Upstream = upstream,
       c_CarrierListen = cs_listen cc, c_CarrierTLS = cs_tls cc, c_CarrierTokenVerify = cs_verify cc,
       c_CarrierClientTLS = cs_clientTLS cc, c_CarrierToken = cs_token cc, c_CarrierTokenSource = cs_tokenSource cc \<rparr>)"

type_synonym started = "bconfig \<times> carrierRef option \<times> outbound \<times> server"

definition newBroker :: "boot \<Rightarrow> bconfig \<Rightarrow> ReconnectRecord list option \<Rightarrow> run_error + started" where
  "newBroker bt cfg loaded =
     (case bt_authz bt of
        None \<Rightarrow> Inl RunAuthz
      | Some az \<Rightarrow>
          (case New (cfg\<lparr> c_Authorizer := Some az \<rparr>) loaded of
             Inl e \<Rightarrow> Inl (RunNew e)
           | Inr srv \<Rightarrow> if bt_levels bt then Inr srv else Inl RunLevels))"

text \<open>\<open>serveBroker\<close>: the background work that is started, and the listeners that are served.\<close>

definition serveBroker :: "started \<Rightarrow> laddr list \<Rightarrow> background list \<times> laddr list" where
  "serveBroker srv lns = (case srv of (cfg, cc, _) \<Rightarrow> (startBackground cfg cc, lns))"

definition run ::
  "flags \<Rightarrow> knobs \<Rightarrow> token_lib \<Rightarrow> boot \<Rightarrow> ReconnectRecord list option \<Rightarrow> run_error + started \<times> background list \<times> laddr list" where
  "run fl cfg lib bt loaded =
     (if \<not> bt_config bt then Inl RunConfig
      else if \<not> bt_daemon bt then Inl RunDaemon
      else case run_listeners fl bt of Inl e \<Rightarrow> Inl e
      | Inr (lns, directLn) \<Rightarrow>
      case run_public fl bt directLn of Inl e \<Rightarrow> Inl e
      | Inr pub \<Rightarrow>
      if \<not> bt_security bt then Inl RunSecurity
      else case run_store cfg bt of Inl e \<Rightarrow> Inl e
      | Inr store \<Rightarrow>
      case run_inside cfg bt of Inl e \<Rightarrow> Inl e
      | Inr inside \<Rightarrow>
      case buildCarrierSettings cfg lib (bt_tls bt) (fst inside) (snd (snd inside)) of Inl e \<Rightarrow> Inl (RunCarrier e)
      | Inr cc \<Rightarrow>
      case newBroker bt (run_config cfg bt pub store inside cc) loaded of Inl e \<Rightarrow> Inl e
      | Inr srv \<Rightarrow> Inr (srv, serveBroker srv lns))"

section \<open>Lemmas\<close>

text \<open>The parts of a run that gets as far as the broker.\<close>

lemma run_parts:
  assumes "run fl cfg lib bt loaded = Inr (srv, bg, lns) \<or> run fl cfg lib bt loaded = Inl (RunNew e)"
  obtains dl pub store inside cc ls where
    "run_listeners fl bt = Inr (ls, dl)" "run_public fl bt dl = Inr pub" "run_store cfg bt = Inr store" "run_inside cfg bt = Inr inside"
    "buildCarrierSettings cfg lib (bt_tls bt) (fst inside) (snd (snd inside)) = Inr cc"
    "run fl cfg lib bt loaded = Inr (srv, bg, lns) \<longrightarrow>
       newBroker bt (run_config cfg bt pub store inside cc) loaded = Inr srv \<and> (bg, lns) = serveBroker srv ls"
    "run fl cfg lib bt loaded = Inl (RunNew e) \<longrightarrow> newBroker bt (run_config cfg bt pub store inside cc) loaded = Inl (RunNew e)"
proof -
  have ne: "run_listeners fl bt \<noteq> Inl (RunNew e)" "run_public fl bt dl \<noteq> Inl (RunNew e)" "run_store cfg bt \<noteq> Inl (RunNew e)"
    "run_inside cfg bt \<noteq> Inl (RunNew e)" for dl
    by (simp_all add: run_listeners_def run_public_def run_store_def run_inside_def Let_def split: option.split laddr.split sum.split session_store.split)
  obtain ls dl where l: "run_listeners fl bt = Inr (ls, dl)"
    using assms ne by (cases "run_listeners fl bt") (auto simp: run_def split: if_splits)
  obtain pub where p: "run_public fl bt dl = Inr pub"
    using assms ne l by (cases "run_public fl bt dl") (auto simp: run_def split: if_splits)
  obtain store where st: "run_store cfg bt = Inr store"
    using assms ne l p by (cases "run_store cfg bt") (auto simp: run_def split: if_splits)
  obtain inside where i: "run_inside cfg bt = Inr inside"
    using assms ne l p st by (cases "run_inside cfg bt") (auto simp: run_def split: if_splits)
  obtain cc where c: "buildCarrierSettings cfg lib (bt_tls bt) (fst inside) (snd (snd inside)) = Inr cc"
    using assms ne l p st i by (cases "buildCarrierSettings cfg lib (bt_tls bt) (fst inside) (snd (snd inside))") (auto simp: run_def split: if_splits)
  show ?thesis
    by (rule that [OF l p st i c]; insert assms) (auto simp: run_def l p st i c split: if_splits sum.splits)
qed

lemma newBroker_Inr:
  assumes "newBroker bt cfg0 loaded = Inr (c, cc, ob, sv)"
  obtains az where "bt_authz bt = Some az" "New_config (cfg0\<lparr> c_Authorizer := Some az \<rparr>) = Inr (c, cc, ob)"
  using assms by (auto simp: newBroker_def New_def split: option.splits sum.splits if_splits prod.splits)

lemma with_defaults_more [simp]:
  "c_Authorizer (with_defaults c) = c_Authorizer c" "c_ReconnectStore (with_defaults c) = c_ReconnectStore c"
  "c_CarrierListen (with_defaults c) = c_CarrierListen c" "c_CarrierTLS (with_defaults c) = c_CarrierTLS c"
  "c_CarrierTokenVerify (with_defaults c) = c_CarrierTokenVerify c"
  by (simp_all add: with_defaults_def)

lemma run_config_simps [simp]:
  "c_PublicAddress (run_config cfg bt pub store inside cc) = pub" "c_Security (run_config cfg bt pub store inside cc)"
  "c_ReconnectStore (run_config cfg bt pub store inside cc) = store"
  "c_OutboundNextHop (run_config cfg bt pub store inside cc) = fst inside"
  "c_OutboundNextHopSecurity (run_config cfg bt pub store inside cc) = fst (snd inside)"
  "c_Upstream (run_config cfg bt pub store inside cc) = snd (snd inside)"
  "c_CarrierListen (run_config cfg bt pub store inside cc) = cs_listen cc" "c_CarrierTLS (run_config cfg bt pub store inside cc) = cs_tls cc"
  "c_CarrierTokenVerify (run_config cfg bt pub store inside cc) = cs_verify cc"
  by (simp_all add: run_config_def split: prod.split)

lemma run_inside_cases:
  assumes "run_inside cfg bt = Inr inside"
  shows "inside = ([], False, None) \<or> (\<exists>hop u. hop \<noteq> [] \<and> inside = (hop, True, Some u) \<and> up_BrokerAddr u = hop \<and> up_Security u)"
  using assms by (auto simp: run_inside_def Let_def split: if_splits)

lemma carrier_settings:
  assumes "buildCarrierSettings cfg lib env hop up = Inr cc"
  shows "cs_listen cc = knob cfg ''CCB_CARRIER_LISTEN''" "cs_tls cc = hasPrefix (cs_listen cc) ''wss://''"
    "cs_verify cc = (if isWSCarrier (cs_listen cc) then Some (BearerTokenVerifier lib) else None)"
proof -
  obtain c0 where l: "listen_settings cfg lib env = Inr c0"
    and c: "cs_listen cc = cs_listen c0" "cs_tls cc = cs_tls c0" "cs_verify cc = cs_verify c0"
    using assms by (auto simp: buildCarrierSettings_def client_settings_def Let_def split: sum.splits if_splits option.splits)
  show "cs_listen cc = knob cfg ''CCB_CARRIER_LISTEN''" "cs_tls cc = hasPrefix (cs_listen cc) ''wss://''"
    "cs_verify cc = (if isWSCarrier (cs_listen cc) then Some (BearerTokenVerifier lib) else None)"
    using l unfolding c by (auto simp: listen_settings_def isWSCarrier_def Let_def split: if_splits)
qed

lemma detect_agree:
  "c_Upstream c = None \<and> c_OutboundNextHop c = [] \<or> (\<exists>u. c_Upstream c = Some u \<and> up_BrokerAddr u = c_OutboundNextHop c) \<Longrightarrow>
   detectCarrier c = Inr (parseCarrierRef (c_OutboundNextHop c))"
  by (auto simp: detectCarrier_def parseCarrierRef_def cutPrefix_def hasPrefix_def trimSpace_def trimWith_def split: option.split)


lemma main_config:
  assumes "run_inside cfg bt = Inr inside" "c = (run_config cfg bt pub store inside cc)\<lparr> c_Authorizer := az \<rparr>"
  shows "detectCarrier (with_defaults c) = Inr (parseCarrierRef (c_OutboundNextHop c))"
    "c_OutboundNextHop c \<noteq> [] \<Longrightarrow> c_OutboundNextHopSecurity c"
    "c_Upstream c = None \<and> c_OutboundNextHop c = [] \<or>
     c_OutboundNextHop c \<noteq> [] \<and> (\<exists>u. c_Upstream c = Some u \<and> up_BrokerAddr u = c_OutboundNextHop c \<and> up_Security u)"
proof -
  note i = run_inside_cases [OF assms(1)]
  show u: "c_Upstream c = None \<and> c_OutboundNextHop c = [] \<or>
     c_OutboundNextHop c \<noteq> [] \<and> (\<exists>u. c_Upstream c = Some u \<and> up_BrokerAddr u = c_OutboundNextHop c \<and> up_Security u)"
    using i by (auto simp: assms(2))
  then show "detectCarrier (with_defaults c) = Inr (parseCarrierRef (c_OutboundNextHop c))"
    using detect_agree [of "with_defaults c"] by auto
  show "c_OutboundNextHop c \<noteq> [] \<Longrightarrow> c_OutboundNextHopSecurity c" using i by (auto simp: assms(2))
qed

lemma run_public_nonempty: "run_public fl bt dl = Inr pub \<Longrightarrow> bt_sinful bt \<noteq> Some [] \<Longrightarrow> pub \<noteq> []"
  by (auto simp: run_public_def addr_String_def joinHostPort_def split: if_splits laddr.splits option.splits)


section \<open>Properties\<close>

text \<open>
  C35. The configuration the daemon builds is one the broker accepts: whatever the flags, the knobs
  and the environment, as long as an advertised shared-port address is not empty, \<open>New\<close> can refuse
  it only for a next hop that is the broker itself or for records that cannot be loaded. In
  particular the upstream and the next hop never name different carriers, and security for
  both is there.
\<close>

theorem main_new_errors:
  "run fl cfg lib bt loaded = Inl (RunNew e) \<Longrightarrow> bt_sinful bt \<noteq> Some [] \<Longrightarrow> e = ErrRoutingLoop \<or> e = ErrLoadReconnects"
proof -
  assume r: "run fl cfg lib bt loaded = Inl (RunNew e)" and s: "bt_sinful bt \<noteq> Some []"
  obtain dl pub store inside cc where p: "run_public fl bt dl = Inr pub" and i: "run_inside cfg bt = Inr inside"
    and b: "newBroker bt (run_config cfg bt pub store inside cc) loaded = Inl (RunNew e)"
    using r run_parts by metis
  obtain az where n: "New ((run_config cfg bt pub store inside cc)\<lparr> c_Authorizer := az \<rparr>) loaded = Inl e"
    using b by (auto simp: newBroker_def split: option.splits sum.splits if_splits)
  define c where "c = (run_config cfg bt pub store inside cc)\<lparr> c_Authorizer := az \<rparr>"
  note m = main_config [OF i c_def]
  have "c_PublicAddress c \<noteq> []" "c_Security c" using run_public_nonempty [OF p s] by (simp_all add: c_def)
  then show ?thesis using n [folded c_def] m(2,3)
    by (auto simp: New_def New_config_def m(1) choose_outbound_def Let_def split: if_splits option.splits sum.splits)
qed

definition demo_tls :: tls_env where
  "demo_tls = \<lparr> tv_keyPair = (\<lambda>c k. True), tv_files = (\<lambda>_. None), tv_certs = (\<lambda>_. True) \<rparr>"

definition demo_boot :: boot where
  "demo_boot = \<lparr> bt_config = True, bt_daemon = True, bt_keys = True, bt_sessions = Some SharedStore,
     bt_listener = Some UnixAddr, bt_inherited = True, bt_bindPublic = Some (TcpAddr (Some [10, 0, 0, 7]) 70), bt_sinful = None,
     bt_security = True, bt_openStore = True, bt_nextHopSec = True, bt_authz = Some (\<lambda>p a u. p = ''READ''), bt_levels = True,
     bt_splitList = (\<lambda>s. [s]), bt_tls = demo_tls \<rparr>"

definition demo_flags :: flags where
  "demo_flags = \<lparr> fl_listenExplicit = True, fl_public = [] \<rparr>"

definition demo_token_lib :: token_lib where
  "demo_token_lib = \<lparr> tl_isSciToken = (\<lambda>_. False), tl_verifySciToken = (\<lambda>_. None), tl_verifyIDToken = demo_verify \<rparr>"

theorem main_new_errors_witness:
  "run demo_flags [''CCB_OUTBOUND_NEXT_HOP'' \<mapsto> ''<10.0.0.7:70>''] demo_token_lib demo_boot None = Inl (RunNew ErrRoutingLoop)"
proof -
  let ?r = "run demo_flags [''CCB_OUTBOUND_NEXT_HOP'' \<mapsto> ''<10.0.0.7:70>''] demo_token_lib demo_boot None"
  have "case ?r of Inl (RunNew e) \<Rightarrow> e \<noteq> ErrLoadReconnects | _ \<Rightarrow> False" by code_simp
  then obtain e where e: "?r = Inl (RunNew e)" "e \<noteq> ErrLoadReconnects" by (auto split: sum.splits run_error.splits)
  have "bt_sinful demo_boot \<noteq> Some []" by (simp add: demo_boot_def)
  from main_new_errors [OF e(1) this] e show ?thesis by simp
qed




text \<open>
  C11. A WebSocket listener of the daemon is never open: if a started daemon serves one, its
  verifier is the broker's check of bearer tokens (a SciToken against its issuer's keys, any other
  token against the pool's), it uses TLS exactly if
  the knob asks for \<open>wss\<close>, and in every run of that listener each pipe it accepts belongs to a
  request with a token which that check accepted.
\<close>

theorem main_listener_secured:
  "run fl cfg lib bt loaded = Inr (srv, bg, lns) \<Longrightarrow> CarrierListener (Inr (WsListener lc)) \<in> set bg \<Longrightarrow>
   lc_Verify lc = Some (BearerTokenVerifier lib) \<and> (lc_TLS lc \<longleftrightarrow> hasPrefix (knob cfg ''CCB_CARRIER_LISTEN'') ''wss://'') \<and>
   (\<forall>w0 w n. ws_Listen lc True = Inr w0 \<longrightarrow> reach (\<lambda>x. x = w0) ws_step w \<longrightarrow> n \<in> set (wl_accepted w) \<longrightarrow>
      (\<exists>hdr pc who. wl_reqs w n = Some (hdr, pc) \<and> BearerTokenVerifier lib (bearerToken hdr) = Some who))"
proof -
  assume r: "run fl cfg lib bt loaded = Inr (srv, bg, lns)" and l: "CarrierListener (Inr (WsListener lc)) \<in> set bg"
  obtain c cc ob sv where srv: "srv = (c, cc, ob, sv)" by (cases srv)
  obtain pub store inside cs ls where st: "buildCarrierSettings cfg lib (bt_tls bt) (fst inside) (snd (snd inside)) = Inr cs"
    and b: "newBroker bt (run_config cfg bt pub store inside cs) loaded = Inr srv" and g: "(bg, lns) = serveBroker srv ls"
    using r run_parts by metis
  obtain az where n: "New_config ((run_config cfg bt pub store inside cs)\<lparr> c_Authorizer := Some az \<rparr>) = Inr (c, cc, ob)"
    using newBroker_Inr b srv by blast
  have c: "c_CarrierListen c = cs_listen cs" "c_CarrierTLS c = cs_tls cs" "c_CarrierTokenVerify c = cs_verify cs"
    unfolding New_config_inv(3) [OF n] by simp_all
  have "startCarrierListener c = Inr (WsListener lc)"
    using l g srv by (auto simp: serveBroker_def startBackground_def split: if_splits)
  then have v: "lc_Verify lc = cs_verify cs" "cs_verify cs \<noteq> None" "lc_TLS lc = cs_tls cs"
    by (auto simp: startCarrierListener_def carrierNetListener_def c split: option.splits if_splits)
  note s = carrier_settings [OF st]
  have ver: "lc_Verify lc = Some (BearerTokenVerifier lib)" using v(1,2) s(3) by (auto split: if_splits)
  have "\<exists>hdr pc who. wl_reqs w n = Some (hdr, pc) \<and> BearerTokenVerifier lib (bearerToken hdr) = Some who"
    if "ws_Listen lc True = Inr w0" "reach (\<lambda>x. x = w0) ws_step w" "n \<in> set (wl_accepted w)" for w0 w n
  proof -
    have w0: "ws_started (BearerTokenVerifier lib) w0" using ver that(1) unfolding ws_started_def by blast
    have "reach (ws_started (BearerTokenVerifier lib)) ws_step w"
      using that(2) by (induction rule: reach.induct) (auto intro: reach_start reach_step w0)
    then show ?thesis using ws_accepted_verified that(3) by blast
  qed
  then show ?thesis using ver v(3) s(1,2) by simp
qed

definition demo_outside :: knobs where
  "demo_outside = [''CCB_CARRIER_LISTEN'' \<mapsto> ''wss://ccb.example:8443/ccb/tunnel'', ''CCB_CARRIER_TLS_CERT'' \<mapsto> ''/c.pem'',
     ''CCB_CARRIER_TLS_KEY'' \<mapsto> ''/k.pem'']"

theorem main_listener_secured_witness:
  "\<exists>srv bg lns lc. run demo_flags demo_outside demo_token_lib demo_boot None = Inr (srv, bg, lns) \<and>
     CarrierListener (Inr (WsListener lc)) \<in> set bg \<and> lc_TLS lc \<and> lc_Verify lc = Some (BearerTokenVerifier demo_token_lib)"
proof -
  let ?r = "run demo_flags demo_outside demo_token_lib demo_boot None"
  have "case ?r of Inr (srv, bg, lns) \<Rightarrow> list_ex (\<lambda>b. case b of CarrierListener (Inr (WsListener lc)) \<Rightarrow> True | _ \<Rightarrow> False) bg | _ \<Rightarrow> False"
    by code_simp
  then obtain srv bg lns b where b: "?r = Inr (srv, bg, lns)" "b \<in> set bg"
      "case b of CarrierListener (Inr (WsListener lc)) \<Rightarrow> True | _ \<Rightarrow> False"
    by (auto simp: list_ex_iff split: sum.splits prod.splits)
  then obtain lc where "b = CarrierListener (Inr (WsListener lc))" by (auto split: background.splits sum.splits net_listener.splits)
  then have r: "?r = Inr (srv, bg, lns)" "CarrierListener (Inr (WsListener lc)) \<in> set bg" using b by simp_all
  have "hasPrefix (knob demo_outside ''CCB_CARRIER_LISTEN'') ''wss://''" by code_simp
  then show ?thesis using r main_listener_secured [OF r] by blast
qed

end
