(* ===== verification/Spec2Isabelle.thy ===== *)
theory Spec2Isabelle
  imports Fstun_Stream Fstun_Dial Fstun_Mode Ccb_Sqlite Ccb_Outbound Ccb_Upstream Ccb_Splice Ccb_Main
begin

text \<open>
  Verification of golang-ccb, a CCB (connection broker) for HTCondor written in Go.

  \<^bold>\<open>The program.\<close> A target behind a firewall registers with the broker and keeps the connection
  open; a requester that wants to reach the target asks the broker, which forwards the request over
  the registration, and the target connects back, to the requester (standard mode) or to the broker,
  which splices the two connections (proxy mode). The broker hands out ids and cookies so that a
  target can reclaim its id after a reconnect, and keeps them in a store that survives a restart.
  Brokers form chains: an inside broker registers with an outside broker, publishes a tunnel
  contact, and relays what arrives over a route of ids; an exit broker dials out on behalf of
  requesters under an egress control. The link between an inside and an outside broker may run
  over a carrier instead of TCP: a WebSocket, or a pair of logs in a shared directory (the
  package \<open>fstun\<close>), with yamux sessions multiplexed over it.

  \<^bold>\<open>Layers.\<close> The theories follow the packages; each names its source file in its opening text.

  \<^item> \<open>Ccb_Prelude\<close>: machine integers, \<open>reach\<close> (the states of all runs of a step relation) and the locale
    \<open>invariant_machine\<close>, by which every invariant below is lifted from steps to runs. It is
    interpreted once for each machine of the program.
  \<^item> \<open>Go_Binary\<close>, \<open>Go_Strings\<close>, \<open>Go_Utf8\<close>, \<open>Go_Net\<close>, \<open>Go_Glob\<close>, \<open>Go_Path\<close>, \<open>Go_Url\<close>: what the sources use
    of Go's standard library (byte order and CRC-32C, strings and numbers, the coercion of strings
    to valid UTF-8, IP addresses and CIDR blocks, \<open>filepath.Match\<close>, cleaned paths, URLs), with the
    facts the components need: the table-driven checksum is the bitwise one and detects a changed
    byte, printed numbers parse back, coerced strings are valid and valid ones stay as they are,
    \<open>filepath.Dir\<close> of a cleaned path is shorter until it is its own parent.
  \<^item> \<open>Fstun_Frame\<close> (\<open>transport/fstun/frame.go\<close>), \<open>Fstun_Config\<close> (\<open>params.go\<close>, \<open>config.go\<close>), \<open>Fstun_Mode\<close>
    (\<open>fsmode_linux.go\<close>): the wire format with its round trip and the rejection of damaged frames,
    the SYN payload, \<open>resolve\<close> with the bounds a connection relies on, and the detection of network
    file systems.
  \<^item> \<open>Fstun_Seglog\<close>, \<open>Fstun_Pipe\<close> (\<open>seglog.go\<close>): the segment writer and reader over an explicit store of
    inodes, and the machine of one direction. A reader gets a prefix of the appended frames, in
    order, under every partial view; when everything is visible \<open>next\<close> returns the next frame.
  \<^item> \<open>Fstun_Conn\<close>, \<open>Fstun_Duplex\<close>, \<open>Fstun_Flow\<close>, \<open>Fstun_Stream\<close> (\<open>conn.go\<close>): the state of a \<open>Conn\<close> as the
    record \<open>conn\<close>, every critical section of \<open>Read\<close>, \<open>Write\<close>, \<open>Close\<close>, \<open>recvLoop\<close> and \<open>maintLoop\<close> as a
    function, two ends over two pipes as the machine \<open>duplex_step\<close>, and the contract: a byte stream,
    an end of stream that is never early, a respected window, and no deadlock of flow control.
  \<^item> \<open>Fstun_Listen\<close> (\<open>listen.go\<close>, \<open>inbox.go\<close>, \<open>doorbell.go\<close>), \<open>Fstun_Dial\<close> (\<open>dial.go\<close>): the shared tree of
    files, announcing, the watch loop with its scans and sweeps, acceptance, reaping, and the whole
    of a dial. Every removal of files is given its outcome (\<open>rm_io\<close>): it may fail, or leave a part of
    a tree behind. No tunnel is accepted twice at a time, an arrival is engaged, a sweep takes only
    old markers and idle trees that nobody serves, and a dial whose reads return ends, and leaves
    nothing when it fails and its clean-up succeeds.
  \<^item> \<open>Ws_Auth\<close> (\<open>wscarrier_auth.go\<close>), \<open>Ws_Carrier\<close> (\<open>transport/wscarrier/ws.go\<close>), \<open>Carrier_Mux\<close>
    (\<open>transport/carrier/mux.go\<close>): the discovery and verification of tokens, the WebSocket listener
    and dialler, and the multiplexer. Only verified peers get a pipe; no stream is lost or
    duplicated, and the end of a session closes all its streams.
  \<^item> \<open>Ccb_Config\<close> (\<open>Config\<close>, \<open>New\<close>, \<open>authorize\<close> of \<open>server.go\<close>), \<open>Ccb_Reconnect\<close> (\<open>reconnect.go\<close>), \<open>Ccb_Server\<close>
    (\<open>server.go\<close>, \<open>request.go\<close>, \<open>proxy.go\<close>), \<open>Ccb_Broker\<close> (every interleaving of the handlers), with the
    properties of runs in \<open>Ccb_Registry\<close> and \<open>Ccb_Relay\<close>: ids are not taken over and not handed out
    twice in a run, records and live targets agree and records last until a sweep finds them old,
    the tables hold exactly what is in progress, and requests and relayed connections have the
    outcomes the protocol promises. \<open>broker_refines_ownership\<close> shows that the
    broker implements the small abstract machine \<open>own_step\<close> of who owns what.
  \<^item> \<open>Ccb_Sqlite\<close> (\<open>sqlitestore.go\<close>): the queue, the coalescing writer and its transactions. The locale
    \<open>reconnect_store\<close> is the interface \<open>ReconnectStore\<close>, and \<open>restartable_store\<close> extends it by what a
    store may do to the strings and times of a record; the in-memory store and the database are
    interpretations of both, and what a restart finds is proved once from the locale.
  \<^item> \<open>Ccb_Outbound\<close> (\<open>outbound.go\<close>), \<open>Ccb_Splice\<close> (\<open>spliceConns\<close> of \<open>proxy.go\<close>), \<open>Ccb_Upstream\<close> (\<open>upstream.go\<close>),
    \<open>Ccb_Carrier\<close> (\<open>carrier.go\<close>, \<open>startBackground\<close>), \<open>Ccb_Main\<close> (\<open>cmd/golang-ccb/main.go\<close>): the egress
    control and the exit handler, the two copying goroutines, the link to the upstream and what it
    publishes, the shared carrier session, and the way from flags and knobs to a running broker.

  \<^bold>\<open>How code becomes definitions.\<close> Structs are records and tagged values datatypes with the names of
  the source. Fixed-width unsigned integers are words; \<open>int\<close>, \<open>int64\<close> and durations are integers
  where they stay in range. An operation that fails returns an option or a sum. Whatever the
  outside decides (a failing or short write, a clock, a random number, an ad that was read, the
  reply of a library) is an argument, so that a theorem holds for every outcome. A goroutine that
  blocks is cut into segments at the places where it blocks, or has a program counter; a machine
  interleaves the segments freely. Ghost components record history (what was sent, returned,
  stored) and are read by no operation.

  A critical section is one segment, and so is a call of the store, which the source makes after it
  has released the lock: the operations of the store trail the tables, and those of two handlers may
  reach it in either order. \<open>unstored\<close> names the ids whose first operation is still under way; what a
  restart finds is stated for the others.

  Two cuts are coarser than the source. \<open>deliverResult\<close> looks a request up and sends to its channel
  in one segment; the source releases the lock in between, and since a request that was removed
  meanwhile has no reader, the segment at the time of the send has the same effect. And
  \<open>waitSendWindow\<close> looks at the error and at the window in two critical sections; the model looks at
  both at once, which loses no behaviour, since an error is never taken back.

  \<^bold>\<open>Bounds and termination.\<close> Some counters of the source could wrap after runs of astronomical
  length. The theorems exclude that where it matters: \<open>in_range\<close> keeps the id counters of the broker
  below their width, \<open>end_step\<close> keeps the data counter of a connection below \<open>2 ^ 63\<close>, and \<open>io_ok\<close>
  and \<open>pipe_step\<close> keep the segment number below \<open>2 ^ 32\<close>. Two loops are not structurally
  terminating and are partial functions into an option, so that not returning is a value:
  \<open>seg_next\<close>, shown to return when everything is visible (\<open>pipe_next_returns\<close>) and to run forever on
  a segment whose ROLL frame names the segment itself (\<open>roll_loop_diverges\<close>), and
  \<open>nearestExisting\<close>, shown to return for every path (\<open>detect_network_fs\<close>). \<open>waitSYN\<close> takes the rounds it makes as a list, each with
  the result of \<open>next\<close>, or none if that call does not return, and then \<open>waitSYN\<close> does not either; if
  the calls return, it has returned once the clock of a round is past the deadline. No other definition has fuel.

  Two more guards bound what the file system does to a pipe. A write is \<open>clean\<close>: it appends all of a
  frame or nothing. After a torn write the log is damaged, and what the reader then says rests on
  the checksum (\<open>frame_damage_detected\<close>), which cannot exclude every accident. A view is stable: a
  segment that is reopened is found again. Where it is not, the reader starts the segment over,
  which \<open>reopen_redelivers\<close> shows to return frames twice.

  \<^bold>\<open>Parameters.\<close> Code outside the repository is an argument with the documented behaviour it is
  relied on for: cedar's ads, contacts, tokens and clients (\<open>cedar\<close>, \<open>token_lib\<close>), the HTCondor
  libraries of the daemon (\<open>boot\<close>), yamux, the WebSocket library, the database with its sealing and
  JSON functions (\<open>codec\<close>, with the hypothesis \<open>codec_ok\<close> that what was sealed opens again, with
  bytes that are not UTF-8 replaced the way \<open>encoding/json\<close> does), the file system's view on another
  host. Every theorem with a hypothesis has a witness in which concrete
  functions satisfy it.

  \<^bold>\<open>Where code and documents differ.\<close> A theorem states what the code does. Three properties pin a
  defect: \<open>stale_removal\<close> (an old handler removes the target that reclaimed its id),
  \<open>late_reverse_connect_kept\<close> (a second reverse connection of a session is taken and never closed)
  and \<open>marker_traversal\<close> (a marker's name leads to the removal of the root). Two more stand where the
  comments or documents say something else: \<open>frame_damage_detected\<close>, since \<open>decodeFrame\<close> reports a
  complete frame with a bad checksum as corrupt at once, as its comment says, where
  \<open>docs/TRANSPORTS.md\<close> would have the reader wait; and \<open>allowlist_reference\<close>, which leaves out the
  list without entries, since that one admits every target (\<open>allowlist_empty_admits\<close>) where the
  comment says it permits nothing.

  \<^bold>\<open>Not modelled.\<close>
  \<^item> Logging, the texts of errors, \<open>frameType.String\<close> and the addresses of connections: they are read by
    people only.
  \<^item> The inside of yamux, TLS, WebSocket framing, SQL and the ad format: not part of the repository.
    The one-line methods of a mux session that pass a question on to yamux go with it.
  \<^item> The routing of HTTP requests by the multiplexer of \<open>net/http\<close>, and what \<open>net/http\<close> refuses to send:
    a request is one that reached the handler, with its header fields as the library delivers them,
    and the dialler is given the library's reply.
  \<^item> White space and letter case outside ASCII in \<open>strings\<close>, and file names that are not
    slash-separated.
  \<^item> \<open>fsmode_other.go\<close>, a function that is constantly false on systems other than Linux.
  \<^item> Modification times of directories above a changed entry: nothing reads them.
\<close>

end
